(* ===== verification/Gov_Prelude.thy ===== *)
theory Gov_Prelude
  imports Main "HOL-Library.Word" "HOL-Library.Signed_Division"
begin

text \<open>
  Shared vocabulary of the development: the fixed-width integer types of the C sources, pointers
  that may be null, runs of a component over a sequence of events, and the generic lemmas on
  lists and machine words that the component theories use.

  A C object pointer is an option (\<open>None\<close> is the null pointer). The functions of the firmware
  are modelled on the object itself; where a function of the C interface checks its pointer
  first, \<open>with_ptr\<close> and \<open>read_ptr\<close> put that check in front of it.
\<close>

unbundle bit_operations_syntax

section \<open>Types\<close>

type_synonym u8 = "8 word"
type_synonym u16 = "16 word"
type_synonym u32 = "32 word"

text \<open>A signed 32-bit integer is its two's complement bit pattern, read by \<open>sint\<close>.\<close>

type_synonym i32 = "32 word"

type_synonym 'a ptr = "'a option"

section \<open>Operations on objects behind pointers\<close>

definition with_ptr :: "'r \<Rightarrow> ('a \<Rightarrow> 'a \<times> 'r) \<Rightarrow> 'a ptr \<Rightarrow> 'a ptr \<times> 'r" where
  "with_ptr null_r f p =
     (case p of None \<Rightarrow> (None, null_r)
      | Some a \<Rightarrow> (let (a', r) = f a in (Some a', r)))"

definition read_ptr :: "'r \<Rightarrow> ('a \<Rightarrow> 'r) \<Rightarrow> 'a ptr \<Rightarrow> 'r" where
  "read_ptr null_r f p = (case p of None \<Rightarrow> null_r | Some a \<Rightarrow> f a)"

section \<open>Signed arithmetic\<close>

text \<open>
  C division truncates towards zero; \<open>sdiv\<close> on the integers does the same. The quotient is
  stored back at 32 bits.
\<close>

definition i32_div :: "i32 \<Rightarrow> i32 \<Rightarrow> i32" where
  "i32_div a b = word_of_int (sint a sdiv sint b)"

section \<open>Bit masks\<close>

text \<open>Every bit of \<open>a\<close> is a bit of \<open>m\<close>.\<close>

definition bits_in :: "'a::len word \<Rightarrow> 'a word \<Rightarrow> bool" where
  "bits_in a m \<longleftrightarrow> a AND NOT m = 0"

section \<open>Runs\<close>

text \<open>
  A component is a step function that takes its state and an event and returns the new state
  and the outputs of the step (frames put on the wire, payloads handed to the application).
\<close>

fun run :: "('s \<Rightarrow> 'e \<Rightarrow> 's \<times> 'o list) \<Rightarrow> 's \<Rightarrow> 'e list \<Rightarrow> 's \<times> 'o list" where
  "run f s [] = (s, [])"
| "run f s (e # es) =
     (let (s1, o1) = f s e; (s2, o2) = run f s1 es in (s2, o1 @ o2))"

text \<open>
  A step that may be undefined in C, or may never return, gives an option; a run is defined when
  every step of it is.
\<close>

fun run_opt :: "('s \<Rightarrow> 'e \<Rightarrow> ('s \<times> 'o list) option) \<Rightarrow> 's \<Rightarrow> 'e list \<Rightarrow> ('s \<times> 'o list) option" where
  "run_opt f s [] = Some (s, [])"
| "run_opt f s (e # es) =
     (case f s e of None \<Rightarrow> None
      | Some (s1, o1) \<Rightarrow> map_option (\<lambda>(s2, o2). (s2, o1 @ o2)) (run_opt f s1 es))"

section \<open>Rule collections\<close>

named_theorems gov_defs "definitions a proof unfolds to compute"

section \<open>Lemmas on pointers\<close>

lemma with_ptr_None [simp]: "with_ptr r f None = (None, r)"
  by (simp add: with_ptr_def)

lemma with_ptr_Some [simp]: "with_ptr r f (Some a) = (Some (fst (f a)), snd (f a))"
  by (simp add: with_ptr_def split: prod.split)

lemma read_ptr_None [simp]: "read_ptr r f None = r"
  by (simp add: read_ptr_def)

lemma read_ptr_Some [simp]: "read_ptr r f (Some a) = f a"
  by (simp add: read_ptr_def)

section \<open>Lemmas on runs\<close>

lemma run_Cons:
  "run f s (e # es) =
     (fst (run f (fst (f s e)) es), snd (f s e) @ snd (run f (fst (f s e)) es))"
  by (simp add: case_prod_beta)

declare run.simps(2) [simp del]

lemma fst_run_Cons [simp]: "fst (run f s (e # es)) = fst (run f (fst (f s e)) es)"
  by (simp add: run_Cons)

lemma snd_run_Cons [simp]: "snd (run f s (e # es)) = snd (f s e) @ snd (run f (fst (f s e)) es)"
  by (simp add: run_Cons)

lemma fst_run_append: "fst (run f s (xs @ ys)) = fst (run f (fst (run f s xs)) ys)"
  by (induction xs arbitrary: s) simp_all

lemma snd_run_append:
  "snd (run f s (xs @ ys)) = snd (run f s xs) @ snd (run f (fst (run f s xs)) ys)"
  by (induction xs arbitrary: s) simp_all

lemma run_append:
  "run f s (xs @ ys) =
     (fst (run f (fst (run f s xs)) ys),
      snd (run f s xs) @ snd (run f (fst (run f s xs)) ys))"
  using fst_run_append [of f s xs ys] snd_run_append [of f s xs ys]
  by (metis prod.collapse)

lemma run_opt_append:
  assumes "run_opt f s xs = Some (s1, o1)" and "run_opt f s1 ys = Some (s2, o2)"
  shows "run_opt f s (xs @ ys) = Some (s2, o1 @ o2)"
  using assms by (induction xs arbitrary: s o1) (auto split: option.splits prod.splits)

section \<open>Machines with an invariant\<close>

text \<open>
  The contract every stateful component of the firmware meets: its step function keeps an
  invariant. \<open>guard\<close> limits the events the environment may send; a component that accepts
  every event takes the guard that is always true.
\<close>

locale machine =
  fixes step :: "'s \<Rightarrow> 'e \<Rightarrow> 's \<times> 'o list"
    and guard :: "'e \<Rightarrow> bool"
    and invar :: "'s \<Rightarrow> bool"
  assumes step_invar: "invar s \<Longrightarrow> guard e \<Longrightarrow> invar (fst (step s e))"
begin

lemma run_invar:
  assumes "invar s" and "\<forall>e \<in> set es. guard e"
  shows "invar (fst (run step s es))"
  using assms
proof (induction es arbitrary: s)
  case Nil
  then show ?case by simp
next
  case (Cons e es)
  then have "invar (fst (step s e))" by (simp add: step_invar)
  with Cons show ?case by simp
qed

text \<open>A fact that the invariant gives for every step holds for the whole run.\<close>

lemma run_outputs:
  assumes "\<And>s e. invar s \<Longrightarrow> guard e \<Longrightarrow> \<forall>x \<in> set (snd (step s e)). P x"
    and "invar s" and "\<forall>e \<in> set es. guard e"
  shows "\<forall>x \<in> set (snd (run step s es)). P x"
  using assms(2,3)
proof (induction es arbitrary: s)
  case Nil
  then show ?case by simp
next
  case (Cons e es)
  then have "invar (fst (step s e))" by (simp add: step_invar)
  with Cons assms(1) show ?case by auto
qed

end

text \<open>
  The same for steps that may be undefined: from states of the invariant every admitted step is
  defined, keeps it and outputs only what is \<open>good\<close>.
\<close>

locale partial_machine =
  fixes step :: "'s \<Rightarrow> 'e \<Rightarrow> ('s \<times> 'o list) option"
    and guard :: "'e \<Rightarrow> bool"
    and invar :: "'s \<Rightarrow> bool"
    and good :: "'o \<Rightarrow> bool"
  assumes step_defined: "invar s \<Longrightarrow> guard e \<Longrightarrow> \<exists>s' out. step s e = Some (s', out) \<and> invar s' \<and> (\<forall>x \<in> set out. good x)"
begin

lemma run_defined:
  assumes "invar s" and "\<forall>e \<in> set es. guard e"
  shows "\<exists>s' out. run_opt step s es = Some (s', out) \<and> invar s' \<and> (\<forall>x \<in> set out. good x)"
  using assms
proof (induction es arbitrary: s)
  case Nil
  then show ?case by simp
next
  case (Cons e es)
  obtain s1 o1 where 1: "step s e = Some (s1, o1)" "invar s1" "\<forall>x \<in> set o1. good x"
    using step_defined [OF Cons.prems(1), of e] Cons.prems(2) by auto
  obtain s2 o2 where "run_opt step s1 es = Some (s2, o2)" "invar s2" "\<forall>x \<in> set o2. good x"
    using Cons.IH [OF 1(2)] Cons.prems(2) by auto
  with 1 show ?case by auto
qed

end

section \<open>Lemmas on words\<close>

lemma word_OR_eq_zero_iff:
  fixes a b :: "'a::len word"
  shows "a OR b = 0 \<longleftrightarrow> a = 0 \<and> b = 0"
  by (auto simp: bit_eq_iff bit_simps)

lemma word_nonzero_iff:
  fixes a :: "'a::len word"
  shows "a \<noteq> 0 \<longleftrightarrow> (\<exists>n. bit a n)"
  by (metis bit_0_eq bit_word_eqI bot_apply bot_bool_def)

lemma bit_shift_left_1:
  fixes a :: "'a::len word"
  shows "bit (push_bit 1 a) n \<longleftrightarrow> 0 < n \<and> n < LENGTH('a) \<and> bit a (n - 1)"
  by (subst bit_push_bit_iff) auto

lemma word_XOR_eq_zero_iff:
  fixes a b :: "'a::len word"
  shows "a XOR b = 0 \<longleftrightarrow> a = b"
  by (metis xor.assoc xor.right_neutral xor_self_eq xor.commute)

lemma bits_in_iff: "bits_in a m \<longleftrightarrow> (\<forall>n. bit a n \<longrightarrow> bit m n)"
  by (auto simp: bits_in_def bit_eq_iff bit_simps) (meson bit_imp_le_length le_less_linear)

lemma bits_in_refl [simp]: "bits_in a a" and bits_in_0 [simp]: "bits_in 0 m"
  by (simp_all add: bits_in_iff)

lemma bits_in_trans: "bits_in a b \<Longrightarrow> bits_in b c \<Longrightarrow> bits_in a c"
  by (simp add: bits_in_iff)

lemma bits_in_OR_left: "bits_in (a OR b) m \<longleftrightarrow> bits_in a m \<and> bits_in b m"
  by (auto simp: bits_in_iff bit_simps)

lemma bits_in_OR_right: "bits_in a m \<Longrightarrow> bits_in a (m OR b)"
  by (simp add: bits_in_iff bit_simps)

lemma bits_in_AND_left: "bits_in a m \<Longrightarrow> bits_in (a AND b) m"
  by (simp add: bits_in_iff bit_simps)

lemma bits_in_AND_right: "bits_in a (m AND b) \<longleftrightarrow> bits_in a m \<and> bits_in a b"
  by (auto simp: bits_in_iff bit_simps)

lemma word_sub_le_mono:
  fixes a b c :: "'a::len word"
  assumes "a \<le> b" and "b \<le> c"
  shows "c - b \<le> c - a"
proof -
  have "unat (c - b) = unat c - unat b" and "unat (c - a) = unat c - unat a"
    using assms by (simp_all add: unat_sub)
  with assms show ?thesis by (simp add: word_le_nat_alt)
qed

end
