(* ===== verification/Gov_Crc.thy ===== *)
theory Gov_Crc
  imports Gov_Prelude
begin

text \<open>
  CRC-16/CCITT-FALSE, \<^verbatim>\<open>lib/proto/crc16.c\<close>, the integrity check of the link frames and of the
  stored configuration. The loop over the bytes is the recursion on the list of the \<^verbatim>\<open>len\<close> bytes at
  \<^verbatim>\<open>data\<close>. Below the code: the register is linear in the message, and what the protocol
  document promises of the code (single-bit, double-bit, odd-weight and short burst errors are
  detected) is proved for a message together with its transmitted check value.
\<close>

section \<open>The code\<close>

definition crc_bit :: "u16 \<Rightarrow> u16" where
  "crc_bit crc =
     (if crc AND 0x8000 \<noteq> 0 then push_bit 1 crc XOR 0x1021 else push_bit 1 crc)"

definition crc_byte :: "u16 \<Rightarrow> u8 \<Rightarrow> u16" where
  "crc_byte crc b = (crc_bit ^^ 8) (crc XOR push_bit 8 (ucast b))"

fun gov_crc16_ccitt :: "u16 \<Rightarrow> u8 list \<Rightarrow> u16" where
  "gov_crc16_ccitt crc [] = crc"
| "gov_crc16_ccitt crc (b # bs) = gov_crc16_ccitt (crc_byte crc b) bs"

section \<open>The register, bit by bit\<close>

text \<open>
  The serial form of the same code: one message bit at a time, the most significant bit of each
  byte first.
\<close>

definition crc_in :: "u16 \<Rightarrow> bool \<Rightarrow> u16" where
  "crc_in s b = crc_bit (s XOR (if b then 0x8000 else 0))"

definition crc_bits :: "u16 \<Rightarrow> bool list \<Rightarrow> u16" where
  "crc_bits s bs = foldl crc_in s bs"

definition byte_bits :: "u8 \<Rightarrow> bool list" where
  "byte_bits b = map (bit b) (rev [0..<8])"

definition message_bits :: "u8 list \<Rightarrow> bool list" where
  "message_bits bs = concat (map byte_bits bs)"

text \<open>The two bytes of a check value as they follow the message on the wire.\<close>

definition crc_bytes :: "u16 \<Rightarrow> u8 list" where
  "crc_bytes c = [ucast (drop_bit 8 c AND 0xFF), ucast (c AND 0xFF)]"

text \<open>The first bits of the register, most significant first, and the parity of some bits.\<close>

fun pack :: "bool list \<Rightarrow> u16" where
  "pack [] = 0"
| "pack (b # bs) = (if b then 0x8000 else 0) XOR drop_bit 1 (pack bs)"

fun parity :: "(nat \<Rightarrow> bool) \<Rightarrow> nat list \<Rightarrow> bool" where
  "parity f [] = False"
| "parity f (n # ns) = (f n \<noteq> parity f ns)"

fun weight :: "bool list \<Rightarrow> nat" where
  "weight [] = 0"
| "weight (b # bs) = of_bool b + weight bs"

text \<open>The bit positions at which two messages differ.\<close>

definition flips :: "u8 list \<Rightarrow> u8 list \<Rightarrow> bool list" where
  "flips xs ys = map2 (\<noteq>) (message_bits xs) (message_bits ys)"

text \<open>The register, started at \<open>x\<close>, does not meet the value of a lone bit for \<open>n\<close> steps.\<close>

fun avoids :: "nat \<Rightarrow> u16 \<Rightarrow> bool" where
  "avoids 0 x = True"
| "avoids (Suc n) x = (crc_bit x \<noteq> 0x8000 \<and> avoids n (crc_bit x))"

text \<open>The same on natural numbers, where it is cheap to evaluate.\<close>

definition crc_nat :: "nat \<Rightarrow> nat" where
  "crc_nat n = (if n < 32768 then 2 * n else (2 * n - 65536) XOR 4129)"

fun avoids_nat :: "nat \<Rightarrow> nat \<Rightarrow> bool" where
  "avoids_nat 0 x = True"
| "avoids_nat (Suc n) x = (crc_nat x \<noteq> 32768 \<and> avoids_nat n (crc_nat x))"

fun crc16_nat :: "nat \<Rightarrow> nat list \<Rightarrow> nat" where
  "crc16_nat c [] = c"
| "crc16_nat c (b # bs) = crc16_nat (crc_nat (crc_nat (crc_nat (crc_nat (crc_nat (crc_nat (crc_nat
     (crc_nat (c XOR (256 * b)))))))))) bs"

text \<open>The error patterns the protocol document says the code detects.\<close>

definition odd_weight :: "bool list \<Rightarrow> bool" where
  "odd_weight e \<longleftrightarrow> odd (weight e)"

definition short_burst :: "bool list \<Rightarrow> bool" where
  "short_burst e \<longleftrightarrow>
     (\<exists>i b k. e = replicate i False @ b @ replicate k False \<and> length b \<le> 16 \<and> True \<in> set b)"

definition double_bit :: "nat \<Rightarrow> bool list \<Rightarrow> bool" where
  "double_bit m e \<longleftrightarrow>
     (\<exists>i d k. d < m \<and>
        e = replicate i False @ True # replicate d False @ True # replicate k False)"

section \<open>An incremental checksum\<close>

text \<open>What the frame decoder and the configuration slots rely on.\<close>

locale checksum =
  fixes ck :: "u16 \<Rightarrow> u8 list \<Rightarrow> u16"
  assumes ck_Nil: "ck s [] = s"
    and ck_append: "ck s (xs @ ys) = ck (ck s xs) ys"
begin

lemma ck_snoc: "ck s (xs @ [x]) = ck (ck s xs) [x]"
  by (rule ck_append)

lemma ck_foldl: "foldl (\<lambda>s x. ck s [x]) s xs = ck s xs"
  by (induction xs arbitrary: s rule: rev_induct) (simp_all add: ck_Nil ck_append)

end

lemma gov_crc16_append: "gov_crc16_ccitt s (xs @ ys) = gov_crc16_ccitt (gov_crc16_ccitt s xs) ys"
  by (induction xs arbitrary: s) simp_all

interpretation crc: checksum gov_crc16_ccitt
  by unfold_locales (simp_all add: gov_crc16_append)

section \<open>Linearity and injectivity of one step\<close>

lemma bit_8000: "bit (0x8000 :: u16) n \<longleftrightarrow> n = 15"
proof -
  have "(0x8000 :: u16) = 2 ^ 15" by simp
  then show ?thesis by (simp only: bit_exp_iff) auto
qed

lemma and_8000: "(x :: u16) AND 0x8000 \<noteq> 0 \<longleftrightarrow> bit x 15"
  unfolding word_nonzero_iff bit_and_iff bit_8000 by auto

lemma crc_bit_alt: "crc_bit x = push_bit 1 x XOR (if bit x 15 then 0x1021 else 0)"
  by (simp add: crc_bit_def and_8000)

lemma crc_bit_linear: "crc_bit (x XOR y) = crc_bit x XOR crc_bit y"
  by (simp add: crc_bit_alt bit_simps push_bit_xor xor.assoc xor.left_commute)

lemma crc_bit_zero [simp]: "crc_bit 0 = 0"
  by (simp add: crc_bit_alt)

lemma bit_crc_bit:
  "bit (crc_bit x) n \<longleftrightarrow> (0 < n \<and> n < 16 \<and> bit x (n - 1)) \<noteq> (bit x 15 \<and> bit (0x1021 :: u16) n)"
  unfolding crc_bit_alt bit_xor_iff bit_shift_left_1 by simp

lemma crc_bit_eq_0: "crc_bit x = 0 \<longleftrightarrow> x = 0"
proof
  assume z: "crc_bit x = 0"
  then have "\<not> bit (crc_bit x) 0" by simp
  then have top: "\<not> bit x 15" by (simp add: bit_crc_bit)
  have low: "\<not> bit x n" if "n < 15" for n
    using that top bit_crc_bit [of x "Suc n"] by (simp add: z)
  show "x = 0"
  proof (rule bit_word_eqI)
    fix n assume "n < LENGTH(16)"
    with low top show "bit x n \<longleftrightarrow> bit 0 n" by (cases "n = 15") auto
  qed
qed simp

lemma funpow_crc_bit_linear: "(crc_bit ^^ n) (x XOR y) = (crc_bit ^^ n) x XOR (crc_bit ^^ n) y"
  by (induction n arbitrary: x y) (simp_all add: crc_bit_linear funpow_swap1)

lemma funpow_crc_bit_eq_0: "(crc_bit ^^ n) x = 0 \<longleftrightarrow> x = 0"
  by (induction n arbitrary: x) (simp_all add: crc_bit_eq_0)

lemma funpow_crc_bit_0: "(crc_bit ^^ n) 0 = 0"
  by (simp add: funpow_crc_bit_eq_0)

section \<open>The byte loop and the serial form agree\<close>

lemma crc_bits_Nil [simp]: "crc_bits s [] = s"
  and crc_bits_Cons [simp]: "crc_bits s (b # bs) = crc_bits (crc_in s b) bs"
  and crc_bits_append: "crc_bits s (as @ bs) = crc_bits (crc_bits s as) bs"
  by (simp_all add: crc_bits_def)

lemma length_byte_bits [simp]: "length (byte_bits b) = 8"
  by (simp add: byte_bits_def)

lemma length_message_bits [simp]: "length (message_bits bs) = 8 * length bs"
  by (induction bs) (simp_all add: message_bits_def)

lemma message_bits_append: "message_bits (xs @ ys) = message_bits xs @ message_bits ys"
  by (simp add: message_bits_def)

lemma bit_pack: "bit (pack w) n \<longleftrightarrow> n < 16 \<and> 15 - n < length w \<and> w ! (15 - n)"
proof (induction w arbitrary: n)
  case Nil
  then show ?case by simp
next
  case (Cons b w)
  have "bit (pack (b # w)) n \<longleftrightarrow> (b \<and> n = 15) \<noteq> bit (pack w) (n + 1)"
    unfolding pack.simps bit_xor_iff by (cases b) (simp_all only: if_True if_False bit_8000
        bit_drop_bit_eq comp_def bit_0_eq bot_apply bot_bool_def, simp_all add: add.commute)
  with Cons.IH [of "n + 1"] show ?case
    by (cases "n < 15") (auto simp: nth_Cons' not_less dest: bit_imp_le_length)
qed

lemma crc_bits_pack:
  "length w \<le> 16 \<Longrightarrow> crc_bits s w = (crc_bit ^^ length w) (s XOR pack w)"
proof (induction w arbitrary: s)
  case Nil
  then show ?case by simp
next
  case (Cons b w)
  have "crc_bit (drop_bit 1 (pack w)) = pack w"
  proof (rule bit_word_eqI)
    fix n assume "n < LENGTH(16)"
    then show "bit (crc_bit (drop_bit 1 (pack w))) n \<longleftrightarrow> bit (pack w) n"
      using Cons.prems
      by (cases n) (auto simp: bit_crc_bit bit_drop_bit_eq bit_pack)
  qed
  then have "crc_in s b XOR pack w = crc_bit (s XOR pack (b # w))"
    by (simp add: crc_in_def crc_bit_linear xor.assoc)
  with Cons show ?case by (simp add: funpow_swap1)
qed

lemma nth_byte_bits: "i < 8 \<Longrightarrow> byte_bits b ! i = bit b (7 - i)"
  by (simp add: byte_bits_def rev_nth)

lemma pack_byte_bits: "pack (byte_bits b) = push_bit 8 (ucast b)"
proof (rule bit_word_eqI)
  fix n assume n: "n < LENGTH(16)"
  show "bit (pack (byte_bits b)) n \<longleftrightarrow> bit (push_bit 8 (ucast b) :: u16) n"
    using n by (cases "8 \<le> n")
      (auto simp: bit_pack nth_byte_bits bit_push_bit_iff bit_ucast_iff Suc_diff_le)
qed

lemma crc_byte_serial: "crc_byte s b = crc_bits s (byte_bits b)"
  by (simp add: crc_byte_def crc_bits_pack pack_byte_bits)

lemma crc_serial: "gov_crc16_ccitt s bs = crc_bits s (message_bits bs)"
  by (induction bs arbitrary: s)
    (simp_all add: message_bits_def crc_bits_append crc_byte_serial)

section \<open>Linearity over whole messages\<close>

lemma crc_in_linear: "crc_in (s XOR t) (a \<noteq> b) = crc_in s a XOR crc_in t b"
  unfolding crc_in_def crc_bit_linear [symmetric]
  by (rule arg_cong [where f = crc_bit]) (auto simp: bit_eq_iff bit_simps)

lemma crc_bits_linear:
  "length as = length bs \<Longrightarrow>
     crc_bits (s XOR t) (map2 (\<noteq>) as bs) = crc_bits s as XOR crc_bits t bs"
proof (induction as bs arbitrary: s t rule: list_induct2)
  case Nil
  then show ?case by simp
next
  case (Cons a as b bs)
  then show ?case using Cons.IH [of "crc_in s a" "crc_in t b"] by (simp add: crc_in_linear [simplified])
qed

lemma crc_flips:
  assumes "length xs = length ys"
  shows "gov_crc16_ccitt s xs XOR gov_crc16_ccitt s ys = crc_bits 0 (flips xs ys)"
  using crc_bits_linear [of "message_bits xs" "message_bits ys" s s] assms
  by (simp add: crc_serial flips_def)

lemma crc_in_False: "crc_in s False = crc_bit s"
  by (simp add: crc_in_def)

lemma crc_bits_zeros: "crc_bits s (replicate n False) = (crc_bit ^^ n) s"
  by (induction n arbitrary: s) (simp_all add: crc_in_False funpow_swap1)

section \<open>A message followed by its check value\<close>

lemma pack_eq_0: "length w \<le> 16 \<Longrightarrow> pack w = 0 \<Longrightarrow> True \<notin> set w"
proof
  assume len: "length w \<le> 16" and z: "pack w = 0" and "True \<in> set w"
  then obtain i where i: "i < length w" "w ! i" by (metis in_set_conv_nth)
  with len have "bit (pack w) (15 - i)" by (simp add: bit_pack)
  with z show False by simp
qed

lemma ucast_byte [simp]:
  "bit (ucast (drop_bit 8 (c :: u16) AND 0xFF) :: u8) n \<longleftrightarrow> n < 8 \<and> bit c (n + 8)"
  "bit (ucast ((c :: u16) AND 0xFF) :: u8) n \<longleftrightarrow> n < 8 \<and> bit c n"
proof -
  have m: "(0xFF :: u16) = mask 8" by (simp add: mask_eq_exp_minus_1)
  show "bit (ucast (drop_bit 8 (c :: u16) AND 0xFF) :: u8) n \<longleftrightarrow> n < 8 \<and> bit c (n + 8)"
    and "bit (ucast ((c :: u16) AND 0xFF) :: u8) n \<longleftrightarrow> n < 8 \<and> bit c n"
    unfolding m by (auto simp: bit_ucast_iff bit_and_iff bit_mask_iff bit_drop_bit_eq add.commute)
qed

lemma pack_crc_bytes: "pack (message_bits (crc_bytes c)) = c"
proof (rule bit_word_eqI)
  fix n assume n: "n < LENGTH(16)"
  have bits: "message_bits (crc_bytes c) =
      byte_bits (ucast (drop_bit 8 c AND 0xFF)) @ byte_bits (ucast (c AND 0xFF))"
    by (simp add: message_bits_def crc_bytes_def)
  show "bit (pack (message_bits (crc_bytes c))) n \<longleftrightarrow> bit c n"
    using n unfolding bit_pack bits
    by (cases "8 \<le> n") (auto simp: nth_append nth_byte_bits not_le bit_drop_bit_eq)
qed

lemma length_crc_bytes [simp]: "length (crc_bytes c) = 2"
  by (simp add: crc_bytes_def)

lemma residue_zero:
  "gov_crc16_ccitt s (msg @ crc_bytes c) = 0 \<longleftrightarrow> c = gov_crc16_ccitt s msg"
proof -
  have "gov_crc16_ccitt s (msg @ crc_bytes c) =
      (crc_bit ^^ 16) (gov_crc16_ccitt s msg XOR pack (message_bits (crc_bytes c)))"
    unfolding crc.ck_append
    by (subst crc_serial) (subst crc_bits_pack, simp_all)
  then have "gov_crc16_ccitt s (msg @ crc_bytes c) = 0 \<longleftrightarrow> gov_crc16_ccitt s msg XOR c = 0"
    by (simp only: pack_crc_bytes funpow_crc_bit_eq_0)
  then show ?thesis by (auto simp: word_XOR_eq_zero_iff)
qed

section \<open>Error patterns\<close>

lemma parity_xor: "parity (\<lambda>n. f n \<noteq> g n) ns = (parity f ns \<noteq> parity g ns)"
  by (induction ns) auto

lemma parity_append: "parity f (ms @ ns) = (parity f ms \<noteq> parity f ns)"
  by (induction ms) auto

lemma parity_shift: "m < k \<Longrightarrow>
    parity (\<lambda>n. 0 < n \<and> n < k \<and> f (n - 1)) [0..<Suc m] = parity f [0..<m]"
  by (induction m) (auto simp: parity_append)

lemma parity_single: "parity (\<lambda>n. n = k) [0..<m] = (k < m)"
  by (induction m) (auto simp: parity_append)

lemma parity_const: "parity (\<lambda>n. c \<and> f n) ns = (c \<and> parity f ns)"
  by (induction ns) auto

lemma parity_const_False [simp]: "parity (bit 0) ns = False"
  by (induction ns) auto

lemma bit_1021: "bit (0x1021 :: u16) n \<longleftrightarrow> ((n = 0) \<noteq> (n = 5)) \<noteq> (n = 12)"
proof -
  have "(0x1021 :: u16) = 2 ^ 0 XOR 2 ^ 5 XOR 2 ^ 12" by simp
  then show ?thesis by (simp only: bit_xor_iff bit_exp_iff possible_bit_word) auto
qed

lemma parity_crc_bit: "parity (bit (crc_bit x)) [0..<16] = parity (bit x) [0..<16]"
proof -
  have "[0..<16] = [0..<15] @ [15 :: nat]"
    using upt_Suc_append [of 0 15] by simp
  then have "parity (bit x) [0..<16] = (parity (bit x) [0..<15] \<noteq> bit x 15)"
    by (simp only: parity_append) simp
  moreover have "parity (\<lambda>n. 0 < n \<and> n < 16 \<and> bit x (n - 1)) [0..<16] = parity (bit x) [0..<15]"
    using parity_shift [of 15 16 "bit x"] by simp
  moreover have "parity (bit (0x1021 :: u16)) [0..<16]"
    unfolding bit_1021 parity_xor parity_single by simp
  ultimately show ?thesis unfolding bit_crc_bit parity_xor parity_const by simp
qed

lemma parity_crc_bits:
  "parity (bit (crc_bits s w)) [0..<16] = (parity (bit s) [0..<16] \<noteq> odd (weight w))"
proof (induction w arbitrary: s)
  case Nil
  then show ?case by simp
next
  case (Cons b w)
  have "parity (bit (if b then 0x8000 else 0 :: u16)) [0..<16] = b"
    by (cases b) (simp_all only: if_True if_False bit_8000 [abs_def] parity_single
        parity_const_False, simp)
  then have "parity (bit (crc_in s b)) [0..<16] = (parity (bit s) [0..<16] \<noteq> b)"
    unfolding crc_in_def parity_crc_bit bit_xor_iff parity_xor by simp
  with Cons show ?case by auto
qed

lemma odd_weight_detected: "odd_weight e \<Longrightarrow> crc_bits 0 e \<noteq> 0"
proof
  assume "odd_weight e" and z: "crc_bits 0 e = 0"
  with parity_crc_bits [of 0 e] show False
    by (simp add: odd_weight_def)
qed

lemma crc_bits_framed:
  "crc_bits 0 (replicate i False @ b @ replicate k False) = 0 \<longleftrightarrow> crc_bits 0 b = 0"
  by (simp add: crc_bits_append crc_bits_zeros funpow_crc_bit_eq_0 funpow_crc_bit_0)

lemma short_burst_detected: "short_burst e \<Longrightarrow> crc_bits 0 e \<noteq> 0"
  unfolding short_burst_def
  by (auto simp: crc_bits_framed crc_bits_pack funpow_crc_bit_eq_0 dest: pack_eq_0)

lemma avoids_funpow: "avoids n x \<Longrightarrow> d < n \<Longrightarrow> (crc_bit ^^ Suc d) x \<noteq> 0x8000"
proof (induction d arbitrary: n x)
  case 0
  then show ?case by (cases n) auto
next
  case (Suc d)
  then show ?case by (cases n) (auto simp: funpow_swap1)
qed

lemma bit_15_unat: "bit (x :: u16) 15 \<longleftrightarrow> 32768 \<le> unat x"
proof -
  have "unat x < 65536" using unsigned_less [where 'a = nat, of x] by simp
  then have "unat x div 32768 = (if 32768 \<le> unat x then 1 else 0)"
    by (auto simp: div_eq_0_iff intro: div_nat_eqI)
  moreover have "bit x 15 \<longleftrightarrow> odd (unat x div 32768)"
    using bit_unsigned_iff [where 'a = nat, of x 15] by (simp add: bit_iff_odd)
  ultimately show ?thesis by simp
qed

lemma unat_crc_bit: "unat (crc_bit x) = crc_nat (unat x)"
proof -
  have lt: "unat x < 65536" using unsigned_less [where 'a = nat, of x] by simp
  have "unat (push_bit 1 x) = (2 * unat x) mod 65536"
    by (subst unsigned_push_bit_eq) (simp add: take_bit_eq_mod mult.commute)
  also have "\<dots> = (if 32768 \<le> unat x then 2 * unat x - 65536 else 2 * unat x)"
    using lt by (auto simp: mod_if)
  finally show ?thesis
    by (simp add: crc_nat_def crc_bit_alt bit_15_unat unsigned_xor_eq del: push_bit_Suc One_nat_def)
qed

lemma unat_gov_crc16: "unat (gov_crc16_ccitt s bs) = crc16_nat (unat s) (map unat bs)"
proof (induction bs arbitrary: s)
  case Nil
  then show ?case by simp
next
  case (Cons b bs)
  have b: "256 * unat b < 65536" using unsigned_less [where 'a = nat, of b] by simp
  then have "unat (push_bit 8 (ucast b) :: u16) = 256 * unat b"
    by (subst unsigned_push_bit_eq)
      (simp add: push_bit_eq_mult take_bit_eq_mod unsigned_ucast_eq mult.commute)
  then have "unat (s XOR push_bit 8 (ucast b)) = unat s XOR (256 * unat b)"
    by (simp add: unsigned_xor_eq)
  moreover have "(crc_bit ^^ 8) x =
      crc_bit (crc_bit (crc_bit (crc_bit (crc_bit (crc_bit (crc_bit (crc_bit x)))))))" for x
    by (simp add: numeral_eq_Suc)
  ultimately show ?case by (simp add: Cons crc_byte_def unat_crc_bit)
qed

lemma avoids_nat: "avoids n x = avoids_nat n (unat x)"
  by (induction n arbitrary: x) (simp_all add: unat_crc_bit [symmetric] word_unat_eq_iff)

lemma avoids_nat_numeral:
  "avoids_nat (numeral k) x \<longleftrightarrow> crc_nat x \<noteq> 32768 \<and> avoids_nat (pred_numeral k) (crc_nat x)"
  by (simp add: numeral_eq_Suc)

lemma avoids_frame: "avoids 576 0x8000"
  by (simp add: avoids_nat avoids_nat_numeral crc_nat_def)

lemma double_bit_detected: "double_bit 576 e \<Longrightarrow> crc_bits 0 e \<noteq> 0"
proof -
  assume "double_bit 576 e"
  then obtain i d k where d: "d < 576"
    and e: "e = replicate i False @ (True # replicate d False @ [True]) @ replicate k False"
    by (auto simp: double_bit_def)
  have "crc_bits 0 (True # replicate d False @ [True]) =
      crc_bit ((crc_bit ^^ Suc d) 0x8000 XOR 0x8000)"
    by (simp add: crc_bits_append crc_bits_zeros crc_in_def funpow_swap1)
  moreover have "(crc_bit ^^ Suc d) 0x8000 XOR 0x8000 \<noteq> 0"
    using avoids_funpow [OF avoids_frame d] by (simp add: word_XOR_eq_zero_iff)
  ultimately have "crc_bits 0 (True # replicate d False @ [True]) \<noteq> 0"
    by (simp only: crc_bit_eq_0) simp
  then show "crc_bits 0 e \<noteq> 0" unfolding e crc_bits_framed .
qed

lemma error_detected:
  assumes "length msg' = length msg"
    and "odd_weight e \<or> short_burst e \<or> double_bit 576 e"
    and "e = flips (msg @ crc_bytes (gov_crc16_ccitt s msg)) (msg' @ crc_bytes c')"
  shows "c' \<noteq> gov_crc16_ccitt s msg'"
proof
  assume c: "c' = gov_crc16_ccitt s msg'"
  have "crc_bits 0 e \<noteq> 0"
    using assms(2) odd_weight_detected short_burst_detected double_bit_detected by blast
  moreover have "crc_bits 0 e = 0"
    using crc_flips [of "msg @ crc_bytes (gov_crc16_ccitt s msg)" "msg' @ crc_bytes c'" s]
      residue_zero [of s msg "gov_crc16_ccitt s msg"] residue_zero [of s msg' c']
    unfolding assms(3) by (simp only: assms(1) c length_append length_crc_bytes xor_self_eq simp_thms)
  ultimately show False ..
qed

section \<open>Properties\<close>

text \<open>
  C12. Error detection: take a message with its check value, and flip bits of the two together,
  in a pattern of odd weight, in a burst of at most 16 bits, or at two positions less than 577
  bits apart (a whole frame has 568 bits after the start byte). Then the check value received
  is not the one computed from the message received.
\<close>

theorem crc_detects_errors:
  assumes "length msg' = length msg"
    and "odd_weight e \<or> short_burst e \<or> double_bit 576 e"
    and "e = flips (msg @ crc_bytes (gov_crc16_ccitt s msg)) (msg' @ crc_bytes c')"
  shows "c' \<noteq> gov_crc16_ccitt s msg'"
  using assms by (rule error_detected)

theorem crc_detects_errors_witness:
  "gov_crc16_ccitt 0xFFFF [0x31, 0x32, 0x33, 0x34, 0x35, 0x36, 0x37, 0x38, 0x39] = 0x29B1 \<and>
   (0x29B1 :: u16) \<noteq> gov_crc16_ccitt 0xFFFF [0x31, 0x32, 0x33, 0x34, 0x37, 0x36, 0x37, 0x38, 0x39]"
proof
  let ?msg = "[0x31, 0x32, 0x33, 0x34, 0x35, 0x36, 0x37, 0x38, 0x39] :: u8 list"
  let ?msg' = "[0x31, 0x32, 0x33, 0x34, 0x37, 0x36, 0x37, 0x38, 0x39] :: u8 list"
  show crc: "gov_crc16_ccitt 0xFFFF ?msg = 0x29B1"
    by code_simp
  let ?e = "flips (?msg @ crc_bytes 0x29B1) (?msg' @ crc_bytes 0x29B1)"
  have "odd_weight ?e"
    by code_simp
  then show "(0x29B1 :: u16) \<noteq> gov_crc16_ccitt 0xFFFF ?msg'"
    using crc_detects_errors [of ?msg' ?msg ?e "0xFFFF" "0x29B1"] crc by simp
qed

end
