(* ===== verification/Gov_Frame.thy ===== *)
theory Gov_Frame
  imports Gov_Crc
begin

text \<open>
  Link framing, \<^verbatim>\<open>lib/proto/proto.h\<close> and \<^verbatim>\<open>lib/proto/frame.c\<close>: the encoder, which writes into a
  buffer of the caller, and the decoder, a state machine fed one byte at a time. The callback of
  the decoder is an output of the push: the frames delivered by it, each with the \<^verbatim>\<open>len\<close> bytes at
  the payload pointer.

  The decoder is refined to a specification that keeps the bytes received since the start byte
  and looks at them only when the frame is complete; the round trip, the soundness of every
  delivery and the resynchronisation are proved there and carried back.
\<close>

section \<open>Constants and types\<close>

definition GOV_SOF :: u8 where [gov_defs]: "GOV_SOF = 0x7E"
definition GOV_VER :: u8 where [gov_defs]: "GOV_VER = 0x01"
definition GOV_CRC_INIT :: u16 where "GOV_CRC_INIT = 0xFFFF"
definition GOV_MAX_PAYLOAD :: nat where [gov_defs]: "GOV_MAX_PAYLOAD = 64"
definition GOV_FRAME_HDR :: nat where [gov_defs]: "GOV_FRAME_HDR = 6"
definition GOV_FRAME_CRC :: nat where [gov_defs]: "GOV_FRAME_CRC = 2"
definition GOV_FRAME_MAX :: nat where
  [gov_defs]: "GOV_FRAME_MAX = GOV_FRAME_HDR + GOV_MAX_PAYLOAD + GOV_FRAME_CRC"

definition GOV_TYPE_DATA :: u8 where [gov_defs]: "GOV_TYPE_DATA = 0x01"
definition GOV_TYPE_ACK :: u8 where [gov_defs]: "GOV_TYPE_ACK = 0x02"
definition GOV_TYPE_NAK :: u8 where [gov_defs]: "GOV_TYPE_NAK = 0x03"
definition GOV_TYPE_CMD :: u8 where [gov_defs]: "GOV_TYPE_CMD = 0x04"
definition GOV_TYPE_HEARTBEAT :: u8 where [gov_defs]: "GOV_TYPE_HEARTBEAT = 0x05"
definition GOV_TYPE_CFG_WRITE :: u8 where [gov_defs]: "GOV_TYPE_CFG_WRITE = 0x06"

text \<open>The states of the decoder; the last stands for a value outside the enumeration.\<close>

datatype gov_decoder_state =
  GOV_DEC_HUNT_SOF | GOV_DEC_VER | GOV_DEC_HDR | GOV_DEC_PAYLOAD | GOV_DEC_CRC | GOV_DEC_OTHER

text \<open>The arguments of the delivery callback.\<close>

datatype gov_frame = Frame (f_type: u8) (f_seq: u8) (f_payload: "u8 list")

record gov_decoder_stats =
  st_crc_err :: u32
  st_len_err :: u32
  st_unknown_type :: u32

record gov_decoder =
  d_cb :: bool
  d_state :: gov_decoder_state
  d_type :: u8
  d_seq :: u8
  d_len :: u16
  d_payload_idx :: u16
  d_hdr_idx :: u8
  d_crc_idx :: u8
  d_crc_calc :: u16
  d_crc_rx :: u16
  d_payload :: "u8 list"
  d_stats :: gov_decoder_stats

section \<open>The encoder\<close>

definition is_known_type :: "u8 \<Rightarrow> bool" where
  "is_known_type t \<longleftrightarrow>
     t = GOV_TYPE_DATA \<or> t = GOV_TYPE_ACK \<or> t = GOV_TYPE_NAK \<or> t = GOV_TYPE_CMD \<or>
     t = GOV_TYPE_HEARTBEAT \<or> t = GOV_TYPE_CFG_WRITE"

text \<open>\<^verbatim>\<open>memcpy\<close> of \<open>n\<close> bytes of \<open>src\<close> to offset \<open>off\<close> of \<open>dst\<close>.\<close>

definition memcpy_at :: "nat \<Rightarrow> u8 list \<Rightarrow> nat \<Rightarrow> u8 list \<Rightarrow> u8 list" where
  "memcpy_at off src n dst = take off dst @ take n src @ drop (off + n) dst"

text \<open>
  The result is the buffer at \<open>out\<close> after the call and the number of bytes written; \<open>out_cap\<close>
  is the capacity the caller states.
\<close>

definition gov_frame_encode ::
  "u8 \<Rightarrow> u8 \<Rightarrow> u8 list ptr \<Rightarrow> u16 \<Rightarrow> u8 list ptr \<Rightarrow> nat \<Rightarrow> u8 list ptr \<times> nat" where
  "gov_frame_encode type seq payload len out out_cap =
     (case out of None \<Rightarrow> (None, 0)
      | Some buf \<Rightarrow>
        if unat len > GOV_MAX_PAYLOAD then (Some buf, 0)
        else if payload = None \<and> len > 0 then (Some buf, 0)
        else
          let total = GOV_FRAME_HDR + unat len + GOV_FRAME_CRC in
          if out_cap < total then (Some buf, 0)
          else
            let b1 = buf[0 := GOV_SOF, 1 := GOV_VER, 2 := type, 3 := seq,
                         4 := ucast (drop_bit 8 len AND 0xFF), 5 := ucast (len AND 0xFF)];
                b2 = (if len > 0 then memcpy_at GOV_FRAME_HDR (the payload) (unat len) b1 else b1);
                crc = gov_crc16_ccitt GOV_CRC_INIT (take (5 + unat len) (drop 1 b2));
                b3 = b2[GOV_FRAME_HDR + unat len := ucast (drop_bit 8 crc AND 0xFF),
                        GOV_FRAME_HDR + unat len + 1 := ucast (crc AND 0xFF)]
            in (Some b3, total))"

section \<open>The decoder\<close>

definition gov_decoder_init :: "bool \<Rightarrow> gov_decoder" where
  "gov_decoder_init cb =
     \<lparr> d_cb = cb, d_state = GOV_DEC_HUNT_SOF, d_type = 0, d_seq = 0, d_len = 0,
       d_payload_idx = 0, d_hdr_idx = 0, d_crc_idx = 0, d_crc_calc = 0, d_crc_rx = 0,
       d_payload = replicate GOV_MAX_PAYLOAD 0,
       d_stats = \<lparr> st_crc_err = 0, st_len_err = 0, st_unknown_type = 0 \<rparr> \<rparr>"

definition start_frame :: "gov_decoder \<Rightarrow> gov_decoder" where
  "start_frame d = d\<lparr> d_crc_calc := GOV_CRC_INIT, d_hdr_idx := 0, d_payload_idx := 0,
     d_crc_idx := 0, d_crc_rx := 0, d_len := 0, d_state := GOV_DEC_VER \<rparr>"

definition crc_feed :: "gov_decoder \<Rightarrow> u8 \<Rightarrow> gov_decoder" where
  "crc_feed d b = d\<lparr> d_crc_calc := gov_crc16_ccitt (d_crc_calc d) [b] \<rparr>"

definition finish_frame :: "gov_decoder \<Rightarrow> gov_decoder \<times> gov_frame list" where
  "finish_frame d =
     (let (d', out) =
        (if d_crc_rx d \<noteq> d_crc_calc d then
           (d\<lparr> d_stats := (d_stats d)\<lparr> st_crc_err := st_crc_err (d_stats d) + 1 \<rparr> \<rparr>, [])
         else if \<not> is_known_type (d_type d) then
           (d\<lparr> d_stats := (d_stats d)\<lparr> st_unknown_type := st_unknown_type (d_stats d) + 1 \<rparr> \<rparr>, [])
         else if d_cb d then
           (d, [Frame (d_type d) (d_seq d) (take (unat (d_len d)) (d_payload d))])
         else (d, []))
      in (d'\<lparr> d_state := GOV_DEC_HUNT_SOF \<rparr>, out))"

text \<open>The header bytes \<^verbatim>\<open>TYPE\<close>, \<^verbatim>\<open>SEQ\<close> and \<^verbatim>\<open>LEN\<close>.\<close>

definition push_hdr :: "gov_decoder \<Rightarrow> u8 \<Rightarrow> gov_decoder" where
  "push_hdr d0 b =
     (let d1 = crc_feed d0 b;
          d2 = (if d_hdr_idx d1 = 0 then d1\<lparr> d_type := b \<rparr>
                else if d_hdr_idx d1 = 1 then d1\<lparr> d_seq := b \<rparr>
                else if d_hdr_idx d1 = 2 then d1\<lparr> d_len := push_bit 8 (ucast b) \<rparr>
                else d1\<lparr> d_len := d_len d1 OR ucast b \<rparr>);
          d3 = d2\<lparr> d_hdr_idx := d_hdr_idx d2 + 1 \<rparr>
      in if d_hdr_idx d3 \<ge> 4 then
           if unat (d_len d3) > GOV_MAX_PAYLOAD then
             d3\<lparr> d_stats := (d_stats d3)\<lparr> st_len_err := st_len_err (d_stats d3) + 1 \<rparr>,
                 d_state := GOV_DEC_HUNT_SOF \<rparr>
           else if d_len d3 = 0 then d3\<lparr> d_state := GOV_DEC_CRC \<rparr>
           else d3\<lparr> d_payload_idx := 0, d_state := GOV_DEC_PAYLOAD \<rparr>
         else d3)"

definition push_payload :: "gov_decoder \<Rightarrow> u8 \<Rightarrow> gov_decoder" where
  "push_payload d0 b =
     (let d1 = crc_feed d0 b;
          d2 = d1\<lparr> d_payload := (d_payload d1)[unat (d_payload_idx d1) := b] \<rparr>;
          d3 = d2\<lparr> d_payload_idx := d_payload_idx d2 + 1 \<rparr>
      in if d_payload_idx d3 \<ge> d_len d3 then d3\<lparr> d_state := GOV_DEC_CRC \<rparr> else d3)"

definition push_crc :: "gov_decoder \<Rightarrow> u8 \<Rightarrow> gov_decoder \<times> gov_frame list" where
  "push_crc d0 b =
     (let d1 = d0\<lparr> d_crc_rx := push_bit 8 (d_crc_rx d0) OR ucast b \<rparr>;
          d2 = d1\<lparr> d_crc_idx := d_crc_idx d1 + 1 \<rparr>
      in if d_crc_idx d2 \<ge> 2 then finish_frame d2 else (d2, []))"

definition gov_decoder_push :: "gov_decoder \<Rightarrow> u8 \<Rightarrow> gov_decoder \<times> gov_frame list" where
  "gov_decoder_push d b =
     (case d_state d of
        GOV_DEC_HUNT_SOF \<Rightarrow> (if b = GOV_SOF then start_frame d else d, [])
      | GOV_DEC_VER \<Rightarrow>
          (if b = GOV_VER then (crc_feed d b)\<lparr> d_state := GOV_DEC_HDR \<rparr>
           else if b = GOV_SOF then start_frame d
           else d\<lparr> d_state := GOV_DEC_HUNT_SOF \<rparr>, [])
      | GOV_DEC_HDR \<Rightarrow> (push_hdr d b, [])
      | GOV_DEC_PAYLOAD \<Rightarrow> (push_payload d b, [])
      | GOV_DEC_CRC \<Rightarrow> push_crc d b
      | GOV_DEC_OTHER \<Rightarrow> (d\<lparr> d_state := GOV_DEC_HUNT_SOF \<rparr>, []))"

definition gov_decoder_init_ptr :: "bool \<Rightarrow> gov_decoder ptr \<Rightarrow> gov_decoder ptr \<times> unit" where
  "gov_decoder_init_ptr cb = with_ptr () (\<lambda>_. (gov_decoder_init cb, ()))"

definition gov_decoder_push_ptr ::
  "u8 \<Rightarrow> gov_decoder ptr \<Rightarrow> gov_decoder ptr \<times> gov_frame list" where
  "gov_decoder_push_ptr b = with_ptr [] (\<lambda>d. gov_decoder_push d b)"

section \<open>Specification\<close>

text \<open>The bytes of a frame after the start byte, and the whole frame.\<close>

definition frame_body :: "gov_frame \<Rightarrow> u8 list" where
  "frame_body f =
     (let n = length (f_payload f) in
      [GOV_VER, f_type f, f_seq f, of_nat (n div 256), of_nat (n mod 256)] @ f_payload f)"

definition frame_bytes :: "gov_frame \<Rightarrow> u8 list" where
  "frame_bytes f =
     GOV_SOF # frame_body f @ crc_bytes (gov_crc16_ccitt GOV_CRC_INIT (frame_body f))"

definition frame_ok :: "gov_frame \<Rightarrow> bool" where
  "frame_ok f \<longleftrightarrow> length (f_payload f) \<le> GOV_MAX_PAYLOAD"

definition known :: "gov_frame \<Rightarrow> bool" where
  "known f \<longleftrightarrow> is_known_type (f_type f)"

text \<open>
  The specification of the decoder: hunting for a start byte, or collecting the bytes that
  followed one. Its outputs say what becomes of each candidate frame.
\<close>

datatype collect = Hunting | Collecting "u8 list"

datatype verdict = Good gov_frame | Bad_Crc | Bad_Len | Unknown_Type

definition declared_len :: "u8 list \<Rightarrow> nat" where
  "declared_len w = 256 * unat (w ! 3) + unat (w ! 4)"

definition judge :: "u8 list \<Rightarrow> verdict" where
  "judge w =
     (let n = declared_len w; body = take (5 + n) w in
      if drop (5 + n) w \<noteq> crc_bytes (gov_crc16_ccitt GOV_CRC_INIT body) then Bad_Crc
      else if \<not> is_known_type (w ! 1) then Unknown_Type
      else Good (Frame (w ! 1) (w ! 2) (drop 5 body)))"

fun spec_push :: "collect \<Rightarrow> u8 \<Rightarrow> collect \<times> verdict list" where
  "spec_push Hunting b = (if b = GOV_SOF then Collecting [] else Hunting, [])"
| "spec_push (Collecting w) b =
     (let v = w @ [b] in
      if w = [] then
        (if b = GOV_VER then Collecting v else if b = GOV_SOF then Collecting [] else Hunting, [])
      else if length v < 5 then (Collecting v, [])
      else if length v = 5 \<and> declared_len v > GOV_MAX_PAYLOAD then (Hunting, [Bad_Len])
      else if length v < 7 + declared_len v then (Collecting v, [])
      else (Hunting, [judge v]))"

definition delivered :: "verdict list \<Rightarrow> gov_frame list" where
  "delivered vs = concat (map (\<lambda>v. case v of Good f \<Rightarrow> [f] | _ \<Rightarrow> []) vs)"

text \<open>How a decoder represents the collected bytes.\<close>

definition header_rep :: "gov_decoder \<Rightarrow> u8 list \<Rightarrow> bool" where
  "header_rep d w \<longleftrightarrow>
     d_type d = w ! 1 \<and> d_seq d = w ! 2 \<and> unat (d_len d) = declared_len w \<and>
     declared_len w \<le> GOV_MAX_PAYLOAD"

fun represents :: "gov_decoder \<Rightarrow> collect \<Rightarrow> bool" where
  "represents d Hunting \<longleftrightarrow> d_state d = GOV_DEC_HUNT_SOF"
| "represents d (Collecting w) \<longleftrightarrow>
     (if w = [] then
        d_state d = GOV_DEC_VER \<and> d_crc_calc d = GOV_CRC_INIT \<and> d_hdr_idx d = 0 \<and>
        d_crc_idx d = 0 \<and> d_crc_rx d = 0
      else if length w < 5 then
        d_state d = GOV_DEC_HDR \<and> d_crc_calc d = gov_crc16_ccitt GOV_CRC_INIT w \<and>
        unat (d_hdr_idx d) = length w - 1 \<and> d_crc_idx d = 0 \<and> d_crc_rx d = 0 \<and>
        (1 < length w \<longrightarrow> d_type d = w ! 1) \<and> (2 < length w \<longrightarrow> d_seq d = w ! 2) \<and>
        (3 < length w \<longrightarrow> d_len d = push_bit 8 (ucast (w ! 3)))
      else if length w < 5 + declared_len w then
        d_state d = GOV_DEC_PAYLOAD \<and> d_crc_calc d = gov_crc16_ccitt GOV_CRC_INIT w \<and>
        header_rep d w \<and> unat (d_payload_idx d) = length w - 5 \<and>
        take (length w - 5) (d_payload d) = drop 5 w \<and> d_crc_idx d = 0 \<and> d_crc_rx d = 0
      else
        d_state d = GOV_DEC_CRC \<and> header_rep d w \<and>
        d_crc_calc d = gov_crc16_ccitt GOV_CRC_INIT (take (5 + declared_len w) w) \<and>
        take (declared_len w) (d_payload d) = take (declared_len w) (drop 5 w) \<and>
        (length w = 5 + declared_len w \<and> d_crc_idx d = 0 \<and> d_crc_rx d = 0 \<or>
         length w = 6 + declared_len w \<and> d_crc_idx d = 1 \<and> d_crc_rx d = ucast (last w)))"

text \<open>The counters of the decoder, as numbers of verdicts.\<close>

definition counts :: "verdict list \<Rightarrow> gov_decoder_stats \<Rightarrow> gov_decoder_stats" where
  "counts vs s = s\<lparr>
     st_crc_err := st_crc_err s + of_nat (count_list vs Bad_Crc),
     st_len_err := st_len_err s + of_nat (count_list vs Bad_Len),
     st_unknown_type := st_unknown_type s + of_nat (count_list vs Unknown_Type) \<rparr>"

text \<open>
  A byte stream carries a list of frames when they are disjoint segments of it, in order, with
  any bytes between them.
\<close>

inductive carries :: "u8 list \<Rightarrow> gov_frame list \<Rightarrow> bool" where
  carries_Nil: "carries [] []"
| carries_noise: "carries bs fs \<Longrightarrow> carries (bs @ g) fs"
| carries_frame: "carries bs fs \<Longrightarrow> frame_ok f \<Longrightarrow> known f \<Longrightarrow> carries (bs @ frame_bytes f) (fs @ [f])"

text \<open>How many more bytes the decoder may take before it hunts again.\<close>

fun pending :: "collect \<Rightarrow> nat" where
  "pending Hunting = 0"
| "pending (Collecting w) =
     (if length w < 5 then 71 - length w else 7 + declared_len w - length w)"

text \<open>What a collecting decoder has seen.\<close>

fun seen :: "collect \<Rightarrow> u8 list \<Rightarrow> bool" where
  "seen Hunting r = True"
| "seen (Collecting w) r \<longleftrightarrow>
     (\<exists>g. r = g @ GOV_SOF # w) \<and> (w \<noteq> [] \<longrightarrow> w ! 0 = GOV_VER) \<and>
     (5 \<le> length w \<longrightarrow> declared_len w \<le> GOV_MAX_PAYLOAD \<and> length w < 7 + declared_len w)"

text \<open>One push agrees with the specification.\<close>

definition refines_at :: "gov_decoder \<Rightarrow> collect \<Rightarrow> u8 \<Rightarrow> bool" where
  "refines_at d s b \<longleftrightarrow>
     (let (d', out) = gov_decoder_push d b; (s', vs) = spec_push s b in
      represents d' s' \<and> out = (if d_cb d then delivered vs else []) \<and>
      d_stats d' = counts vs (d_stats d) \<and> d_cb d' = d_cb d \<and>
      length (d_payload d') = length (d_payload d))"

text \<open>A decoder with a callback that is between frames, and the frames it delivers.\<close>

definition dec_ready :: "gov_decoder \<Rightarrow> bool" where
  "dec_ready d \<longleftrightarrow> d_state d = GOV_DEC_HUNT_SOF \<and> d_cb d \<and> length (d_payload d) = GOV_MAX_PAYLOAD"

definition deliverable :: "gov_frame \<Rightarrow> bool" where
  "deliverable f \<longleftrightarrow> frame_ok f \<and> known f"

section \<open>Big-endian fields\<close>

lemma byte_at:
  "(ucast (drop_bit n (x :: 'a::len word) AND 0xFF) :: u8) = of_nat (unat x div 2 ^ n)"
proof (rule bit_word_eqI)
  fix m assume m: "m < LENGTH(8)"
  have ff: "(0xFF :: 'a word) = mask 8" by (simp add: mask_eq_exp_minus_1)
  have "bit (of_nat (unat x div 2 ^ n) :: u8) m \<longleftrightarrow> bit (drop_bit n (unat x)) m"
    using m by (simp only: drop_bit_eq_div [symmetric] bit_of_nat_iff) simp
  with m show "bit (ucast (drop_bit n x AND 0xFF) :: u8) m \<longleftrightarrow> bit (of_nat (unat x div 2 ^ n) :: u8) m"
    unfolding ff by (auto simp: bit_ucast_iff bit_and_iff bit_drop_bit_eq bit_mask_iff bit_unsigned_iff
        dest: bit_imp_le_length)
qed

lemma low_byte: "(ucast ((x :: 'a::len word) AND 0xFF) :: u8) = of_nat (unat x)"
  using byte_at [of 0 x] by simp

lemma high_byte: "(ucast (drop_bit 8 (x :: 'a::len word) AND 0xFF) :: u8) = of_nat (unat x div 256)"
proof -
  have "(2 :: nat) ^ 8 = 256" by simp
  then show ?thesis by (simp only: byte_at)
qed

lemma of_nat_mod_256: "(of_nat (n mod 256) :: u8) = of_nat n"
  by (simp add: word_of_nat_eq_iff take_bit_eq_mod)

lemma unat_be16: "unat (push_bit 8 (ucast (a :: u8)) OR ucast (b :: u8) :: u16) = 256 * unat a + unat b"
proof -
  have "push_bit 8 (ucast a :: u16) OR ucast b = push_bit 8 (ucast a) + ucast b"
    by (rule disjunctive_add_eq_or [symmetric], rule bit_word_eqI)
      (auto simp: bit_simps dest: bit_imp_le_length)
  moreover have "unat (push_bit 8 (ucast a) :: u16) = 256 * unat a"
    using unsigned_less [where 'a = nat, of a]
    by (subst unsigned_push_bit_eq) (simp add: push_bit_eq_mult take_bit_eq_mod unsigned_ucast_eq)
  moreover have "256 * unat a + unat b < 65536"
    using unsigned_less [where 'a = nat, of a] unsigned_less [where 'a = nat, of b] by simp
  moreover have "unat (ucast b :: u16) = unat b"
    using unsigned_less [where 'a = nat, of b] by (simp add: unsigned_ucast_eq take_bit_eq_mod)
  ultimately show ?thesis by (simp add: unat_add_lem [THEN iffD1])
qed

section \<open>The encoder writes the frame\<close>

lemma length_frame_bytes [simp]: "length (frame_bytes f) = 8 + length (f_payload f)"
  by (simp add: frame_bytes_def frame_body_def Let_def)

lemma length_frame_body [simp]: "length (frame_body f) = 5 + length (f_payload f)"
  by (simp add: frame_body_def Let_def)

lemma memcpy_at_append:
  "length h = off \<Longrightarrow> memcpy_at off src n (h @ mid) = h @ take n src @ drop n mid"
  by (simp add: memcpy_at_def)

lemma split_buffer:
  assumes "8 + n \<le> length (buf :: 'a list)"
  obtains a b c d e f mid x y rest where "buf = a # b # c # d # e # f # mid @ x # y # rest"
    and "length mid = n" and "drop (8 + n) buf = rest"
proof -
  define mid where "mid = take n (drop 6 buf)"
  have two: "\<exists>x y. xs = [x, y]" if "length xs = 2" for xs :: "'a list"
    using that by (auto simp: numeral_eq_Suc length_Suc_conv)
  have six: "\<exists>a b c d e f. xs = [a, b, c, d, e, f]" if "length xs = 6" for xs :: "'a list"
    using that by (auto simp: numeral_eq_Suc length_Suc_conv)
  obtain a b c d e f where h: "take 6 buf = [a, b, c, d, e, f]"
    using six [of "take 6 buf"] assms by auto
  obtain x y where t: "take 2 (drop (6 + n) buf) = [x, y]"
    using two [of "take 2 (drop (6 + n) buf)"] assms by auto
  have "buf = take 6 buf @ mid @ take 2 (drop (6 + n) buf) @ drop 2 (drop (6 + n) buf)"
    unfolding mid_def append_take_drop_id
    by (metis append_take_drop_id drop_drop add.commute)
  with h t have "buf = a # b # c # d # e # f # mid @ x # y # drop (8 + n) buf" by simp
  moreover have "length mid = n" using assms by (simp add: mid_def)
  ultimately show thesis using that [of a b c d e f mid x y "drop (8 + n) buf"] by blast
qed

lemma update_pair:
  "length xs = k \<Longrightarrow> (xs @ x # y # rest)[k := u, k + 1 := v] = xs @ u # v # rest"
  by (simp add: list_update_append)

lemma encode_success:
  assumes "unat len \<le> GOV_MAX_PAYLOAD" and "payload = None \<longrightarrow> len = 0"
    and "unat len \<le> length (case payload of None \<Rightarrow> [] | Some p \<Rightarrow> p)"
    and "8 + unat len \<le> cap" and "cap \<le> length buf"
  shows "gov_frame_encode type seq payload len (Some buf) cap =
     (Some (frame_bytes (Frame type seq (take (unat len) (case payload of None \<Rightarrow> [] | Some p \<Rightarrow> p)))
        @ drop (8 + unat len) buf), 8 + unat len)"
proof -
  let ?n = "unat len" and ?p = "case payload of None \<Rightarrow> [] | Some p \<Rightarrow> p"
  have "8 + ?n \<le> length buf" using assms(4,5) by simp
  then obtain a b c d e f mid x y rest
    where buf: "buf = a # b # c # d # e # f # mid @ x # y # rest"
      and mid: "length mid = ?n" and rest: "drop (8 + ?n) buf = rest"
    by (rule split_buffer)
  let ?h = "[GOV_SOF, GOV_VER, type, seq, ucast (drop_bit 8 len AND 0xFF), ucast (len AND 0xFF)]"
  have b1: "buf[0 := GOV_SOF, 1 := GOV_VER, 2 := type, 3 := seq,
      4 := ucast (drop_bit 8 len AND 0xFF), 5 := ucast (len AND 0xFF)] = ?h @ mid @ x # y # rest"
    unfolding buf by simp
  have b2: "(if len > 0 then memcpy_at GOV_FRAME_HDR (the payload) ?n (?h @ mid @ x # y # rest)
      else ?h @ mid @ x # y # rest) = ?h @ take ?n ?p @ x # y # rest"
  proof (cases "len = 0")
    case True
    with mid show ?thesis by simp
  next
    case False
    with assms(2) obtain p where "payload = Some p" by auto
    moreover have "memcpy_at 6 p ?n (?h @ mid @ x # y # rest) = ?h @ take ?n p @ x # y # rest"
      by (subst memcpy_at_append) (simp_all add: mid)
    ultimately show ?thesis using False
      by (simp only: GOV_FRAME_HDR_def word_neq_0_conv [symmetric] option.sel option.case
          not_False_eq_True if_True)
  qed
  let ?f = "Frame type seq (take ?n ?p)"
  have body: "tl ?h @ take ?n ?p = frame_body ?f"
    using assms(3) unfolding frame_body_def Let_def high_byte unfolding low_byte
    by (simp add: of_nat_mod_256 min_def)
  have crc: "take (5 + ?n) (drop 1 (?h @ take ?n ?p @ x # y # rest)) = frame_body ?f"
  proof -
    have "drop 1 (?h @ take ?n ?p @ x # y # rest) = frame_body ?f @ x # y # rest"
      unfolding body [symmetric] by simp
    moreover have "length (frame_body ?f) = 5 + ?n" using assms(3) by simp
    ultimately show ?thesis by (metis append_eq_conv_conj)
  qed
  have b3: "(?h @ take ?n ?p @ x # y # rest)[GOV_FRAME_HDR + ?n := u, GOV_FRAME_HDR + ?n + 1 := v] =
      GOV_SOF # frame_body ?f @ [u, v] @ rest" for u v
    unfolding body [symmetric] GOV_FRAME_HDR_def
    using update_pair [of "?h @ take ?n ?p" "6 + ?n" x y rest u v] assms(3) by simp
  have guards: "\<not> unat len > GOV_MAX_PAYLOAD" "\<not> (payload = None \<and> len > 0)"
      "\<not> cap < GOV_FRAME_HDR + ?n + GOV_FRAME_CRC"
    using assms by (auto simp: GOV_FRAME_HDR_def GOV_FRAME_CRC_def)
  show ?thesis
    unfolding gov_frame_encode_def option.case Let_def if_not_P [OF guards(1)] if_not_P [OF guards(2)]
      if_not_P [OF guards(3)] b1 b2 crc b3 rest
    by (simp add: frame_bytes_def crc_bytes_def GOV_FRAME_HDR_def GOV_FRAME_CRC_def)
qed

section \<open>The decoder refines the specification\<close>

lemma delivered_simps [simp]:
  "delivered [] = []" "delivered (Good f # vs) = f # delivered vs"
  "delivered (Bad_Crc # vs) = delivered vs" "delivered (Bad_Len # vs) = delivered vs"
  "delivered (Unknown_Type # vs) = delivered vs"
  by (simp_all add: delivered_def)

lemma delivered_append [simp]: "delivered (xs @ ys) = delivered xs @ delivered ys"
  by (simp add: delivered_def)

lemma counts_Nil [simp]: "counts [] s = s"
  by (simp add: counts_def)

lemma counts_append: "counts (xs @ ys) s = counts ys (counts xs s)"
  by (simp add: counts_def add.assoc)

lemma declared_len_append [simp]: "5 \<le> length w \<Longrightarrow> declared_len (w @ v) = declared_len w"
  by (simp add: declared_len_def nth_append)

lemma step_hunt: "represents d Hunting \<Longrightarrow> refines_at d Hunting b"
  by (simp add: refines_at_def gov_decoder_push_def start_frame_def)

lemma step_ver: "represents d (Collecting []) \<Longrightarrow> refines_at d (Collecting []) b"
  by (auto simp: refines_at_def gov_decoder_push_def start_frame_def crc_feed_def)

lemma word_nat_plus_1:
  fixes x :: "'a::len word"
  assumes "unat x = n" and "Suc n < 2 ^ LENGTH('a)"
  shows "unat (x + 1) = Suc n"
  using assms by (simp add: unat_word_ariths(1))

lemma header_complete:
  assumes "w = [v, ty, sq, hi]" and "d_type d = ty" and "d_seq d = sq"
    and "d_len d = push_bit 8 (ucast hi)"
  shows "unat (d_len d OR ucast b) = declared_len (w @ [b])"
  using assms unat_be16 [of hi b] by (simp add: declared_len_def)

lemma step_header:
  assumes "represents d (Collecting w)" and "w \<noteq> []" and "length w < 5"
  shows "refines_at d (Collecting w) b"
proof -
  have crc: "gov_crc16_ccitt (gov_crc16_ccitt GOV_CRC_INIT w) [b] = gov_crc16_ccitt GOV_CRC_INIT (w @ [b])"
    by (simp only: crc.ck_append)
  consider "length w = 1" | "length w = 2" | "length w = 3" | "length w = 4"
    using assms(2,3) by (cases "length w") (auto simp: less_Suc_eq numeral_eq_Suc)
  then show ?thesis
  proof cases
    case 1
    then show ?thesis using assms crc by (auto simp: refines_at_def gov_decoder_push_def push_hdr_def crc_feed_def
          Let_def nth_append unat_eq_0 word_le_nat_alt)
  next
    case 2
    then have "d_hdr_idx d = 1" using assms by (simp add: word_unat_eq_iff)
    with 2 show ?thesis using assms crc by (auto simp: refines_at_def gov_decoder_push_def push_hdr_def crc_feed_def
          Let_def nth_append)
  next
    case 3
    then have "d_hdr_idx d = 2" using assms by (simp add: word_unat_eq_iff)
    with 3 show ?thesis using assms crc by (auto simp: refines_at_def gov_decoder_push_def push_hdr_def crc_feed_def
          Let_def nth_append)
  next
    case 4
    then have h: "d_hdr_idx d = 3" using assms by (simp add: word_unat_eq_iff)
    obtain v ty sq hi where w: "w = [v, ty, sq, hi]"
      using 4 by (auto simp: numeral_eq_Suc length_Suc_conv)
    have len: "unat (push_bit 8 (ucast hi) OR ucast b :: u16) = declared_len (w @ [b])"
      using unat_be16 [of hi b] w by (simp add: declared_len_def)
    then have len0: "push_bit 8 (ucast hi) OR ucast b = (0 :: u16) \<longleftrightarrow> declared_len (w @ [b]) = 0"
      by (metis unat_eq_0)
    show ?thesis using assms crc h w len len0
      by (auto simp: refines_at_def gov_decoder_push_def push_hdr_def crc_feed_def
          Let_def header_rep_def counts_def unat_eq_0)
  qed
qed

lemma step_payload:
  assumes "represents d (Collecting w)" and "5 \<le> length w" and "length w < 5 + declared_len w"
    and "length (d_payload d) = GOV_MAX_PAYLOAD"
  shows "refines_at d (Collecting w) b"
proof -
  have w: "w \<noteq> []" using assms(2) by auto
  have crc: "gov_crc16_ccitt (gov_crc16_ccitt GOV_CRC_INIT w) [b] = gov_crc16_ccitt GOV_CRC_INIT (w @ [b])"
    by (simp only: crc.ck_append)
  have st: "d_state d = GOV_DEC_PAYLOAD" "d_crc_calc d = gov_crc16_ccitt GOV_CRC_INIT w"
      "header_rep d w" "unat (d_payload_idx d) = length w - 5"
      "take (length w - 5) (d_payload d) = drop 5 w" "d_crc_idx d = 0" "d_crc_rx d = 0"
    using assms(1-3) w by auto
  have len: "unat (d_len d) = declared_len w" "declared_len w \<le> 64"
    using st(3) by (simp_all add: header_rep_def GOV_MAX_PAYLOAD_def)
  have idx: "unat (d_payload_idx d + 1) = length w - 4"
    using st(4) len(2) assms(2,3) by (subst word_nat_plus_1) auto
  have done': "d_len d \<le> d_payload_idx d + 1 \<longleftrightarrow> length (w @ [b]) = 5 + declared_len w"
    using assms(2,3) by (auto simp: word_le_nat_alt len idx)
  have pay: "take (length w - 4) ((d_payload d)[length w - 5 := b]) = drop 5 (w @ [b])"
  proof -
    have "length w - 5 < length (d_payload d)"
      using assms(2-4) len(2) by (simp add: GOV_MAX_PAYLOAD_def)
    moreover have "length w - 4 = Suc (length w - 5)" using assms(2) by simp
    ultimately show ?thesis using st(5) assms(2) by (simp add: take_Suc_conv_app_nth)
  qed
  then have pay': "take (declared_len w) ((d_payload d)[length w - 5 := b]) = drop 5 w @ [b]"
    if "length w - 4 = declared_len w"
    using that assms(2) by simp
  show ?thesis
    using assms(2,3) w st idx done' crc pay pay' len
    by (auto simp: refines_at_def gov_decoder_push_def push_payload_def crc_feed_def Let_def
        header_rep_def nth_append)
qed

lemma be16_split:
  "(b :: nat) < 256 \<Longrightarrow> 256 * a + b = c \<longleftrightarrow> a = c div 256 \<and> b = c mod 256"
  by auto

lemma crc_rx_bytes:
  "push_bit 8 (ucast a) OR ucast b = (c :: u16) \<longleftrightarrow> [a, b] = crc_bytes c"
proof -
  have b: "unat b < 256" using unsigned_less [where 'a = nat, of b] by simp
  have c: "unat c div 256 < 256" using unsigned_less [where 'a = nat, of c] by (simp add: less_mult_imp_div_less)
  have "push_bit 8 (ucast a) OR ucast b = c \<longleftrightarrow> 256 * unat a + unat b = unat c"
    by (simp add: word_unat_eq_iff unat_be16)
  also have "\<dots> \<longleftrightarrow> unat a = unat c div 256 \<and> unat b = unat c mod 256"
    using b by (rule be16_split)
  also have "\<dots> \<longleftrightarrow> [a, b] = crc_bytes c"
    using c unfolding crc_bytes_def high_byte unfolding low_byte
    by (simp add: word_unat_eq_iff unsigned_of_nat unsigned_ucast_eq take_bit_eq_mod)
  finally show ?thesis .
qed

lemma step_crc:
  assumes "represents d (Collecting w)" and "5 \<le> length w" and "5 + declared_len w \<le> length w"
  shows "refines_at d (Collecting w) b"
proof -
  have w: "w \<noteq> []" using assms(2) by auto
  have st: "d_state d = GOV_DEC_CRC" "header_rep d w"
      "d_crc_calc d = gov_crc16_ccitt GOV_CRC_INIT (take (5 + declared_len w) w)"
      "take (declared_len w) (d_payload d) = take (declared_len w) (drop 5 w)"
    using assms w by auto
  have ty: "d_type d = w ! 1" "d_seq d = w ! 2" "unat (d_len d) = declared_len w"
    using st(2) by (simp_all add: header_rep_def)
  consider "length w = 5 + declared_len w" "d_crc_idx d = 0" "d_crc_rx d = 0"
    | "length w = 6 + declared_len w" "d_crc_idx d = 1" "d_crc_rx d = ucast (last w)"
    using assms w by auto
  then show ?thesis
  proof cases
    case 1
    with w st assms(2) show ?thesis
      by (auto simp: refines_at_def gov_decoder_push_def push_crc_def Let_def header_rep_def nth_append
          word_le_nat_alt)
  next
    case 2
    have "drop (length (butlast w)) w = [last w]"
      using w by (metis append_butlast_last_id append_eq_conv_conj)
    then have "drop (5 + declared_len w) w = [last w]" using 2(1) by simp
    then have tail: "drop (5 + declared_len w) (w @ [b]) = [last w, b]" using 2(1) by simp
    have v: "(w @ [b]) ! 1 = w ! 1" "(w @ [b]) ! 2 = w ! 2" using assms(2) by (simp_all add: nth_append)
    have body: "take (5 + declared_len w) (w @ [b]) = take (5 + declared_len w) w"
      using 2(1) by simp
    have j: "judge (w @ [b]) =
        (if d_crc_calc d \<noteq> push_bit 8 (d_crc_rx d) OR ucast b then Bad_Crc
         else if \<not> is_known_type (d_type d) then Unknown_Type
         else Good (Frame (d_type d) (d_seq d) (take (unat (d_len d)) (d_payload d))))"
      unfolding judge_def Let_def declared_len_append [OF assms(2)] tail body v
      using crc_rx_bytes [of "last w" b "d_crc_calc d"] 2(3) st(3,4) ty
      by (auto simp: drop_take)
    have sp: "spec_push (Collecting w) b = (Hunting, [judge (w @ [b])])"
      using w 2(1) assms(2) by (simp add: Let_def)
    show ?thesis
      using w st 2 unfolding refines_at_def sp j
      by (auto simp: gov_decoder_push_def push_crc_def finish_frame_def Let_def counts_def)
  qed
qed

lemma decoder_refines:
  assumes "represents d s" and "length (d_payload d) = GOV_MAX_PAYLOAD"
  shows "refines_at d s b"
proof (cases s)
  case Hunting
  with assms step_hunt show ?thesis by simp
next
  case (Collecting w)
  with assms step_ver step_header step_payload step_crc show ?thesis
    by (metis not_less)
qed

lemma refinesD:
  assumes "refines_at d s b"
  shows "represents (fst (gov_decoder_push d b)) (fst (spec_push s b))"
    and "snd (gov_decoder_push d b) = (if d_cb d then delivered (snd (spec_push s b)) else [])"
    and "d_stats (fst (gov_decoder_push d b)) = counts (snd (spec_push s b)) (d_stats d)"
    and "d_cb (fst (gov_decoder_push d b)) = d_cb d"
    and "length (d_payload (fst (gov_decoder_push d b))) = length (d_payload d)"
  using assms by (simp_all add: refines_at_def case_prod_beta)

lemma run_refines:
  assumes "represents d s" and "length (d_payload d) = GOV_MAX_PAYLOAD"
  shows "represents (fst (run gov_decoder_push d bs)) (fst (run spec_push s bs)) \<and>
    snd (run gov_decoder_push d bs) = (if d_cb d then delivered (snd (run spec_push s bs)) else []) \<and>
    d_stats (fst (run gov_decoder_push d bs)) = counts (snd (run spec_push s bs)) (d_stats d) \<and>
    d_cb (fst (run gov_decoder_push d bs)) = d_cb d \<and>
    length (d_payload (fst (run gov_decoder_push d bs))) = GOV_MAX_PAYLOAD"
  using assms
proof (induction bs arbitrary: d s)
  case Nil
  then show ?case by simp
next
  case (Cons b bs)
  note r = refinesD [OF decoder_refines [OF Cons.prems, of b]]
  from Cons.IH [OF r(1)] r Cons.prems(2) show ?case by (auto simp: counts_append)
qed

lemma init_represents [simp]:
  "represents (gov_decoder_init cb) Hunting"
  "d_state (gov_decoder_init cb) = GOV_DEC_HUNT_SOF"
  "length (d_payload (gov_decoder_init cb)) = GOV_MAX_PAYLOAD"
  "d_cb (gov_decoder_init cb) = cb"
  by (simp_all add: gov_decoder_init_def)

section \<open>A frame is decoded as it was encoded\<close>

lemma declared_len_body:
  assumes "frame_ok f"
  shows "declared_len (frame_body f @ c) = length (f_payload f)"
proof -
  have "unat (of_nat (length (f_payload f) mod 256) :: u8) = length (f_payload f) mod 256"
    by (simp add: unsigned_of_nat take_bit_eq_mod)
  moreover have "length (f_payload f) div 256 = 0"
    using assms by (simp add: frame_ok_def GOV_MAX_PAYLOAD_def)
  ultimately show ?thesis using assms
    by (simp add: declared_len_def frame_body_def Let_def frame_ok_def GOV_MAX_PAYLOAD_def)
qed

lemma judge_frame:
  assumes "frame_ok f" and "length c = 2"
  shows "judge (frame_body f @ c) =
    (if c \<noteq> crc_bytes (gov_crc16_ccitt GOV_CRC_INIT (frame_body f)) then Bad_Crc
     else if known f then Good f else Unknown_Type)"
proof -
  have f: "(frame_body f @ z) ! 1 = f_type f" "(frame_body f @ z) ! 2 = f_seq f"
      "drop 5 (frame_body f) = f_payload f" for z
    by (simp_all add: frame_body_def Let_def)
  show ?thesis
    unfolding judge_def Let_def declared_len_body [OF assms(1)] f known_def by (simp add: f)
qed

lemma collect_prefix:
  assumes "w \<noteq> []" and "full = w @ xs @ ys" and "ys \<noteq> []"
    and "declared_len full \<le> GOV_MAX_PAYLOAD" and "length full = 7 + declared_len full"
  shows "run spec_push (Collecting w) xs = (Collecting (w @ xs), [])"
  using assms(1,2)
proof (induction xs arbitrary: w)
  case Nil
  then show ?case by simp
next
  case (Cons x xs)
  have len: "declared_len full = declared_len (w @ [x])" if "5 \<le> length (w @ [x])"
    using declared_len_append [OF that, of "xs @ ys"] Cons.prems(2) by simp
  have "0 < length ys" using assms(3) by simp
  then have "5 \<le> length (w @ [x]) \<Longrightarrow> length (w @ [x]) < 7 + declared_len (w @ [x])"
    using len assms(5) Cons.prems(2) by (simp del: length_greater_0_conv)
  then have "spec_push (Collecting w) x = (Collecting (w @ [x]), [])"
    using Cons.prems(1) len assms(4) by (auto simp: Let_def)
  with Cons.IH [of "w @ [x]"] Cons.prems show ?case by (simp add: run_Cons)
qed

text \<open>A candidate frame of the right length is judged as a whole, and the decoder hunts again.\<close>

lemma collect_full:
  assumes "full ! 0 = GOV_VER" and "declared_len full \<le> GOV_MAX_PAYLOAD"
    and "length full = 7 + declared_len full"
  shows "run spec_push Hunting (GOV_SOF # full) = (Hunting, [judge full])"
proof -
  obtain x where full: "full = GOV_VER # butlast (tl full) @ [x]"
    using assms(1,3) by (cases full; cases "tl full" rule: rev_cases) auto
  let ?m = "butlast (tl full)"
  have pre: "run spec_push (Collecting [GOV_VER]) ?m = (Collecting (GOV_VER # ?m), [])"
    using collect_prefix [of "[GOV_VER]" full ?m "[x]"] assms(2,3) full by simp
  have last: "spec_push (Collecting (GOV_VER # ?m)) x = (Hunting, [judge full])"
    using assms(2,3) full by (auto simp: Let_def)
  have "run spec_push (Collecting [GOV_VER]) (?m @ [x]) = (Hunting, [judge full])"
    unfolding run_append pre using last by simp
  then show ?thesis by (subst full) (simp add: run_Cons GOV_VER_def GOV_SOF_def)
qed

lemma spec_frame:
  assumes "frame_ok f"
  shows "run spec_push Hunting (frame_bytes f) = (Hunting, [if known f then Good f else Unknown_Type])"
proof -
  let ?c = "crc_bytes (gov_crc16_ccitt GOV_CRC_INIT (frame_body f))"
  have "(frame_body f @ ?c) ! 0 = GOV_VER" by (simp add: frame_body_def Let_def)
  then show ?thesis
    using collect_full [of "frame_body f @ ?c"] declared_len_body [OF assms, of ?c] assms
    by (simp add: frame_bytes_def frame_ok_def judge_frame)
qed

section \<open>Every delivery was on the wire\<close>

lemma verdict_body:
  assumes "v ! 0 = GOV_VER" and "declared_len v \<le> GOV_MAX_PAYLOAD" and "length v = 7 + declared_len v"
  obtains f c where "v = frame_body f @ c" and "frame_ok f" and "length c = 2"
proof -
  let ?n = "declared_len v"
  let ?f = "Frame (v ! 1) (v ! 2) (take ?n (drop 5 v))"
  have n: "length (f_payload ?f) = ?n" using assms(3) by simp
  have b: "unat (v ! 4) < 256" using unsigned_less [where 'a = nat, of "v ! 4"] by simp
  have hi: "unat (v ! 3) = ?n div 256" and lo: "unat (v ! 4) = ?n mod 256"
    using be16_split [OF b, of "unat (v ! 3)" ?n] by (simp_all add: declared_len_def)
  have "(of_nat (?n div 256) :: u8) = v ! 3" "(of_nat (?n mod 256) :: u8) = v ! 4"
    unfolding hi [symmetric] lo [symmetric] by simp_all
  moreover have "take 5 v = [v ! 0, v ! 1, v ! 2, v ! 3, v ! 4]"
    using assms(3) by (intro nth_equalityI) (auto simp: less_Suc_eq numeral_eq_Suc)
  ultimately have "frame_body ?f = take 5 v @ take ?n (drop 5 v)"
    unfolding frame_body_def Let_def n using assms(1) by simp
  then have "v = frame_body ?f @ drop (5 + ?n) v"
    by (metis append_assoc append_take_drop_id drop_drop add.commute)
  moreover have "frame_ok ?f" using assms(2) n by (simp add: frame_ok_def)
  moreover have "length (drop (5 + ?n) v) = 2" using assms(3) by simp
  ultimately show thesis using that by blast
qed

lemma judge_Good:
  assumes "v ! 0 = GOV_VER" and "declared_len v \<le> GOV_MAX_PAYLOAD" and "length v = 7 + declared_len v"
    and "judge v = Good f"
  shows "GOV_SOF # v = frame_bytes f" and "frame_ok f" and "known f"
proof -
  obtain f' c where v: "v = frame_body f' @ c" "frame_ok f'" "length c = 2"
    using assms(1-3) by (rule verdict_body)
  with judge_frame [OF v(2,3)] assms(4) have "f' = f" "known f"
      "c = crc_bytes (gov_crc16_ccitt GOV_CRC_INIT (frame_body f'))"
    by (auto split: if_splits)
  with v show "GOV_SOF # v = frame_bytes f" and "frame_ok f" and "known f"
    by (simp_all add: frame_bytes_def)
qed

lemma spec_step_seen:
  assumes "seen s r" and "spec_push s b = (s', vs)"
  shows "seen s' (r @ [b]) \<and> (delivered vs = [] \<or>
    (\<exists>g f. delivered vs = [f] \<and> s' = Hunting \<and> r @ [b] = g @ frame_bytes f \<and> frame_ok f \<and> known f))"
proof (cases s)
  case Hunting
  with assms show ?thesis by (auto split: if_splits)
next
  case (Collecting w)
  let ?v = "w @ [b]"
  obtain g where g: "r = g @ GOV_SOF # w" using assms(1) Collecting by auto
  have ver: "?v ! 0 = GOV_VER" if "w \<noteq> []"
    using that assms(1) Collecting by (simp add: nth_append)
  have old: "declared_len w \<le> GOV_MAX_PAYLOAD \<and> length w < 7 + declared_len w" if "5 \<le> length w"
    using that assms(1) Collecting by simp
  have len: "declared_len ?v \<le> GOV_MAX_PAYLOAD"
    if "5 \<le> length ?v" "\<not> (length ?v = 5 \<and> GOV_MAX_PAYLOAD < declared_len ?v)"
    using that old by (cases "length ?v = 5") auto
  show ?thesis
  proof (cases "w \<noteq> [] \<and> 5 \<le> length ?v \<and> declared_len ?v \<le> GOV_MAX_PAYLOAD
      \<and> 7 + declared_len ?v \<le> length ?v")
    case True
    then have full: "length ?v = 7 + declared_len ?v"
      using old by (cases "length w < 5") auto
    have out: "(s', vs) = (Hunting, [judge ?v])"
      using assms(2) Collecting True by (cases "5 \<le> length w") (auto simp: Let_def)
    show ?thesis
    proof (cases "judge ?v")
      case (Good f)
      with judge_Good [of ?v f] True ver full out g show ?thesis by auto
    qed (use out in auto)
  next
    case False
    then show ?thesis
      using assms(2) Collecting g ver len by (auto simp: Let_def not_le split: if_splits)
  qed
qed

lemma run_carries:
  "\<exists>pre r. bs = pre @ r \<and> carries pre (delivered (snd (run spec_push Hunting bs))) \<and>
     seen (fst (run spec_push Hunting bs)) r"
proof (induction bs rule: rev_induct)
  case Nil
  then show ?case by (simp add: carries_Nil)
next
  case (snoc b bs)
  let ?s = "fst (run spec_push Hunting bs)"
  obtain s' vs where st: "spec_push ?s b = (s', vs)" by fastforce
  have sn: "fst (run spec_push Hunting (bs @ [b])) = s'"
      "snd (run spec_push Hunting (bs @ [b])) = snd (run spec_push Hunting bs) @ vs"
    by (simp_all add: run_append st)
  from snoc obtain pre r where ih: "bs = pre @ r"
      "carries pre (delivered (snd (run spec_push Hunting bs)))" "seen ?s r" by blast
  from spec_step_seen [OF ih(3) st] consider "seen s' (r @ [b])" "delivered vs = []"
    | g f where "delivered vs = [f]" "s' = Hunting" "r @ [b] = g @ frame_bytes f" "frame_ok f" "known f"
    by blast
  then show ?case
  proof cases
    case 1
    with ih sn show ?thesis by (intro exI [of _ pre] exI [of _ "r @ [b]"]) simp
  next
    case 2
    have "carries ((pre @ g) @ frame_bytes f) (delivered (snd (run spec_push Hunting bs)) @ [f])"
      using ih(2) 2 by (intro carries_frame carries_noise)
    with ih sn 2 show ?thesis by (intro exI [of _ "bs @ [b]"] exI [of _ "[]"]) simp
  qed
qed

section \<open>Resynchronisation\<close>

lemma pending_step:
  assumes "b \<noteq> GOV_SOF"
  shows "pending (fst (spec_push s b)) \<le> pending s - 1"
proof (cases s)
  case Hunting
  with assms show ?thesis by simp
next
  case (Collecting w)
  with assms show ?thesis
    by (cases "5 \<le> length w") (auto simp: Let_def GOV_MAX_PAYLOAD_def)
qed

lemma pending_run:
  "GOV_SOF \<notin> set zs \<Longrightarrow> pending (fst (run spec_push s zs)) \<le> pending s - length zs"
proof (induction zs arbitrary: s)
  case Nil
  then show ?case by simp
next
  case (Cons z zs)
  then have "pending (fst (spec_push s z)) \<le> pending s - 1" by (intro pending_step) auto
  moreover have "pending (fst (run spec_push (fst (spec_push s z)) zs))
      \<le> pending (fst (spec_push s z)) - length zs"
    using Cons by simp
  ultimately show ?case by simp
qed

lemma pending_bound:
  assumes "seen s r"
  shows "pending s \<le> 71"
proof (cases s)
  case (Collecting w)
  with assms show ?thesis by (auto simp: GOV_MAX_PAYLOAD_def)
qed simp

lemma hunts_again:
  assumes "GOV_SOF \<notin> set zs" and "71 \<le> length zs"
  shows "fst (run spec_push Hunting (bs @ zs)) = Hunting"
proof -
  let ?s = "fst (run spec_push Hunting bs)"
  obtain r where "seen ?s r" using run_carries [of bs] by blast
  then have "pending (fst (run spec_push ?s zs)) = 0"
    using pending_run [OF assms(1), of ?s] pending_bound assms(2) by fastforce
  moreover obtain r' where "seen (fst (run spec_push Hunting (bs @ zs))) r'"
    using run_carries [of "bs @ zs"] by blast
  ultimately show ?thesis
    by (cases "fst (run spec_push Hunting (bs @ zs))") (auto simp: fst_run_append split: if_splits)
qed

section \<open>The link as an interface\<close>

text \<open>
  What a user of the link relies on: a receiver that is ready for a frame delivers a valid frame
  sent to it, and only that, and is ready again.
\<close>

locale framing =
  fixes enc :: "'f \<Rightarrow> u8 list"
    and feed :: "'d \<Rightarrow> u8 \<Rightarrow> 'd \<times> 'f list"
    and ready :: "'d \<Rightarrow> bool"
    and valid :: "'f \<Rightarrow> bool"
  assumes feed_enc: "ready d \<Longrightarrow> valid f \<Longrightarrow>
    ready (fst (run feed d (enc f))) \<and> snd (run feed d (enc f)) = [f]"
begin

lemma feed_stream:
  assumes "ready d" and "\<forall>f \<in> set fs. valid f"
  shows "ready (fst (run feed d (concat (map enc fs)))) \<and> snd (run feed d (concat (map enc fs))) = fs"
  using assms
proof (induction fs arbitrary: d)
  case Nil
  then show ?case by simp
next
  case (Cons f fs)
  then have "ready (fst (run feed d (enc f)))" "snd (run feed d (enc f)) = [f]"
    by (simp_all add: feed_enc)
  with Cons show ?case by (simp add: run_append)
qed

end

interpretation link: framing frame_bytes gov_decoder_push dec_ready deliverable
proof
  fix d f assume d: "dec_ready d" and f: "deliverable f"
  then show "dec_ready (fst (run gov_decoder_push d (frame_bytes f))) \<and>
      snd (run gov_decoder_push d (frame_bytes f)) = [f]"
    using run_refines [of d Hunting "frame_bytes f"] spec_frame [of f]
    by (simp add: dec_ready_def deliverable_def)
qed

section \<open>Corrupted frames\<close>

lemma crc_bytes_surj:
  assumes "length xs = 2"
  obtains c where "xs = crc_bytes c"
proof -
  obtain a b where "xs = [a, b]" using assms by (auto simp: numeral_eq_Suc length_Suc_conv)
  with crc_rx_bytes [of a b] that show thesis by blast
qed

lemma corrupted_judged:
  assumes f: "frame_ok f" and c: "c = gov_crc16_ccitt GOV_CRC_INIT (frame_body f)"
    and v: "length v = length (frame_body f) + 2" "v ! 0 = GOV_VER"
      "declared_len v = length (f_payload f)"
    and e: "e = flips (frame_body f @ crc_bytes c) v"
      "odd_weight e \<or> short_burst e \<or> double_bit 576 e"
  shows "judge v = Bad_Crc"
proof -
  have "declared_len v \<le> GOV_MAX_PAYLOAD" "length v = 7 + declared_len v"
    using f v by (simp_all add: frame_ok_def)
  then obtain f' z where f': "v = frame_body f' @ z" "frame_ok f'" "length z = 2"
    using verdict_body v(2) by blast
  obtain c' where z: "z = crc_bytes c'" using crc_bytes_surj [OF f'(3)] .
  have "length (frame_body f') = length (frame_body f)" using v(1) f'(1,3) by simp
  then have "c' \<noteq> gov_crc16_ccitt GOV_CRC_INIT (frame_body f')"
    using error_detected [OF _ e(2), of "frame_body f'" "frame_body f" GOV_CRC_INIT c'] e(1) c f'(1) z
    by simp
  moreover have "crc_bytes c' = crc_bytes k \<Longrightarrow> c' = k" for k
    by (metis pack_crc_bytes)
  ultimately show ?thesis using judge_frame [OF f'(2,3)] f'(1) z by auto
qed

section \<open>Properties\<close>

text \<open>
  C13. Refinement of the decoder: from its initial state and for every byte stream, the decoder
  delivers what the specification finds in the stream (nothing when no callback is set), and its
  three counters are the numbers of frames the specification rejects for their CRC, length and
  type, modulo the width of the counters.
\<close>

theorem decoder_refines_spec:
  "snd (run gov_decoder_push (gov_decoder_init cb) bs) =
     (if cb then delivered (snd (run spec_push Hunting bs)) else []) \<and>
   d_stats (fst (run gov_decoder_push (gov_decoder_init cb) bs)) =
     counts (snd (run spec_push Hunting bs)) (d_stats (gov_decoder_init cb)) \<and>
   represents (fst (run gov_decoder_push (gov_decoder_init cb) bs)) (fst (run spec_push Hunting bs))"
  using run_refines [of "gov_decoder_init cb" Hunting bs] by simp

text \<open>
  C14. Round trip: when a list of frames is encoded into a buffer each, by calls that do not fail,
  and the bytes written are sent one after the other, a decoder between frames delivers exactly
  these frames, in order, and is between frames again.
\<close>

theorem encode_decode_roundtrip:
  assumes "dec_ready d" and "\<forall>f \<in> set fs. deliverable f"
    and "length bufs = length fs"
    and "\<forall>i < length fs. GOV_FRAME_MAX \<le> length (bufs ! i) \<and>
      gov_frame_encode (f_type (fs ! i)) (f_seq (fs ! i)) (Some (f_payload (fs ! i)))
        (of_nat (length (f_payload (fs ! i)))) (Some (bufs ! i)) (length (bufs ! i)) =
      (Some (outs ! i), ns ! i)"
  defines "wire \<equiv> concat (map (\<lambda>i. take (ns ! i) (outs ! i)) [0..<length fs])"
  shows "dec_ready (fst (run gov_decoder_push d wire)) \<and> snd (run gov_decoder_push d wire) = fs"
proof -
  have "take (ns ! i) (outs ! i) = frame_bytes (fs ! i)" if i: "i < length fs" for i
  proof -
    have n: "length (f_payload (fs ! i)) \<le> 64"
      using assms(2) i by (simp add: deliverable_def frame_ok_def GOV_MAX_PAYLOAD_def)
    then have "unat (of_nat (length (f_payload (fs ! i))) :: u16) = length (f_payload (fs ! i))"
      by (simp add: unsigned_of_nat take_bit_eq_mod)
    then show ?thesis
      using encode_success [of "of_nat (length (f_payload (fs ! i)))" "Some (f_payload (fs ! i))"
          "length (bufs ! i)" "bufs ! i" "f_type (fs ! i)" "f_seq (fs ! i)"] assms(4) i n
      by (auto simp: GOV_MAX_PAYLOAD_def GOV_FRAME_MAX_def GOV_FRAME_HDR_def GOV_FRAME_CRC_def)
  qed
  then have "wire = concat (map frame_bytes fs)"
    unfolding wire_def by (intro arg_cong [where f = concat] nth_equalityI) simp_all
  with link.feed_stream [OF assms(1,2)] show ?thesis by simp
qed

theorem encode_decode_roundtrip_witness:
  "snd (run gov_decoder_push (gov_decoder_init True)
     (take 9 (the (fst (gov_frame_encode 4 7 (Some [0x7E]) 1 (Some (replicate 72 0)) 72))))) =
   [Frame 4 7 [0x7E]]"
proof -
  let ?r = "gov_frame_encode 4 7 (Some [0x7E]) 1 (Some (replicate 72 0)) 72"
  have f: "deliverable (Frame 4 7 [0x7E])" "dec_ready (gov_decoder_init True)"
    by code_simp+
  have r: "?r = (Some (the (fst ?r)), 9)" by code_simp
  show ?thesis
    using encode_decode_roundtrip [of "gov_decoder_init True" "[Frame 4 7 [0x7E]]"
        "[replicate 72 0]" "[the (fst ?r)]" "[9]"] f r
    by (simp add: GOV_FRAME_MAX_def GOV_FRAME_HDR_def GOV_FRAME_CRC_def GOV_MAX_PAYLOAD_def)
qed

text \<open>
  C15. The encoder on every branch: with a buffer of the stated capacity and a payload of the
  stated length it writes the frame and leaves the rest of the buffer, or it writes nothing and
  returns 0, exactly when the length is over 64, the payload is missing or the frame does not fit.
\<close>

theorem encode_exact:
  assumes "cap \<le> length buf" and "payload \<noteq> None \<longrightarrow> unat len \<le> length (the payload)"
  shows "gov_frame_encode type seq payload len None cap = (None, 0) \<and>
    gov_frame_encode type seq payload len (Some buf) cap =
      (if unat len \<le> GOV_MAX_PAYLOAD \<and> (payload = None \<longrightarrow> len = 0) \<and> 8 + unat len \<le> cap
       then (Some (frame_bytes (Frame type seq (take (unat len) (case payload of None \<Rightarrow> [] | Some p \<Rightarrow> p)))
               @ drop (8 + unat len) buf), 8 + unat len)
       else (Some buf, 0))"
proof
  show "gov_frame_encode type seq payload len None cap = (None, 0)"
    by (simp add: gov_frame_encode_def)
  show "gov_frame_encode type seq payload len (Some buf) cap =
      (if unat len \<le> GOV_MAX_PAYLOAD \<and> (payload = None \<longrightarrow> len = 0) \<and> 8 + unat len \<le> cap
       then (Some (frame_bytes (Frame type seq (take (unat len) (case payload of None \<Rightarrow> [] | Some p \<Rightarrow> p)))
               @ drop (8 + unat len) buf), 8 + unat len)
       else (Some buf, 0))"
  proof (cases "unat len \<le> GOV_MAX_PAYLOAD \<and> (payload = None \<longrightarrow> len = 0) \<and> 8 + unat len \<le> cap")
    case True
    then have "unat len \<le> length (case payload of None \<Rightarrow> [] | Some p \<Rightarrow> p)"
      using assms(2) by (cases payload) simp_all
    then show ?thesis using encode_success [of len payload cap buf type seq] True assms(1) by simp
  next
    case False
    then show ?thesis
      by (auto simp: gov_frame_encode_def Let_def GOV_FRAME_HDR_def GOV_FRAME_CRC_def
          word_neq_0_conv [symmetric])
  qed
qed

theorem encode_exact_witness:
  "gov_frame_encode 1 0 (Some [9, 9]) 2 (Some (replicate 9 0)) 9 = (Some (replicate 9 0), 0)"
  using encode_exact [of 9 "replicate 9 0" "Some [9, 9]" 2 1 0] by simp

text \<open>
  C16. Soundness of deliveries: whatever bytes arrive, the frames delivered are disjoint segments
  of the stream, in order, each of them a complete encoding with its check value.
\<close>

theorem deliveries_were_sent:
  "carries bs (snd (run gov_decoder_push (gov_decoder_init True) bs))"
proof -
  obtain pre r where "bs = pre @ r" "carries pre (delivered (snd (run spec_push Hunting bs)))"
    using run_carries [of bs] by blast
  then show ?thesis
    using run_refines [of "gov_decoder_init True" Hunting bs] by (simp add: carries_noise)
qed

text \<open>
  Memory safety: in every reachable state the payload buffer has its 64 bytes, and a byte
  that arrives in the payload state is stored inside it.
\<close>

theorem decoder_buffer_safe:
  fixes d :: gov_decoder
  assumes "d = fst (run gov_decoder_push (gov_decoder_init cb) bs)"
  shows "length (d_payload d) = GOV_MAX_PAYLOAD \<and> d_state d \<noteq> GOV_DEC_OTHER \<and>
    (d_state d = GOV_DEC_PAYLOAD \<longrightarrow> d_payload_idx d < d_len d \<and> unat (d_payload_idx d) < GOV_MAX_PAYLOAD) \<and>
    (d_state d = GOV_DEC_HDR \<longrightarrow> d_hdr_idx d < 4) \<and>
    (d_state d = GOV_DEC_CRC \<longrightarrow> unat (d_len d) \<le> GOV_MAX_PAYLOAD)"
proof -
  have r: "represents d (fst (run spec_push Hunting bs))" "length (d_payload d) = GOV_MAX_PAYLOAD"
    using run_refines [of "gov_decoder_init cb" Hunting bs] assms by simp_all
  show ?thesis
  proof (cases "fst (run spec_push Hunting bs)")
    case Hunting
    with r show ?thesis by simp
  next
    case (Collecting w)
    with r show ?thesis
      by (auto simp: header_rep_def word_less_nat_alt GOV_MAX_PAYLOAD_def split: if_splits)
  qed
qed

theorem decoder_buffer_safe_witness:
  "d_payload_idx (fst (run gov_decoder_push (gov_decoder_init True) [0x7E, 1, 1, 0, 0, 2, 9])) < 2"
proof -
  let ?d = "fst (run gov_decoder_push (gov_decoder_init True) [0x7E, 1, 1, 0, 0, 2, 9])"
  have "run spec_push Hunting [0x7E, 1, 1, 0, 0, 2, 9] = (Collecting [1, 1, 0, 0, 2, 9], [])"
      "declared_len [1, 1, 0, 0, 2, 9] = 2"
    by code_simp+
  then have "d_state ?d = GOV_DEC_PAYLOAD" "unat (d_len ?d) = 2"
    using run_refines [of "gov_decoder_init True" Hunting "[0x7E, 1, 1, 0, 0, 2, 9]"]
    by (simp_all add: header_rep_def del: fst_run_Cons snd_run_Cons)
  then show ?thesis
    using decoder_buffer_safe [OF refl, of True "[0x7E, 1, 1, 0, 0, 2, 9]"]
    by (simp add: word_less_nat_alt del: fst_run_Cons)
qed

text \<open>
  C19. Resynchronisation: after any bytes at all, 71 bytes other than the start byte bring the
  decoder back to hunting, and the next frame is delivered as the last one of the stream.
\<close>

theorem decoder_resyncs:
  assumes "GOV_SOF \<notin> set zs" and "71 \<le> length zs" and "deliverable f"
  shows "\<exists>fs. snd (run gov_decoder_push (gov_decoder_init True) (bs @ zs @ frame_bytes f)) = fs @ [f]"
proof -
  have "fst (run spec_push Hunting (bs @ zs)) = Hunting" using assms(1,2) by (rule hunts_again)
  then have "delivered (snd (run spec_push Hunting ((bs @ zs) @ frame_bytes f))) =
      delivered (snd (run spec_push Hunting (bs @ zs))) @ [f]"
    unfolding snd_run_append [of _ _ "bs @ zs"] using spec_frame [of f] assms(3)
    by (simp add: deliverable_def)
  then show ?thesis
    using run_refines [of "gov_decoder_init True" Hunting "bs @ zs @ frame_bytes f"] by simp
qed

theorem decoder_resyncs_witness:
  "\<exists>fs. snd (run gov_decoder_push (gov_decoder_init True)
     ([0x7E, 1, 1, 0, 0, 0x40] @ replicate 71 0 @ frame_bytes (Frame 1 0 []))) = fs @ [Frame 1 0 []]"
proof (rule decoder_resyncs)
  show "GOV_SOF \<notin> set (replicate 71 0)" by (simp add: GOV_SOF_def)
  show "deliverable (Frame 1 0 [])" by code_simp
qed simp

text \<open>
  A corrupted frame is dropped: when the bytes after the start byte arrive with the version
  and length intact and with bit errors of odd weight, within 16 bits, or at two places, the
  decoder delivers nothing, counts one CRC error and hunts again.
\<close>

theorem corrupted_frame_dropped:
  assumes "dec_ready d" and "frame_ok f"
    and "c = gov_crc16_ccitt GOV_CRC_INIT (frame_body f)"
    and "length v = length (frame_body f) + 2" and "v ! 0 = GOV_VER"
    and "declared_len v = length (f_payload f)"
    and "e = flips (frame_body f @ crc_bytes c) v"
    and "odd_weight e \<or> short_burst e \<or> double_bit 576 e"
  shows "snd (run gov_decoder_push d (GOV_SOF # v)) = [] \<and>
    dec_ready (fst (run gov_decoder_push d (GOV_SOF # v))) \<and>
    st_crc_err (d_stats (fst (run gov_decoder_push d (GOV_SOF # v)))) = st_crc_err (d_stats d) + 1"
proof -
  have "judge v = Bad_Crc" using assms(2-8) by (rule corrupted_judged)
  then have "run spec_push Hunting (GOV_SOF # v) = (Hunting, [Bad_Crc])"
    using collect_full [of v] assms(2,4-6) by (simp add: frame_ok_def)
  with run_refines [of d Hunting "GOV_SOF # v"] assms(1) show ?thesis
    by (simp add: dec_ready_def counts_def del: fst_run_Cons snd_run_Cons)
qed

theorem corrupted_frame_dropped_witness:
  "snd (run gov_decoder_push (gov_decoder_init True) [0x7E, 1, 4, 0, 0, 1, 5, 0xB1, 0x03]) = []"
proof -
  let ?f = "Frame 4 0 [4]" and ?v = "[1, 4, 0, 0, 1, 5, 0xB1, 0x03] :: u8 list"
  let ?c = "gov_crc16_ccitt GOV_CRC_INIT (frame_body ?f)"
  have "odd_weight (flips (frame_body ?f @ crc_bytes ?c) ?v)" by code_simp
  moreover have "dec_ready (gov_decoder_init True)" "frame_ok ?f" "?v ! 0 = GOV_VER"
      "declared_len ?v = length (f_payload ?f)"
    by code_simp+
  ultimately show ?thesis
    using corrupted_frame_dropped [of "gov_decoder_init True" ?f ?c ?v] by (simp add: GOV_SOF_def)
qed

text \<open>
  The resynchronisation rule of the protocol document does not hold for every garbage: bytes
  that look like a header make the decoder take the following frame for their payload, and it is
  lost.
\<close>

theorem garbage_swallows_frame:
  "\<exists>garbage f. deliverable f \<and>
     snd (run gov_decoder_push (gov_decoder_init True) (garbage @ frame_bytes f)) = []"
proof (intro exI conjI)
  show "deliverable (Frame 4 0 [2])" by code_simp
  have "delivered (snd (run spec_push Hunting
      ([0x7E, 1, 1, 0, 0, 0x40] @ frame_bytes (Frame 4 0 [2])))) = []" by code_simp
  then show "snd (run gov_decoder_push (gov_decoder_init True)
      ([0x7E, 1, 1, 0, 0, 0x40] @ frame_bytes (Frame 4 0 [2]))) = []"
    using run_refines [of "gov_decoder_init True" Hunting] by (simp del: snd_run_Cons append.simps)
qed

end
