(* ===== verification/Gov_Fuzz.thy ===== *)
theory Gov_Fuzz
  imports Gov_Frame
begin

text \<open>
  The fuzzing harness of the frame decoder, \<^verbatim>\<open>fuzz/fuzz_frame.c\<close>: every byte of an input goes through
  a fresh decoder, whose delivery callback reads the whole reported payload. The callback gets the
  address of the decoder's payload buffer and the length of the frame, so a read past the buffer is
  undefined, here \<open>None\<close>. The sanitizers check this property on the inputs they try; here it is
  proved for all.
\<close>

section \<open>The harness\<close>

lemma below_succ:
  fixes i len :: u16
  assumes "unat i < unat len"
  shows "unat (i + 1) = Suc (unat i)"
proof -
  have "unat len < 2 ^ 16" using unsigned_less [of len] by simp
  with assms show ?thesis by (simp add: unat_word_ariths)
qed

text \<open>The loop over the payload, which folds the bytes it reads into a sink.\<close>

function sink_loop :: "u8 list \<Rightarrow> u16 \<Rightarrow> u16 \<Rightarrow> u8 \<Rightarrow> u8 option" where
  "sink_loop payload len i sink =
     (if i < len then
        if unat i < length payload then sink_loop payload len (i + 1) (sink XOR payload ! unat i) else None
      else Some sink)"
  by pat_completeness auto
termination
  by (relation "measure (\<lambda>(payload, len, i, sink). unat len - unat i)")
    (auto simp: word_less_nat_alt below_succ)

declare sink_loop.simps [simp del]

definition on_frame :: "u8 list \<Rightarrow> u16 \<Rightarrow> u32 ptr \<Rightarrow> u32 ptr option" where
  "on_frame payload len deliveries =
     (case sink_loop payload len 0 0 of None \<Rightarrow> None
      | Some sink \<Rightarrow> Some (map_option (\<lambda>n. n + 1) deliveries))"

text \<open>A push delivers at most one frame, from the decoder's buffer and with the decoder's length.\<close>

fun fuzz_loop :: "gov_decoder \<Rightarrow> u8 list \<Rightarrow> u32 \<Rightarrow> (gov_decoder \<times> u32) option" where
  "fuzz_loop dec [] deliveries = Some (dec, deliveries)"
| "fuzz_loop dec (b # data) deliveries =
     (let (dec', fs) = gov_decoder_push dec b in
      if fs = [] then fuzz_loop dec' data deliveries
      else case on_frame (d_payload dec') (d_len dec') (Some deliveries) of
             Some (Some n) \<Rightarrow> fuzz_loop dec' data n
           | _ \<Rightarrow> None)"

text \<open>The value returned, with the decoder and the counter it leaves on the stack.\<close>

definition LLVMFuzzerTestOneInput :: "u8 list \<Rightarrow> (int \<times> gov_decoder \<times> u32) option" where
  "LLVMFuzzerTestOneInput data = map_option (Pair 0) (fuzz_loop (gov_decoder_init True) data 0)"

section \<open>No input fails\<close>

lemma sink_loop_defined:
  assumes "unat len \<le> length payload"
  shows "\<exists>y. sink_loop payload len i sink = Some y"
  using assms
proof (induction payload len i sink rule: sink_loop.induct)
  case (1 payload len i sink)
  show ?case
  proof (cases "i < len")
    case True
    then have "unat i < length payload" using "1.prems" by (simp add: word_less_nat_alt)
    with True 1 show ?thesis by (subst sink_loop.simps) simp
  next
    case False
    then show ?thesis by (subst sink_loop.simps) simp
  qed
qed

lemma on_frame_defined:
  "unat len \<le> length payload \<Longrightarrow> on_frame payload len (Some n) = Some (Some (n + 1))"
  using sink_loop_defined [of len payload 0 0] by (auto simp: on_frame_def)

text \<open>A push that delivers leaves the frame in the buffer, its length within the buffer.\<close>

lemma delivery_in_buffer:
  assumes "represents d s" and "length (d_payload d) = GOV_MAX_PAYLOAD" and "gov_decoder_push d b = (d', fs)" and "fs \<noteq> []"
  shows "length fs = 1 \<and> unat (d_len d') \<le> length (d_payload d') \<and>
    f_payload (hd fs) = take (unat (d_len d')) (d_payload d')"
proof -
  have c: "d_state d = GOV_DEC_CRC" "d_crc_idx d + 1 \<ge> 2"
    using assms(3,4)
    by (auto simp: gov_decoder_push_def push_crc_def Let_def split: gov_decoder_state.splits if_splits)
  obtain w where "s = Collecting w" using assms(1) c(1) by (cases s) auto
  with assms(1) c(1) have "unat (d_len d) \<le> GOV_MAX_PAYLOAD"
    by (auto simp: header_rep_def split: if_splits)
  then show ?thesis
    using assms(2-4) c
    by (auto simp: gov_decoder_push_def push_crc_def finish_frame_def Let_def split: if_splits)
qed

lemma fuzz_loop_counts:
  assumes "represents d s" and "length (d_payload d) = GOV_MAX_PAYLOAD" and "d_cb d"
  shows "fuzz_loop d data n =
    Some (fst (run gov_decoder_push d data), n + of_nat (length (snd (run gov_decoder_push d data))))"
  using assms
proof (induction data arbitrary: d s n)
  case Nil
  then show ?case by simp
next
  case (Cons b data)
  obtain d' fs where p: "gov_decoder_push d b = (d', fs)" by fastforce
  note r = refinesD [OF decoder_refines [OF Cons.prems(1,2), of b], unfolded p, simplified]
  have d': "represents d' (fst (spec_push s b))" "length (d_payload d') = GOV_MAX_PAYLOAD" "d_cb d'"
    using r Cons.prems by simp_all
  show ?case
  proof (cases "fs = []")
    case True
    then show ?thesis using Cons.IH [OF d', of n] p by simp
  next
    case False
    with delivery_in_buffer [OF Cons.prems(1,2) p] have l: "length fs = 1" "unat (d_len d') \<le> length (d_payload d')"
      by simp_all
    show ?thesis
      using Cons.IH [OF d', of "n + 1"] p False l(1) on_frame_defined [OF l(2), of n] by (simp add: add.assoc)
  qed
qed

text \<open>
  C18. The harness returns 0 on every input: no byte string makes the decoder hand out a payload
  that reaches past its buffer, and the counter is the number of frames that the specification of
  the decoder finds in the input, modulo its width.
\<close>

theorem fuzz_never_fails:
  "\<exists>dec. LLVMFuzzerTestOneInput data =
    Some (0, dec, of_nat (length (delivered (snd (run spec_push Hunting data)))))"
proof -
  have i: "represents (gov_decoder_init True) Hunting" "length (d_payload (gov_decoder_init True)) = GOV_MAX_PAYLOAD"
    "d_cb (gov_decoder_init True)"
    by (simp_all add: gov_decoder_init_def)
  with fuzz_loop_counts [OF i, of data 0] run_refines [OF i(1,2), of data] show ?thesis
    by (simp add: LLVMFuzzerTestOneInput_def)
qed

end
