(* ===== verification/Gov_Reliable.thy ===== *)
theory Gov_Reliable
  imports Gov_Frame
begin

text \<open>
  Stop-and-wait retransmission, \<^verbatim>\<open>lib/proto/reliable.h\<close> and \<^verbatim>\<open>lib/proto/reliable.c\<close>: the sender with
  one outstanding frame and the receiver that acknowledges every frame and delivers each sequence
  number once. The wire callback is an output: the byte strings written, in order. A sender or
  receiver whose callback is not set has \<open>tx_wire\<close> or \<open>rx_wire\<close> false.
\<close>

section \<open>Constants and types\<close>

definition GOV_ACK_TIMEOUT_MS :: u32 where [gov_defs]: "GOV_ACK_TIMEOUT_MS = 100"
definition GOV_MAX_RETRIES :: u8 where [gov_defs]: "GOV_MAX_RETRIES = 3"

datatype gov_tx_state = GOV_TX_IDLE | GOV_TX_WAIT_ACK | GOV_TX_LINK_FAULT

datatype gov_tx_status = GOV_TX_OK | GOV_TX_BUSY | GOV_TX_ENCODE_ERR

record gov_tx =
  tx_wire :: bool
  tx_state :: gov_tx_state
  tx_next_seq :: u8
  tx_cur_seq :: u8
  tx_retries :: u8
  tx_last_tx_ms :: u32
  tx_frame_len :: nat
  tx_frame :: "u8 list"

record gov_rx =
  rx_wire :: bool
  rx_deliver :: bool
  rx_last_seq :: u8
  rx_have_last :: bool
  rx_dup :: u32

text \<open>What the receiver does for a frame: hand it to the application, write to the wire.\<close>

datatype rx_out = App gov_frame | Wire "u8 list"

section \<open>The sender\<close>

definition gov_tx_init :: "bool \<Rightarrow> gov_tx" where
  "gov_tx_init wire = \<lparr> tx_wire = wire, tx_state = GOV_TX_IDLE, tx_next_seq = 0, tx_cur_seq = 0,
     tx_retries = 0, tx_last_tx_ms = 0, tx_frame_len = 0, tx_frame = replicate GOV_FRAME_MAX 0 \<rparr>"

definition gov_tx_send ::
  "gov_tx \<Rightarrow> u8 \<Rightarrow> u8 list ptr \<Rightarrow> u16 \<Rightarrow> u32 \<Rightarrow> gov_tx \<times> u8 list list \<times> gov_tx_status" where
  "gov_tx_send tx type payload len now_ms =
     (if \<not> tx_wire tx then (tx, [], GOV_TX_BUSY)
      else if tx_state tx \<noteq> GOV_TX_IDLE then (tx, [], GOV_TX_BUSY)
      else
        let (buf, n) = gov_frame_encode type (tx_next_seq tx) payload len (Some (tx_frame tx))
                         (length (tx_frame tx));
            tx1 = tx\<lparr> tx_frame := the buf \<rparr>
        in
        if n = 0 then (tx1, [], GOV_TX_ENCODE_ERR)
        else
          let tx2 = tx1\<lparr> tx_frame_len := n, tx_cur_seq := tx_next_seq tx1,
                tx_next_seq := tx_next_seq tx1 + 1, tx_retries := 0, tx_last_tx_ms := now_ms,
                tx_state := GOV_TX_WAIT_ACK \<rparr>
          in (tx2, [take (tx_frame_len tx2) (tx_frame tx2)], GOV_TX_OK))"

definition gov_tx_on_ack :: "gov_tx \<Rightarrow> u8 \<Rightarrow> gov_tx" where
  "gov_tx_on_ack tx acked_seq =
     (if tx_state tx = GOV_TX_WAIT_ACK \<and> acked_seq = tx_cur_seq tx
      then tx\<lparr> tx_state := GOV_TX_IDLE \<rparr> else tx)"

definition gov_tx_poll :: "gov_tx \<Rightarrow> u32 \<Rightarrow> gov_tx \<times> u8 list list \<times> gov_tx_state" where
  "gov_tx_poll tx now_ms =
     (if tx_state tx \<noteq> GOV_TX_WAIT_ACK then (tx, [], tx_state tx)
      else if now_ms - tx_last_tx_ms tx < GOV_ACK_TIMEOUT_MS then (tx, [], tx_state tx)
      else if tx_retries tx \<ge> GOV_MAX_RETRIES then
        (tx\<lparr> tx_state := GOV_TX_LINK_FAULT \<rparr>, [], GOV_TX_LINK_FAULT)
      else
        let tx1 = tx\<lparr> tx_retries := tx_retries tx + 1, tx_last_tx_ms := now_ms \<rparr>
        in (tx1, [take (tx_frame_len tx1) (tx_frame tx1)], tx_state tx1))"

definition gov_tx_clear_fault :: "gov_tx \<Rightarrow> gov_tx" where
  "gov_tx_clear_fault tx =
     (if tx_state tx = GOV_TX_LINK_FAULT then tx\<lparr> tx_state := GOV_TX_IDLE \<rparr> else tx)"

definition gov_tx_send_ptr ::
  "u8 \<Rightarrow> u8 list ptr \<Rightarrow> u16 \<Rightarrow> u32 \<Rightarrow> gov_tx ptr \<Rightarrow> gov_tx ptr \<times> u8 list list \<times> gov_tx_status" where
  "gov_tx_send_ptr type payload len now_ms =
     with_ptr ([], GOV_TX_BUSY) (\<lambda>tx. gov_tx_send tx type payload len now_ms)"

definition gov_tx_on_ack_ptr :: "u8 \<Rightarrow> gov_tx ptr \<Rightarrow> gov_tx ptr \<times> unit" where
  "gov_tx_on_ack_ptr acked_seq = with_ptr () (\<lambda>tx. (gov_tx_on_ack tx acked_seq, ()))"

definition gov_tx_poll_ptr :: "u32 \<Rightarrow> gov_tx ptr \<Rightarrow> gov_tx ptr \<times> u8 list list \<times> gov_tx_state" where
  "gov_tx_poll_ptr now_ms = with_ptr ([], GOV_TX_LINK_FAULT) (\<lambda>tx. gov_tx_poll tx now_ms)"

definition gov_tx_clear_fault_ptr :: "gov_tx ptr \<Rightarrow> gov_tx ptr \<times> unit" where
  "gov_tx_clear_fault_ptr = with_ptr () (\<lambda>tx. (gov_tx_clear_fault tx, ()))"

section \<open>The receiver\<close>

definition gov_rx_init :: "bool \<Rightarrow> bool \<Rightarrow> gov_rx" where
  "gov_rx_init wire deliver = \<lparr> rx_wire = wire, rx_deliver = deliver, rx_last_seq = 0,
     rx_have_last = False, rx_dup = 0 \<rparr>"

text \<open>The acknowledgement is encoded into a buffer on the stack.\<close>

definition send_ack :: "u8 \<Rightarrow> rx_out list" where
  "send_ack seq =
     (let (out, n) = gov_frame_encode GOV_TYPE_ACK 0 (Some [seq]) 1
                       (Some (replicate GOV_FRAME_MAX 0)) GOV_FRAME_MAX
      in if n \<noteq> 0 then [Wire (take n (the out))] else [])"

definition gov_rx_on_frame :: "gov_rx \<Rightarrow> gov_frame \<Rightarrow> gov_rx \<times> rx_out list" where
  "gov_rx_on_frame rx f =
     (if \<not> rx_wire rx then (rx, [])
      else if rx_have_last rx \<and> f_seq f = rx_last_seq rx then
        (rx\<lparr> rx_dup := rx_dup rx + 1 \<rparr>, send_ack (f_seq f))
      else
        (rx\<lparr> rx_last_seq := f_seq f, rx_have_last := True \<rparr>,
         (if rx_deliver rx then [App f] else []) @ send_ack (f_seq f)))"

definition gov_rx_on_frame_ptr :: "gov_frame \<Rightarrow> gov_rx ptr \<Rightarrow> gov_rx ptr \<times> rx_out list" where
  "gov_rx_on_frame_ptr f = with_ptr [] (\<lambda>rx. gov_rx_on_frame rx f)"

section \<open>Events of the sender\<close>

datatype tx_event =
  Tx_Send u8 "u8 list" u32 | Tx_Ack u8 | Tx_Poll u32 | Tx_Clear

text \<open>Each output is the byte string written to the wire.\<close>

fun tx_step :: "gov_tx \<Rightarrow> tx_event \<Rightarrow> gov_tx \<times> u8 list list" where
  "tx_step tx (Tx_Send type payload t) =
     (let (tx', out, _) = gov_tx_send tx type (Some payload) (of_nat (length payload)) t in (tx', out))"
| "tx_step tx (Tx_Ack q) = (gov_tx_on_ack tx q, [])"
| "tx_step tx (Tx_Poll t) = (let (tx', out, _) = gov_tx_poll tx t in (tx', out))"
| "tx_step tx Tx_Clear = (gov_tx_clear_fault tx, [])"

text \<open>A payload length that fits the 16-bit length argument.\<close>

fun tx_event_ok :: "tx_event \<Rightarrow> bool" where
  "tx_event_ok (Tx_Send type payload t) = (length payload < 65536)"
| "tx_event_ok _ = True"

text \<open>
  The invariant of the sender: its buffer has the size of the largest frame, and while a frame is
  outstanding the buffer holds its encoding under the current sequence number.
\<close>

definition tx_holds :: "gov_tx \<Rightarrow> gov_frame \<Rightarrow> bool" where
  "tx_holds tx f \<longleftrightarrow>
     f_seq f = tx_cur_seq tx \<and> frame_ok f \<and> tx_frame_len tx = length (frame_bytes f) \<and>
     take (length (frame_bytes f)) (tx_frame tx) = frame_bytes f"

definition tx_inv :: "gov_tx \<Rightarrow> bool" where
  "tx_inv tx \<longleftrightarrow>
     tx_wire tx \<and> length (tx_frame tx) = GOV_FRAME_MAX \<and> tx_retries tx \<le> GOV_MAX_RETRIES \<and>
     (tx_state tx \<noteq> GOV_TX_IDLE \<longrightarrow>
        tx_next_seq tx = tx_cur_seq tx + 1 \<and> (\<exists>f. tx_holds tx f))"

text \<open>An event that is not a new frame.\<close>

fun no_send :: "tx_event \<Rightarrow> bool" where
  "no_send (Tx_Send _ _ _) = False"
| "no_send _ = True"

fun is_poll :: "tx_event \<Rightarrow> bool" where
  "is_poll (Tx_Poll _) = True"
| "is_poll _ = False"

text \<open>Polls that each come at least one timeout after the frame was last sent.\<close>

fun overdue :: "u32 \<Rightarrow> u32 list \<Rightarrow> bool" where
  "overdue t [] = True"
| "overdue t (u # us) = (u - t \<ge> GOV_ACK_TIMEOUT_MS \<and> overdue u us)"

text \<open>
  The receiver's contract: of a sequence of frames, those whose sequence number is not that of
  the frame before are delivered, and every frame is acknowledged.
\<close>

definition ack_frame :: "u8 \<Rightarrow> gov_frame" where
  "ack_frame q = Frame GOV_TYPE_ACK 0 [q]"

fun first_seen :: "u8 option \<Rightarrow> gov_frame list \<Rightarrow> gov_frame list" where
  "first_seen l [] = []"
| "first_seen l (f # fs) =
     (if l = Some (f_seq f) then first_seen l fs else f # first_seen (Some (f_seq f)) fs)"

definition rx_last :: "gov_rx \<Rightarrow> u8 option" where
  "rx_last rx = (if rx_have_last rx then Some (rx_last_seq rx) else None)"

definition apps :: "rx_out list \<Rightarrow> gov_frame list" where
  "apps xs = concat (map (\<lambda>x. case x of App f \<Rightarrow> [f] | Wire _ \<Rightarrow> []) xs)"

definition wires :: "rx_out list \<Rightarrow> u8 list list" where
  "wires xs = concat (map (\<lambda>x. case x of App f \<Rightarrow> [] | Wire w \<Rightarrow> [w]) xs)"

section \<open>The sender keeps its invariant\<close>

lemma send_cases:
  assumes "tx_inv tx" and "length p < 65536"
  shows "gov_tx_send tx type (Some p) (of_nat (length p)) t =
    (if tx_state tx \<noteq> GOV_TX_IDLE then (tx, [], GOV_TX_BUSY)
     else if GOV_MAX_PAYLOAD < length p then (tx, [], GOV_TX_ENCODE_ERR)
     else
       let f = Frame type (tx_next_seq tx) p in
       (tx\<lparr> tx_frame := frame_bytes f @ drop (8 + length p) (tx_frame tx), tx_frame_len := 8 + length p,
           tx_cur_seq := tx_next_seq tx, tx_next_seq := tx_next_seq tx + 1, tx_retries := 0,
           tx_last_tx_ms := t, tx_state := GOV_TX_WAIT_ACK \<rparr>, [frame_bytes f], GOV_TX_OK))"
proof -
  have n: "unat (of_nat (length p) :: u16) = length p"
    using assms(2) by (simp add: unsigned_of_nat take_bit_eq_mod)
  have w: "tx_wire tx" "length (tx_frame tx) = 72"
    using assms(1) by (simp_all add: tx_inv_def gov_defs)
  show ?thesis
  proof (cases "GOV_MAX_PAYLOAD < length p")
    case True
    then show ?thesis using w n by (simp add: gov_tx_send_def gov_frame_encode_def)
  next
    case False
    then have "gov_frame_encode type (tx_next_seq tx) (Some p) (of_nat (length p)) (Some (tx_frame tx)) 72 =
        (Some (frame_bytes (Frame type (tx_next_seq tx) p) @ drop (8 + length p) (tx_frame tx)), 8 + length p)"
      using encode_success [of "of_nat (length p)" "Some p" 72 "tx_frame tx"] w n
      by (simp add: GOV_MAX_PAYLOAD_def)
    then show ?thesis using False w by (simp add: gov_tx_send_def Let_def)
  qed
qed

lemma tx_step_inv:
  assumes "tx_inv tx" and "tx_event_ok e"
  shows "tx_inv (fst (tx_step tx e))"
proof (cases e)
  case (Tx_Send type p t)
  show ?thesis
  proof (cases "tx_state tx = GOV_TX_IDLE \<and> length p \<le> GOV_MAX_PAYLOAD")
    case True
    with assms Tx_Send show ?thesis
      by (auto simp: send_cases Let_def tx_inv_def tx_holds_def frame_ok_def gov_defs
          intro!: exI [of _ "Frame type (tx_next_seq tx) p"])
  next
    case False
    with assms Tx_Send show ?thesis by (auto simp: send_cases)
  qed
next
  case (Tx_Poll t)
  with assms show ?thesis
    by (auto simp: gov_tx_poll_def tx_inv_def tx_holds_def Let_def not_le GOV_MAX_RETRIES_def
        intro: inc_le)
qed (use assms in \<open>auto simp: gov_tx_on_ack_def gov_tx_clear_fault_def tx_inv_def tx_holds_def\<close>)

interpretation sender: machine tx_step tx_event_ok tx_inv
  by unfold_locales (rule tx_step_inv)

lemma tx_init_inv [simp]: "tx_inv (gov_tx_init True)"
  by (simp add: tx_inv_def gov_tx_init_def)

section \<open>Retransmission\<close>

lemma no_send_idle:
  assumes "tx_state tx \<noteq> GOV_TX_WAIT_ACK" and "\<forall>e \<in> set es. no_send e"
  shows "snd (run tx_step tx es) = [] \<and> tx_state (fst (run tx_step tx es)) \<noteq> GOV_TX_WAIT_ACK"
  using assms
proof (induction es arbitrary: tx)
  case Nil
  then show ?case by simp
next
  case (Cons e es)
  have "tx_state (fst (tx_step tx e)) \<noteq> GOV_TX_WAIT_ACK" "snd (tx_step tx e) = []"
    using Cons.prems by (cases e; auto simp: gov_tx_on_ack_def gov_tx_poll_def gov_tx_clear_fault_def)+
  with Cons show ?case by simp
qed

lemma poll_retransmits:
  assumes "tx_state tx = GOV_TX_WAIT_ACK" and "tx_holds tx f"
    and "t - tx_last_tx_ms tx \<ge> GOV_ACK_TIMEOUT_MS" and "tx_retries tx < GOV_MAX_RETRIES"
  shows "tx_step tx (Tx_Poll t) =
    (tx\<lparr> tx_retries := tx_retries tx + 1, tx_last_tx_ms := t \<rparr>, [frame_bytes f])"
proof -
  have "\<not> GOV_MAX_RETRIES \<le> tx_retries tx" "\<not> t - tx_last_tx_ms tx < GOV_ACK_TIMEOUT_MS"
    using assms(3,4) by (simp_all add: not_le not_less)
  moreover have "take (tx_frame_len tx) (tx_frame tx) = frame_bytes f"
    using assms(2) by (simp add: tx_holds_def)
  ultimately show ?thesis using assms(1) by (simp add: gov_tx_poll_def)
qed

lemma waiting_step:
  assumes "tx_state tx = GOV_TX_WAIT_ACK" and "no_send e"
  shows "tx_step tx e = (tx, []) \<or>
    tx_state (fst (tx_step tx e)) \<noteq> GOV_TX_WAIT_ACK \<and> snd (tx_step tx e) = [] \<or>
    (\<exists>t. e = Tx_Poll t \<and> t - tx_last_tx_ms tx \<ge> GOV_ACK_TIMEOUT_MS \<and> tx_retries tx < GOV_MAX_RETRIES)"
  using assms by (cases e)
    (auto simp: gov_tx_on_ack_def gov_tx_poll_def gov_tx_clear_fault_def not_le not_less)

lemma no_send_waiting:
  assumes "tx_state tx = GOV_TX_WAIT_ACK" and "tx_holds tx f" and "tx_retries tx \<le> GOV_MAX_RETRIES"
    and "\<forall>e \<in> set es. no_send e"
  shows "\<exists>k \<le> 3 - unat (tx_retries tx). snd (run tx_step tx es) = replicate k (frame_bytes f)"
  using assms
proof (induction es arbitrary: tx)
  case Nil
  then show ?case by simp
next
  case (Cons e es)
  consider (same) "tx_step tx e = (tx, [])"
    | (stop) "tx_state (fst (tx_step tx e)) \<noteq> GOV_TX_WAIT_ACK" "snd (tx_step tx e) = []"
    | (again) t where "e = Tx_Poll t" "t - tx_last_tx_ms tx \<ge> GOV_ACK_TIMEOUT_MS"
        "tx_retries tx < GOV_MAX_RETRIES"
    using waiting_step [OF Cons.prems(1), of e] Cons.prems(4) by auto
  then show ?case
  proof cases
    case same
    with Cons show ?thesis by simp
  next
    case stop
    with no_send_idle [of "fst (tx_step tx e)" es] Cons.prems(4) show ?thesis by auto
  next
    case again
    let ?tx = "tx\<lparr> tx_retries := tx_retries tx + 1, tx_last_tx_ms := t \<rparr>"
    have "unat (tx_retries tx) < 3" using again(3) by (simp add: word_less_nat_alt GOV_MAX_RETRIES_def)
    then have r: "unat (tx_retries tx + 1) = Suc (unat (tx_retries tx))"
      by (intro word_nat_plus_1) simp_all
    with again(3) have "tx_retries ?tx \<le> GOV_MAX_RETRIES"
      by (simp add: word_le_nat_alt word_less_nat_alt)
    moreover have "tx_holds ?tx f" using Cons.prems(2) by (simp add: tx_holds_def)
    ultimately obtain k where "k \<le> 3 - unat (tx_retries ?tx)"
        "snd (run tx_step ?tx es) = replicate k (frame_bytes f)"
      using Cons.IH [of ?tx] Cons.prems by auto
    with poll_retransmits [OF Cons.prems(1,2) again(2,3)] again(1) r \<open>unat (tx_retries tx) < 3\<close>
    show ?thesis by (intro exI [of _ "Suc k"]) auto
  qed
qed

lemma overdue_run:
  assumes "tx_state tx = GOV_TX_WAIT_ACK" and "tx_holds tx f"
    and "unat (tx_retries tx) + length us \<le> 3" and "overdue (tx_last_tx_ms tx) us"
  shows "snd (run tx_step tx (map Tx_Poll us)) = replicate (length us) (frame_bytes f) \<and>
    tx_state (fst (run tx_step tx (map Tx_Poll us))) = GOV_TX_WAIT_ACK \<and>
    unat (tx_retries (fst (run tx_step tx (map Tx_Poll us)))) = unat (tx_retries tx) + length us \<and>
    tx_last_tx_ms (fst (run tx_step tx (map Tx_Poll us))) = last (tx_last_tx_ms tx # us)"
  using assms
proof (induction us arbitrary: tx)
  case Nil
  then show ?case by simp
next
  case (Cons u us)
  let ?tx = "tx\<lparr> tx_retries := tx_retries tx + 1, tx_last_tx_ms := u \<rparr>"
  have lt: "tx_retries tx < GOV_MAX_RETRIES"
    using Cons.prems(3) by (simp add: word_less_nat_alt GOV_MAX_RETRIES_def)
  have r: "unat (tx_retries tx + 1) = Suc (unat (tx_retries tx))"
    using Cons.prems(3) by (intro word_nat_plus_1) simp_all
  have "tx_step tx (Tx_Poll u) = (?tx, [frame_bytes f])"
    using Cons.prems lt by (intro poll_retransmits) simp_all
  moreover have "tx_holds ?tx f" using Cons.prems(2) by (simp add: tx_holds_def)
  ultimately show ?case using Cons.IH [of ?tx] Cons.prems r by (simp del: tx_step.simps)
qed

section \<open>The receiver delivers each frame once\<close>

lemma send_ack_eq: "send_ack q = [Wire (frame_bytes (ack_frame q))]"
  using encode_success [of 1 "Some [q]" GOV_FRAME_MAX "replicate GOV_FRAME_MAX 0" GOV_TYPE_ACK 0]
  by (simp add: send_ack_def ack_frame_def gov_defs)

lemma deliverable_ack: "deliverable (ack_frame q)"
  by (simp add: deliverable_def ack_frame_def frame_ok_def known_def is_known_type_def GOV_MAX_PAYLOAD_def)

lemma apps_wires_simps [simp]:
  "apps [] = []" "apps (App f # xs) = f # apps xs" "apps (Wire w # xs) = apps xs"
  "apps (xs @ ys) = apps xs @ apps ys"
  "wires [] = []" "wires (App f # xs) = wires xs" "wires (Wire w # xs) = w # wires xs"
  "wires (xs @ ys) = wires xs @ wires ys"
  by (simp_all add: apps_def wires_def)

lemma rx_step:
  assumes "rx_wire rx" and "rx_deliver rx"
  shows "snd (gov_rx_on_frame rx f) =
      (if rx_last rx = Some (f_seq f) then [] else [App f]) @ [Wire (frame_bytes (ack_frame (f_seq f)))]"
    and "rx_last (fst (gov_rx_on_frame rx f)) = Some (f_seq f)"
    and "rx_wire (fst (gov_rx_on_frame rx f))" and "rx_deliver (fst (gov_rx_on_frame rx f))"
  using assms by (auto simp: gov_rx_on_frame_def rx_last_def send_ack_eq)

lemma rx_run:
  assumes "rx_wire rx" and "rx_deliver rx"
  shows "apps (snd (run gov_rx_on_frame rx fs)) = first_seen (rx_last rx) fs \<and>
    wires (snd (run gov_rx_on_frame rx fs)) = map (\<lambda>f. frame_bytes (ack_frame (f_seq f))) fs \<and>
    rx_dup (fst (run gov_rx_on_frame rx fs)) =
      rx_dup rx + of_nat (length fs - length (first_seen (rx_last rx) fs)) \<and>
    length (first_seen (rx_last rx) fs) \<le> length fs"
  using assms
proof (induction fs arbitrary: rx)
  case Nil
  then show ?case by simp
next
  case (Cons f fs)
  note s = rx_step [OF Cons.prems, of f]
  have d: "rx_dup (fst (gov_rx_on_frame rx f)) =
      (if rx_last rx = Some (f_seq f) then rx_dup rx + 1 else rx_dup rx)"
    using Cons.prems by (auto simp: gov_rx_on_frame_def rx_last_def)
  from Cons.IH [OF s(3,4)] s d show ?case by (auto simp: Suc_diff_le)
qed

section \<open>Properties\<close>

lemma sent_holds:
  assumes "tx_inv tx" and "length p < 65536"
    and "gov_tx_send tx type (Some p) (of_nat (length p)) t = (tx', out, GOV_TX_OK)"
  shows "tx_state tx' = GOV_TX_WAIT_ACK" and "tx_holds tx' (Frame type (tx_next_seq tx) p)"
    and "tx_retries tx' = 0" and "tx_last_tx_ms tx' = t"
    and "out = [frame_bytes (Frame type (tx_next_seq tx) p)]"
  using assms by (auto simp: send_cases Let_def tx_holds_def frame_ok_def split: if_splits)

text \<open>
  Retransmission: after a frame was accepted for sending in any reachable state of the
  sender, whatever acknowledgements, polls and fault clears follow, only this frame is written,
  each time with the same bytes, and at most four times in all.
\<close>

theorem retransmissions_identical:
  assumes "\<forall>e \<in> set es0. tx_event_ok e" and "tx = fst (run tx_step (gov_tx_init True) es0)"
    and "length p < 65536"
    and "gov_tx_send tx type (Some p) (of_nat (length p)) t = (tx', out, GOV_TX_OK)"
    and "\<forall>e \<in> set es. no_send e"
  shows "\<exists>k \<le> 3. out @ snd (run tx_step tx' es) =
    replicate (Suc k) (frame_bytes (Frame type (tx_next_seq tx) p))"
proof -
  have "tx_inv tx" using sender.run_invar [OF tx_init_inv assms(1)] assms(2) by simp
  note s = sent_holds [OF this assms(3,4)]
  from no_send_waiting [OF s(1,2) _ assms(5)] s(3,5) show ?thesis by auto
qed

theorem retransmissions_identical_witness:
  "\<exists>k \<le> 3. [frame_bytes (Frame 1 0 [7])] @ snd (run tx_step
      (fst (gov_tx_send (gov_tx_init True) 1 (Some [7]) (of_nat (length [7 :: u8])) 50)) [Tx_Poll 150]) =
    replicate (Suc k) (frame_bytes (Frame 1 0 [7]))"
proof -
  let ?s = "gov_tx_send (gov_tx_init True) 1 (Some [7]) (of_nat (length [7 :: u8])) 50"
  have z: "tx_next_seq (gov_tx_init True) = 0" "tx_state (gov_tx_init True) = GOV_TX_IDLE"
    by (simp_all add: gov_tx_init_def)
  have "?s = (fst ?s, [frame_bytes (Frame 1 0 [7])], GOV_TX_OK)"
    using send_cases [OF tx_init_inv, of "[7]" 1 50] z by (simp add: Let_def GOV_MAX_PAYLOAD_def)
  then show ?thesis
    using retransmissions_identical [of "[]" "gov_tx_init True" "[7]" 1 50 "fst ?s"
        "[frame_bytes (Frame 1 0 [7])]" "[Tx_Poll 150]"] z by simp
qed

text \<open>
  Link fault: when four polls come, each at least 100 ms (modulo the 32-bit wrap of the
  tick) after the last transmission, and no acknowledgement, the first three send the frame
  again and the fourth latches the link fault, in which a new frame is refused.
\<close>

theorem link_fault_latched:
  assumes "tx_inv tx" and "length p < 65536"
    and "gov_tx_send tx type (Some p) (of_nat (length p)) t = (tx', out, GOV_TX_OK)"
    and "overdue t (us @ [u])" and "length us = 3"
    and "fin = run tx_step tx' (map Tx_Poll (us @ [u]))"
  shows "tx_state (fst (run tx_step tx' (map Tx_Poll us))) = GOV_TX_WAIT_ACK \<and>
    tx_state (fst fin) = GOV_TX_LINK_FAULT \<and>
    snd fin = replicate 3 (frame_bytes (Frame type (tx_next_seq tx) p)) \<and>
    snd (gov_tx_send (fst fin) type' payload' len' t') = ([], GOV_TX_BUSY)"
proof -
  note s = sent_holds [OF assms(1-3)]
  have od: "overdue t us" and ou: "u - last (t # us) \<ge> GOV_ACK_TIMEOUT_MS"
    using assms(4) by (induction us arbitrary: t) (auto split: if_splits)
  let ?tx = "fst (run tx_step tx' (map Tx_Poll us))"
  note r = overdue_run [OF s(1,2), of us]
  have r: "snd (run tx_step tx' (map Tx_Poll us)) = replicate 3 (frame_bytes (Frame type (tx_next_seq tx) p))"
      "tx_state ?tx = GOV_TX_WAIT_ACK" "unat (tx_retries ?tx) = 3" "tx_last_tx_ms ?tx = last (t # us)"
    using overdue_run [OF s(1,2), of us] s(3,4) od assms(5) by simp_all
  have "tx_retries ?tx \<ge> GOV_MAX_RETRIES" using r(3) by (simp add: word_le_nat_alt GOV_MAX_RETRIES_def)
  then have "tx_step ?tx (Tx_Poll u) = (?tx\<lparr> tx_state := GOV_TX_LINK_FAULT \<rparr>, [])"
    using r(2,4) ou by (simp add: gov_tx_poll_def not_less)
  then have "fin = (?tx\<lparr> tx_state := GOV_TX_LINK_FAULT \<rparr>,
      replicate 3 (frame_bytes (Frame type (tx_next_seq tx) p)))"
    using assms(6) r(1) by (simp add: run_append del: tx_step.simps)
  with r(2) show ?thesis by (simp add: gov_tx_send_def)
qed

theorem link_fault_latched_witness:
  "tx_state (fst (run tx_step
      (fst (gov_tx_send (gov_tx_init True) 1 (Some [7]) (of_nat (length [7 :: u8])) 0xFFFFFFF0))
      (map Tx_Poll ([0x60, 0x120, 0x200] @ [0x300])))) = GOV_TX_LINK_FAULT"
proof -
  let ?s = "gov_tx_send (gov_tx_init True) 1 (Some [7]) (of_nat (length [7 :: u8])) 0xFFFFFFF0"
  have z: "tx_state (gov_tx_init True) = GOV_TX_IDLE" by (simp add: gov_tx_init_def)
  have "?s = (fst ?s, fst (snd ?s), GOV_TX_OK)"
    using send_cases [OF tx_init_inv, of "[7]" 1 "0xFFFFFFF0"] z by (simp add: Let_def GOV_MAX_PAYLOAD_def)
  moreover have "overdue 0xFFFFFFF0 ([0x60, 0x120, 0x200] @ [0x300])" by code_simp
  ultimately show ?thesis
    using link_fault_latched [OF tx_init_inv, of "[7]" 1 "0xFFFFFFF0" "fst ?s" "fst (snd ?s)"
        "[0x60, 0x120, 0x200]" "0x300" _ 1 None 0 0] by simp
qed

text \<open>
  The receiver delivers once: of any sequence of frames given to a new receiver, those
  whose sequence number differs from that of the frame before are delivered, in order; every
  frame is acknowledged, in order and with its own number; and the duplicates are counted.
\<close>

theorem receiver_delivers_once:
  "apps (snd (run gov_rx_on_frame (gov_rx_init True True) fs)) = first_seen None fs \<and>
   wires (snd (run gov_rx_on_frame (gov_rx_init True True) fs)) =
     map (\<lambda>f. frame_bytes (Frame GOV_TYPE_ACK 0 [f_seq f])) fs \<and>
   rx_dup (fst (run gov_rx_on_frame (gov_rx_init True True) fs)) =
     of_nat (length fs - length (first_seen None fs))"
proof -
  have "rx_last (gov_rx_init True True) = None" by (simp add: rx_last_def gov_rx_init_def)
  then show ?thesis using rx_run [of "gov_rx_init True True" fs]
    by (simp add: ack_frame_def gov_rx_init_def)
qed

end
