(* ===== verification/Gov_Arq.thy ===== *)
theory Gov_Arq
  imports Gov_Reliable
begin

text \<open>
  The two ends of the reliable link together: a sender, a receiver, a frame decoder at each end,
  and a channel in each direction that keeps the order of what it carries but may lose, repeat or
  corrupt it. A corrupted transmission is one that the decoder at the other end drops (bit errors
  the CRC detects). Each step runs the code of the two modules; \<open>a_sent\<close> and \<open>a_got\<close> record the
  frames accepted from and delivered to the applications.
\<close>

section \<open>The system\<close>

record arq =
  a_tx :: gov_tx
  a_rx :: gov_rx
  a_dec :: gov_decoder
  a_ackdec :: gov_decoder
  a_fwd :: "u8 list list"
  a_back :: "u8 list list"
  a_sent :: "gov_frame list"
  a_got :: "gov_frame list"

definition arq_init :: arq where
  "arq_init = \<lparr> a_tx = gov_tx_init True, a_rx = gov_rx_init True True,
     a_dec = gov_decoder_init True, a_ackdec = gov_decoder_init True,
     a_fwd = [], a_back = [], a_sent = [], a_got = [] \<rparr>"

text \<open>A transmission that leaves a decoder between frames as it was, without a delivery.\<close>

definition harmless :: "u8 list \<Rightarrow> bool" where
  "harmless v \<longleftrightarrow> (\<forall>d. dec_ready d \<longrightarrow>
     dec_ready (fst (run gov_decoder_push d v)) \<and> snd (run gov_decoder_push d v) = [])"

text \<open>The application gives a payload to the sender.\<close>

definition arq_send :: "u8 \<Rightarrow> u8 list \<Rightarrow> u32 \<Rightarrow> arq \<Rightarrow> arq" where
  "arq_send type p t s =
     (let (tx, out, st) = gov_tx_send (a_tx s) type (Some p) (of_nat (length p)) t in
      s\<lparr> a_tx := tx, a_fwd := a_fwd s @ out,
         a_sent := a_sent s @ (if st = GOV_TX_OK then [Frame type (tx_next_seq (a_tx s)) p] else []) \<rparr>)"

definition arq_poll :: "u32 \<Rightarrow> arq \<Rightarrow> arq" where
  "arq_poll t s =
     (let (tx, out, st) = gov_tx_poll (a_tx s) t in s\<lparr> a_tx := tx, a_fwd := a_fwd s @ out \<rparr>)"

text \<open>One transmission arrives: its bytes are decoded, the frames given to the receiver.\<close>

definition arq_recv :: "u8 list \<Rightarrow> arq \<Rightarrow> arq" where
  "arq_recv v s =
     (let (d, fs) = run gov_decoder_push (a_dec s) v;
          (rx, out) = run gov_rx_on_frame (a_rx s) fs in
      s\<lparr> a_dec := d, a_rx := rx, a_back := a_back s @ wires out, a_got := a_got s @ apps out \<rparr>)"

text \<open>The frames that come back: an acknowledgement with a payload goes to the sender.\<close>

definition take_ack :: "gov_tx \<Rightarrow> gov_frame \<Rightarrow> gov_tx" where
  "take_ack tx f =
     (if f_type f = GOV_TYPE_ACK \<and> f_payload f \<noteq> [] then gov_tx_on_ack tx (f_payload f ! 0) else tx)"

definition arq_ack :: "u8 list \<Rightarrow> arq \<Rightarrow> arq" where
  "arq_ack v s =
     (let (d, fs) = run gov_decoder_push (a_ackdec s) v in
      s\<lparr> a_ackdec := d, a_tx := foldl take_ack (a_tx s) fs \<rparr>)"

text \<open>
  The steps. \<open>clr\<close> says whether the link task may clear a latched fault, as the main program
  does; what a channel does to its contents is loss, repetition or corruption of one element.
\<close>

inductive damaged :: "u8 list list \<Rightarrow> u8 list list \<Rightarrow> bool" where
  lose: "damaged (xs @ v # ys) (xs @ ys)"
| repeat: "damaged (xs @ v # ys) (xs @ v # v # ys)"
| corrupt: "harmless w \<Longrightarrow> damaged (xs @ v # ys) (xs @ w # ys)"

inductive arq_step :: "bool \<Rightarrow> arq \<Rightarrow> arq \<Rightarrow> bool" for clr where
  send: "is_known_type type \<Longrightarrow> length p < 65536 \<Longrightarrow> arq_step clr s (arq_send type p t s)"
| poll: "arq_step clr s (arq_poll t s)"
| recv: "a_fwd s = v # vs \<Longrightarrow> arq_step clr s (arq_recv v (s\<lparr> a_fwd := vs \<rparr>))"
| ack: "a_back s = v # vs \<Longrightarrow> arq_step clr s (arq_ack v (s\<lparr> a_back := vs \<rparr>))"
| bad_fwd: "damaged (a_fwd s) vs \<Longrightarrow> arq_step clr s (s\<lparr> a_fwd := vs \<rparr>)"
| bad_back: "damaged (a_back s) vs \<Longrightarrow> arq_step clr s (s\<lparr> a_back := vs \<rparr>)"
| clear: "clr \<Longrightarrow> arq_step clr s (s\<lparr> a_tx := gov_tx_clear_fault (a_tx s) \<rparr>)"

definition arq_reach :: "bool \<Rightarrow> arq \<Rightarrow> bool" where
  "arq_reach clr s \<longleftrightarrow> (arq_step clr)\<^sup>*\<^sup>* arq_init s"

text \<open>
  Invariants. A channel carries transmissions of frames of the history, named by their index;
  \<open>None\<close> is a corrupted one. \<open>carried\<close> says that the indices do not decrease.
\<close>

definition wire_slot :: "(nat \<Rightarrow> gov_frame) \<Rightarrow> nat option \<Rightarrow> u8 list \<Rightarrow> bool" where
  "wire_slot h i v \<longleftrightarrow> (case i of None \<Rightarrow> harmless v | Some k \<Rightarrow> v = frame_bytes (h k))"

definition somes :: "'a option list \<Rightarrow> 'a list" where
  "somes is = concat (map (\<lambda>i. case i of None \<Rightarrow> [] | Some k \<Rightarrow> [k]) is)"

definition carried :: "(nat \<Rightarrow> gov_frame) \<Rightarrow> u8 list list \<Rightarrow> nat set \<Rightarrow> bool" where
  "carried h vs S \<longleftrightarrow> (\<exists>is. list_all2 (wire_slot h) is vs \<and> sorted (somes is) \<and> set (somes is) \<subseteq> S)"

definition ack_of :: "nat \<Rightarrow> gov_frame" where
  "ack_of k = ack_frame (of_nat k)"

definition ack_or_noise :: "u8 list \<Rightarrow> bool" where
  "ack_or_noise v \<longleftrightarrow> harmless v \<or> (\<exists>q. v = frame_bytes (ack_frame q))"

text \<open>The indices that may still arrive when those in \<open>js\<close> were delivered.\<close>

abbreviation in_flight :: "arq \<Rightarrow> nat list \<Rightarrow> nat set" where
  "in_flight s js \<equiv> {i. i < length (a_sent s) \<and> (js \<noteq> [] \<longrightarrow> last js \<le> i)}"

text \<open>What holds of both ends and the forward channel, faults cleared or not.\<close>

definition arq_base :: "arq \<Rightarrow> nat list \<Rightarrow> bool" where
  "arq_base s js \<longleftrightarrow>
     dec_ready (a_dec s) \<and> dec_ready (a_ackdec s) \<and> tx_inv (a_tx s) \<and>
     rx_wire (a_rx s) \<and> rx_deliver (a_rx s) \<and> (\<forall>v \<in> set (a_back s). ack_or_noise v) \<and>
     tx_next_seq (a_tx s) = of_nat (length (a_sent s)) \<and>
     (\<forall>i < length (a_sent s). deliverable (a_sent s ! i) \<and> f_seq (a_sent s ! i) = of_nat i) \<and>
     (tx_state (a_tx s) \<noteq> GOV_TX_IDLE \<longrightarrow>
        a_sent s \<noteq> [] \<and> tx_holds (a_tx s) (last (a_sent s))) \<and>
     a_got s = map ((!) (a_sent s)) js \<and> sorted_wrt (<) js \<and> set js \<subseteq> {..<length (a_sent s)} \<and>
     rx_last (a_rx s) = (if js = [] then None else Some (of_nat (last js))) \<and>
     carried ((!) (a_sent s)) (a_fwd s) (in_flight s js)"

text \<open>What holds besides as long as no fault was cleared.\<close>

definition arq_strict :: "arq \<Rightarrow> bool" where
  "arq_strict s \<longleftrightarrow>
     (let n = length (a_sent s); m = length (a_got s) in
      arq_base s [0..<m] \<and> m \<le> n \<and> n \<le> Suc m \<and>
      (tx_state (a_tx s) = GOV_TX_IDLE \<longrightarrow> m = n) \<and>
      carried ack_of (a_back s)
        {j. j < m \<and> n \<le> j + 2 \<and> (tx_state (a_tx s) = GOV_TX_IDLE \<longrightarrow> n \<le> j + 1)})"

section \<open>Channels\<close>

lemma somes_simps [simp]:
  "somes [] = []" "somes (None # is) = somes is" "somes (Some k # is) = k # somes is"
  "somes (is @ js) = somes is @ somes js"
  by (simp_all add: somes_def)

lemma wire_slot_simps [simp]:
  "wire_slot h None v = harmless v" "wire_slot h (Some k) v = (v = frame_bytes (h k))"
  by (simp_all add: wire_slot_def)

lemma carried_Nil [simp]: "carried h [] S"
  by (auto simp: carried_def intro: exI [of _ "[]"])

lemma carried_mono: "carried h vs S \<Longrightarrow> S \<subseteq> T \<Longrightarrow> carried h vs T"
  unfolding carried_def by blast

lemma carried_cong:
  assumes "carried h vs S" and "\<And>k. k \<in> S \<Longrightarrow> h k = h' k"
  shows "carried h' vs S"
proof -
  obtain "is" where "is": "list_all2 (wire_slot h) is vs" "sorted (somes is)" "set (somes is) \<subseteq> S"
    using assms(1) by (auto simp: carried_def)
  from "is"(1,3) have "list_all2 (wire_slot h') is vs"
  proof (induction rule: list_all2_induct)
    case (Cons i "is" v vs)
    with assms(2) show ?case by (cases i) auto
  qed simp
  with "is" show ?thesis by (auto simp: carried_def)
qed

lemma carried_snoc:
  assumes "carried h vs S" and "k \<in> T" and "S \<subseteq> T" and "\<And>j. j \<in> S \<Longrightarrow> j \<le> k"
  shows "carried h (vs @ [frame_bytes (h k)]) T"
proof -
  obtain "is" where "is": "list_all2 (wire_slot h) is vs" "sorted (somes is)" "set (somes is) \<subseteq> S"
    using assms(1) by (auto simp: carried_def)
  with assms(2-4) have "list_all2 (wire_slot h) (is @ [Some k]) (vs @ [frame_bytes (h k)]) \<and>
      sorted (somes (is @ [Some k])) \<and> set (somes (is @ [Some k])) \<subseteq> T"
    by (auto simp: sorted_append intro: list_all2_appendI)
  then show ?thesis unfolding carried_def by blast
qed

lemma carried_Cons:
  assumes "carried h (v # vs) S"
  obtains "harmless v" and "carried h vs S"
    | k where "k \<in> S" and "v = frame_bytes (h k)" and "carried h vs {j \<in> S. k \<le> j}"
proof -
  obtain i "is" where i: "wire_slot h i v" and "is": "list_all2 (wire_slot h) is vs"
      "sorted (somes (i # is))" "set (somes (i # is)) \<subseteq> S"
    using assms by (auto simp: carried_def list_all2_Cons2)
  show thesis
  proof (cases i)
    case None
    with i "is" that(1) show thesis by (auto simp: carried_def)
  next
    case (Some k)
    with "is" have "carried h vs {j \<in> S. k \<le> j}" unfolding carried_def
      by (intro exI [of _ "is"]) auto
    with i "is" Some that(2) show thesis by auto
  qed
qed

lemma carried_damaged:
  assumes "damaged vs ws" and "carried h vs S"
  shows "carried h ws S"
proof -
  have sp: "\<exists>is1 i is2. list_all2 (wire_slot h) is1 xs \<and> wire_slot h i v \<and> list_all2 (wire_slot h) is2 ys \<and>
      sorted (somes (is1 @ i # is2)) \<and> set (somes (is1 @ i # is2)) \<subseteq> S"
    if "carried h (xs @ v # ys) S" for xs v ys
    using that by (auto simp: carried_def list_all2_append2 list_all2_Cons2) blast
  from assms show ?thesis
  proof cases
    case (lose xs v ys)
    with sp assms(2) obtain is1 i is2 where "list_all2 (wire_slot h) is1 xs"
        "list_all2 (wire_slot h) is2 ys" "sorted (somes (is1 @ i # is2))" "set (somes (is1 @ i # is2)) \<subseteq> S"
      by blast
    with lose show ?thesis unfolding carried_def
      by (intro exI [of _ "is1 @ is2"]) (cases i; auto simp: sorted_append intro: list_all2_appendI)
  next
    case (repeat xs v ys)
    with sp assms(2) obtain is1 i is2 where "list_all2 (wire_slot h) is1 xs" "wire_slot h i v"
        "list_all2 (wire_slot h) is2 ys" "sorted (somes (is1 @ i # is2))" "set (somes (is1 @ i # is2)) \<subseteq> S"
      by blast
    with repeat show ?thesis unfolding carried_def
      by (intro exI [of _ "is1 @ i # i # is2"]) (cases i; auto simp: sorted_append intro: list_all2_appendI)
  next
    case (corrupt w xs v ys)
    with sp assms(2) obtain is1 i is2 where "list_all2 (wire_slot h) is1 xs"
        "list_all2 (wire_slot h) is2 ys" "sorted (somes (is1 @ i # is2))" "set (somes (is1 @ i # is2)) \<subseteq> S"
      by blast
    with corrupt show ?thesis unfolding carried_def
      by (intro exI [of _ "is1 @ None # is2"]) (cases i; auto simp: sorted_append intro: list_all2_appendI)
  qed
qed

lemma of_nat_u8_near:
  assumes "(of_nat i :: u8) = of_nat j" and "i \<le> Suc j" and "j \<le> Suc i"
  shows "i = j"
proof -
  have "i mod 256 = j mod 256" using assms(1) by (simp add: word_of_nat_eq_iff take_bit_eq_mod)
  moreover have "Suc k mod 256 \<noteq> k mod 256" for k :: nat by (simp add: mod_Suc)
  ultimately show ?thesis using assms(2,3) by (metis le_SucE antisym)
qed

section \<open>The base invariant\<close>

lemma base_init: "arq_base arq_init []"
  by (auto simp: arq_base_def arq_init_def dec_ready_def rx_last_def)
    (simp_all add: gov_tx_init_def gov_rx_init_def)

lemma base_last:
  assumes "arq_base s js" and "js \<noteq> []"
  shows "last js < length (a_sent s)"
proof -
  have "set js \<subseteq> {..<length (a_sent s)}" using assms(1) by (simp add: arq_base_def)
  with last_in_set [OF assms(2)] show ?thesis by blast
qed

lemma base_poll:
  assumes "arq_base s js"
  shows "arq_base (arq_poll t s) js"
proof -
  let ?r = "gov_tx_poll (a_tx s) t"
  have inv: "tx_inv (fst ?r)" using tx_step_inv [of "a_tx s" "Tx_Poll t"] assms
    by (simp add: arq_base_def case_prod_beta)
  have keep: "tx_next_seq (fst ?r) = tx_next_seq (a_tx s)"
      "\<And>f. tx_holds (fst ?r) f = tx_holds (a_tx s) f"
      "tx_state (fst ?r) = GOV_TX_IDLE \<longleftrightarrow> tx_state (a_tx s) = GOV_TX_IDLE"
    by (auto simp: gov_tx_poll_def Let_def tx_holds_def)
  have out: "fst (snd ?r) = [] \<or> a_sent s \<noteq> [] \<and> fst (snd ?r) = [frame_bytes (last (a_sent s))]"
    using assms by (auto simp: gov_tx_poll_def Let_def arq_base_def tx_holds_def)
  let ?S = "{i. i < length (a_sent s) \<and> (js \<noteq> [] \<longrightarrow> last js \<le> i)}"
  have fwd: "carried ((!) (a_sent s)) (a_fwd s @ fst (snd ?r)) ?S"
  proof (cases "fst (snd ?r) = []")
    case True
    with assms show ?thesis by (simp add: arq_base_def)
  next
    case False
    with out have ne: "a_sent s \<noteq> []" and o: "fst (snd ?r) = [frame_bytes (last (a_sent s))]" by auto
    have "length (a_sent s) - 1 \<in> ?S" using base_last [OF assms] ne by fastforce
    moreover have "carried ((!) (a_sent s)) (a_fwd s) ?S" using assms by (simp add: arq_base_def)
    ultimately have "carried ((!) (a_sent s))
        (a_fwd s @ [frame_bytes (a_sent s ! (length (a_sent s) - 1))]) ?S"
      by (intro carried_snoc [where S = ?S]) auto
    then show ?thesis using o ne by (simp add: last_conv_nth)
  qed
  show ?thesis
    using assms inv keep fwd by (simp add: arq_base_def arq_poll_def case_prod_beta)
qed

lemma send_accepted:
  assumes "tx_inv tx" and "length p < 65536"
  shows "tx_state tx = GOV_TX_IDLE \<and> length p \<le> GOV_MAX_PAYLOAD \<and>
      fst (snd (gov_tx_send tx type (Some p) (of_nat (length p)) t)) =
        [frame_bytes (Frame type (tx_next_seq tx) p)] \<and>
      snd (snd (gov_tx_send tx type (Some p) (of_nat (length p)) t)) = GOV_TX_OK \<and>
      tx_state (fst (gov_tx_send tx type (Some p) (of_nat (length p)) t)) = GOV_TX_WAIT_ACK \<and>
      tx_next_seq (fst (gov_tx_send tx type (Some p) (of_nat (length p)) t)) = tx_next_seq tx + 1 \<and>
      tx_holds (fst (gov_tx_send tx type (Some p) (of_nat (length p)) t)) (Frame type (tx_next_seq tx) p) \<or>
    fst (gov_tx_send tx type (Some p) (of_nat (length p)) t) = tx \<and>
      fst (snd (gov_tx_send tx type (Some p) (of_nat (length p)) t)) = [] \<and>
      snd (snd (gov_tx_send tx type (Some p) (of_nat (length p)) t)) \<noteq> GOV_TX_OK"
  using assms by (auto simp: send_cases Let_def tx_holds_def frame_ok_def)

lemma arq_send_cases:
  assumes "arq_base s js" and "length p < 65536"
  obtains (refused) "arq_send type p t s = s"
    | (accepted) tx where "tx_state (a_tx s) = GOV_TX_IDLE" "length p \<le> GOV_MAX_PAYLOAD"
        "tx_state tx = GOV_TX_WAIT_ACK" "tx_inv tx"
        "tx_next_seq tx = of_nat (Suc (length (a_sent s)))"
        "tx_holds tx (Frame type (of_nat (length (a_sent s))) p)"
        "arq_send type p t s = s\<lparr> a_tx := tx,
           a_fwd := a_fwd s @ [frame_bytes (Frame type (of_nat (length (a_sent s))) p)],
           a_sent := a_sent s @ [Frame type (of_nat (length (a_sent s))) p] \<rparr>"
proof -
  let ?r = "gov_tx_send (a_tx s) type (Some p) (of_nat (length p)) t"
  have b: "tx_inv (a_tx s)" "tx_next_seq (a_tx s) = of_nat (length (a_sent s))"
    using assms(1) by (simp_all add: arq_base_def)
  have inv: "tx_inv (fst ?r)" using tx_step_inv [OF b(1), of "Tx_Send type p t"] assms(2)
    by (simp add: case_prod_beta)
  from send_accepted [OF b(1) assms(2), of type t] show thesis
  proof
    assume a: "tx_state (a_tx s) = GOV_TX_IDLE \<and> length p \<le> GOV_MAX_PAYLOAD \<and>
      fst (snd ?r) = [frame_bytes (Frame type (tx_next_seq (a_tx s)) p)] \<and>
      snd (snd ?r) = GOV_TX_OK \<and> tx_state (fst ?r) = GOV_TX_WAIT_ACK \<and>
      tx_next_seq (fst ?r) = tx_next_seq (a_tx s) + 1 \<and>
      tx_holds (fst ?r) (Frame type (tx_next_seq (a_tx s)) p)"
    show thesis
      by (rule accepted [of "fst ?r"]) (use a inv b(2) in
          \<open>simp_all add: arq_send_def case_prod_beta add.commute\<close>)
  next
    assume "fst ?r = a_tx s \<and> fst (snd ?r) = [] \<and> snd (snd ?r) \<noteq> GOV_TX_OK"
    then have "arq_send type p t s = s" by (simp add: arq_send_def case_prod_beta)
    then show thesis by (rule refused)
  qed
qed

lemma base_send:
  assumes "arq_base s js" and "is_known_type type" and "length p < 65536"
  shows "arq_base (arq_send type p t s) js"
  using assms(1,3)
proof (cases rule: arq_send_cases [where type = type and t = t])
  case refused
  with assms(1) show ?thesis by simp
next
  case (accepted tx)
  let ?n = "length (a_sent s)"
  let ?f = "Frame type (of_nat ?n) p"
  let ?h = "(!) (a_sent s @ [?f])"
  let ?S = "{i. i < ?n \<and> (js \<noteq> [] \<longrightarrow> last js \<le> i)}"
  let ?T = "{i. i < Suc ?n \<and> (js \<noteq> [] \<longrightarrow> last js \<le> i)}"
  have f: "deliverable ?f"
    using accepted(2) assms(2) by (simp add: deliverable_def frame_ok_def known_def)
  have "carried ?h (a_fwd s) ?S"
    by (rule carried_cong [of "(!) (a_sent s)"]) (use assms(1) in \<open>auto simp: arq_base_def nth_append\<close>)
  moreover have "?n \<in> ?T" using base_last [OF assms(1)] by force
  ultimately have fwd: "carried ?h (a_fwd s @ [frame_bytes ?f]) ?T"
    using carried_snoc [of ?h "a_fwd s" ?S ?n ?T] by force
  have sub: "set js \<subseteq> {..<?n}" using assms(1) by (simp add: arq_base_def)
  then have got: "map ?h js = map ((!) (a_sent s)) js" by (auto simp: nth_append)
  have all: "\<forall>i < Suc ?n. deliverable (?h i) \<and> f_seq (?h i) = of_nat i"
    using f assms(1) by (auto simp: arq_base_def nth_append less_Suc_eq)
  show ?thesis
    using assms(1) accepted(3-6) fwd got all sub unfolding accepted(7)
    by (auto simp: arq_base_def)
qed

lemma arq_recv_cases:
  assumes "arq_base s js" and "a_fwd s = v # vs"
  obtains (dropped) d where "dec_ready d" "carried ((!) (a_sent s)) vs (in_flight s js)"
      "arq_recv v (s\<lparr> a_fwd := vs \<rparr>) = s\<lparr> a_fwd := vs, a_dec := d \<rparr>"
    | (frame) k d rx where "k \<in> in_flight s js" "dec_ready d"
        "carried ((!) (a_sent s)) vs {j \<in> in_flight s js. k \<le> j}"
        "rx_last rx = Some (of_nat k)" "rx_wire rx" "rx_deliver rx"
        "arq_recv v (s\<lparr> a_fwd := vs \<rparr>) = s\<lparr> a_fwd := vs, a_dec := d, a_rx := rx,
           a_back := a_back s @ [frame_bytes (ack_of k)],
           a_got := a_got s @ (if rx_last (a_rx s) = Some (of_nat k) then [] else [a_sent s ! k]) \<rparr>"
proof -
  have b: "dec_ready (a_dec s)" "rx_wire (a_rx s)" "rx_deliver (a_rx s)"
      "carried ((!) (a_sent s)) (v # vs) (in_flight s js)"
    using assms by (simp_all add: arq_base_def)
  let ?d = "fst (run gov_decoder_push (a_dec s) v)"
  from b(4) show thesis
  proof (cases rule: carried_Cons)
    case 1
    then have "dec_ready ?d" "snd (run gov_decoder_push (a_dec s) v) = []"
      using b(1) by (simp_all add: harmless_def)
    then show thesis using 1(2) dropped [of ?d] by (simp add: arq_recv_def case_prod_beta)
  next
    case (2 k)
    let ?f = "a_sent s ! k"
    have f: "deliverable ?f" "f_seq ?f = of_nat k" using 2(1) assms(1) by (simp_all add: arq_base_def)
    have r: "dec_ready ?d" "snd (run gov_decoder_push (a_dec s) v) = [?f]"
      using link.feed_enc [OF b(1) f(1)] 2(2) by simp_all
    note x = rx_step [OF b(2,3), of ?f]
    show thesis
      by (rule frame [of k ?d "fst (gov_rx_on_frame (a_rx s) ?f)"])
        (use 2 r x f in \<open>simp_all add: arq_recv_def case_prod_beta ack_of_def\<close>)
  qed
qed

lemma ack_of_noise [simp]: "ack_or_noise (frame_bytes (ack_of k))"
  by (auto simp: ack_or_noise_def ack_of_def)

lemma base_recv:
  assumes "arq_base s js" and "a_fwd s = v # vs" and "s' = arq_recv v (s\<lparr> a_fwd := vs \<rparr>)"
  shows "a_tx s' = a_tx s \<and> a_sent s' = a_sent s \<and>
    (arq_base s' js \<and> a_back s' = a_back s \<and> a_got s' = a_got s \<or>
     (\<exists>k \<in> in_flight s js. a_back s' = a_back s @ [frame_bytes (ack_of k)] \<and>
        arq_base s' (if js \<noteq> [] \<and> of_nat (last js) = (of_nat k :: u8) then js else js @ [k])))"
  using assms(1,2)
proof (cases rule: arq_recv_cases)
  case (dropped d)
  then have "arq_base s' js" using assms by (simp add: arq_base_def)
  then show ?thesis unfolding assms(3) dropped(3) by simp
next
  case (frame k d rx)
  have last: "rx_last (a_rx s) = (if js = [] then None else Some (of_nat (last js)))"
    and sorted: "sorted_wrt (<) js"
    using assms(1) by (simp_all add: arq_base_def)
  have "arq_base s' (if js \<noteq> [] \<and> of_nat (last js) = (of_nat k :: u8) then js else js @ [k])"
  proof (cases "js \<noteq> [] \<and> of_nat (last js) = (of_nat k :: u8)")
    case True
    moreover have "carried ((!) (a_sent s)) vs (in_flight s js)" using frame(3) by (rule carried_mono) auto
    ultimately show ?thesis using assms(1,3) frame last by (simp add: arq_base_def)
  next
    case False
    then have "js \<noteq> [] \<Longrightarrow> last js < k" using frame(1) by (auto simp: order.order_iff_strict)
    then have "sorted_wrt (<) (js @ [k])"
      using sorted by (cases js rule: rev_cases) (auto simp: sorted_wrt_append)
    moreover have "{j \<in> in_flight s js. k \<le> j} = {i. i < length (a_sent s) \<and> k \<le> i}"
      using frame(1) by auto
    moreover have "rx_last (a_rx s) \<noteq> Some (of_nat k)" using False last by auto
    ultimately show ?thesis using assms(1,3) frame False by (auto simp: arq_base_def)
  qed
  with frame(1) show ?thesis unfolding assms(3) frame(7) by auto
qed

lemma take_ack_keeps:
  "tx_inv tx \<Longrightarrow> tx_inv (take_ack tx f)"
  "tx_next_seq (take_ack tx f) = tx_next_seq tx" "tx_holds (take_ack tx f) g = tx_holds tx g"
  "tx_state tx = GOV_TX_IDLE \<Longrightarrow> tx_state (take_ack tx f) = GOV_TX_IDLE"
  by (auto simp: take_ack_def gov_tx_on_ack_def tx_inv_def tx_holds_def split: if_splits)

lemma base_ack:
  assumes "arq_base s js" and "a_back s = v # vs"
  shows "arq_base (arq_ack v (s\<lparr> a_back := vs \<rparr>)) js"
proof -
  let ?r = "run gov_decoder_push (a_ackdec s) v"
  have b: "dec_ready (a_ackdec s)" "ack_or_noise v" using assms by (simp_all add: arq_base_def)
  have r: "dec_ready (fst ?r)"
    using b link.feed_enc [OF b(1) deliverable_ack] by (auto simp: ack_or_noise_def harmless_def)
  let ?tx = "foldl take_ack (a_tx s) (snd ?r)"
  have keep: "(tx_inv (a_tx s) \<longrightarrow> tx_inv (foldl take_ack (a_tx s) fs)) \<and>
      tx_next_seq (foldl take_ack (a_tx s) fs) = tx_next_seq (a_tx s) \<and>
      (\<forall>g. tx_holds (foldl take_ack (a_tx s) fs) g = tx_holds (a_tx s) g) \<and>
      (tx_state (foldl take_ack (a_tx s) fs) \<noteq> GOV_TX_IDLE \<longrightarrow> tx_state (a_tx s) \<noteq> GOV_TX_IDLE)" for fs
    by (induction fs rule: rev_induct) (auto simp: take_ack_keeps)
  show ?thesis
    using assms r keep [of "snd ?r"] by (simp add: arq_base_def arq_ack_def case_prod_beta)
qed

lemma noise_damaged: "damaged vs ws \<Longrightarrow> \<forall>v \<in> set vs. ack_or_noise v \<Longrightarrow> \<forall>v \<in> set ws. ack_or_noise v"
  by (erule damaged.cases) (auto simp: ack_or_noise_def)

lemma base_damaged:
  assumes "arq_base s js"
  shows "damaged (a_fwd s) vs \<Longrightarrow> arq_base (s\<lparr> a_fwd := vs \<rparr>) js"
    and "damaged (a_back s) ws \<Longrightarrow> arq_base (s\<lparr> a_back := ws \<rparr>) js"
  using assms carried_damaged noise_damaged by (auto simp: arq_base_def)

lemma base_step:
  assumes "arq_step clr s s'" and "arq_base s js"
  shows "\<exists>js'. arq_base s' js'"
  using assms(1)
proof cases
  case (send type p t)
  with assms(2) base_send show ?thesis by blast
next
  case (poll t)
  with assms(2) base_poll show ?thesis by blast
next
  case (recv v vs)
  then show ?thesis using base_recv [OF assms(2) recv(2) recv(1)] by blast
next
  case (ack v vs)
  with assms(2) base_ack show ?thesis by blast
next
  case (bad_fwd vs)
  with base_damaged(1) [OF assms(2)] show ?thesis by blast
next
  case (bad_back vs)
  with base_damaged(2) [OF assms(2)] show ?thesis by blast
next
  case clear
  with assms(2) have "arq_base s' js"
    by (auto simp: arq_base_def gov_tx_clear_fault_def tx_inv_def tx_holds_def)
  then show ?thesis ..
qed

lemma base_reach: "arq_reach clr s \<Longrightarrow> \<exists>js. arq_base s js"
  unfolding arq_reach_def
  by (induction rule: rtranclp_induct) (use base_init base_step in blast)+

section \<open>The strict invariant\<close>

lemma arq_ack_cases:
  assumes "dec_ready (a_ackdec s)" and "carried ack_of (v # vs) S"
  obtains (dropped) d where "dec_ready d" "carried ack_of vs S" "arq_ack v s = s\<lparr> a_ackdec := d \<rparr>"
    | (frame) k d where "k \<in> S" "dec_ready d" "carried ack_of vs {j \<in> S. k \<le> j}"
        "arq_ack v s = s\<lparr> a_ackdec := d, a_tx := gov_tx_on_ack (a_tx s) (of_nat k) \<rparr>"
proof -
  let ?d = "fst (run gov_decoder_push (a_ackdec s) v)"
  from assms(2) show thesis
  proof (cases rule: carried_Cons)
    case 1
    then have "dec_ready ?d" "snd (run gov_decoder_push (a_ackdec s) v) = []"
      using assms(1) by (simp_all add: harmless_def)
    then show thesis using 1(2) dropped [of ?d] by (simp add: arq_ack_def case_prod_beta)
  next
    case (2 k)
    have "dec_ready ?d" "snd (run gov_decoder_push (a_ackdec s) v) = [ack_of k]"
      using link.feed_enc [OF assms(1) deliverable_ack] 2(2) by (simp_all add: ack_of_def)
    then show thesis using 2 frame [of k ?d]
      by (simp add: arq_ack_def case_prod_beta take_ack_def ack_of_def ack_frame_def)
  qed
qed

lemma strict_recv:
  assumes "arq_strict s" and "a_fwd s = v # vs"
  shows "arq_strict (arq_recv v (s\<lparr> a_fwd := vs \<rparr>))"
proof -
  let ?s = "arq_recv v (s\<lparr> a_fwd := vs \<rparr>)"
  define n m where "n = length (a_sent s)" and "m = length (a_got s)"
  let ?S = "\<lambda>m. {j. j < m \<and> n \<le> j + 2 \<and> (tx_state (a_tx s) = GOV_TX_IDLE \<longrightarrow> n \<le> j + 1)}"
  have b: "arq_base s [0..<m]" "m \<le> n" "n \<le> Suc m" "tx_state (a_tx s) = GOV_TX_IDLE \<longrightarrow> m = n"
      "carried ack_of (a_back s) (?S m)"
    using assms(1) by (simp_all add: arq_strict_def Let_def n_def m_def)
  note r = base_recv [OF b(1) assms(2) refl]
  have tx: "a_tx ?s = a_tx s" "a_sent ?s = a_sent s" using r by simp_all
  from r consider "arq_base ?s [0..<m]" "a_back ?s = a_back s" "a_got ?s = a_got s"
    | k where "k \<in> in_flight s [0..<m]" "a_back ?s = a_back s @ [frame_bytes (ack_of k)]"
        "arq_base ?s (if [0..<m] \<noteq> [] \<and> of_nat (last [0..<m]) = (of_nat k :: u8) then [0..<m] else [0..<m] @ [k])"
    by blast
  then show ?thesis
  proof cases
    case 1
    with b tx show ?thesis by (simp add: arq_strict_def n_def m_def)
  next
    case (2 k)
    have k: "k < n" "m \<le> Suc k" using 2(1) by (auto simp: n_def last_upt split: if_splits)
    define m' where "m' = (if k = m then Suc m else m)"
    have "k = m" if "0 < m" "of_nat (m - 1) \<noteq> (of_nat k :: u8)"
      using that k b(3) by (cases "k = m - 1") auto
    moreover have "k = m - 1" if "0 < m" "of_nat (m - 1) = (of_nat k :: u8)"
    proof -
      have "m - 1 \<le> Suc k" "k \<le> Suc (m - 1)" using k b(3) that(1) by auto
      with of_nat_u8_near [OF that(2)] show ?thesis by simp
    qed
    ultimately have js: "arq_base ?s [0..<m']"
    proof (cases "m = 0")
      case True
      then have "k = 0" using k b(3) by simp
      with 2(3) True show ?thesis by (simp add: m'_def)
    next
      case False
      assume new: "\<lbrakk>0 < m; of_nat (m - 1) \<noteq> (of_nat k :: u8)\<rbrakk> \<Longrightarrow> k = m"
        and old: "\<lbrakk>0 < m; of_nat (m - 1) = (of_nat k :: u8)\<rbrakk> \<Longrightarrow> k = m - 1"
      show ?thesis
        using 2(3) False new old by (cases "of_nat (m - 1) = (of_nat k :: u8)") (auto simp: m'_def last_upt)
    qed
    then have got: "length (a_got ?s) = m'" by (simp add: arq_base_def)
    have km: "k < m'" using k b(3) by (auto simp: m'_def)
    have "carried ack_of (a_back ?s) (?S m')"
      unfolding 2(2) by (rule carried_snoc [OF b(5)]) (use k b(2-4) km in \<open>auto simp: m'_def\<close>)
    then show ?thesis
      using b k js got tx by (auto simp: arq_strict_def Let_def n_def [symmetric] m'_def)
  qed
qed

lemma strict_ack:
  assumes "arq_strict s" and "a_back s = v # vs"
  shows "arq_strict (arq_ack v (s\<lparr> a_back := vs \<rparr>))"
proof -
  let ?s = "s\<lparr> a_back := vs \<rparr>"
  define n m where "n = length (a_sent s)" and "m = length (a_got s)"
  let ?S = "{j. j < m \<and> n \<le> j + 2 \<and> (tx_state (a_tx s) = GOV_TX_IDLE \<longrightarrow> n \<le> j + 1)}"
  have b: "arq_base s [0..<m]" "m \<le> n" "n \<le> Suc m" "tx_state (a_tx s) = GOV_TX_IDLE \<longrightarrow> m = n"
      "carried ack_of (v # vs) ?S"
    using assms by (simp_all add: arq_strict_def Let_def n_def m_def)
  have base: "arq_base (arq_ack v ?s) [0..<m]" using base_ack [OF b(1) assms(2)] .
  have "dec_ready (a_ackdec ?s)" using b(1) by (simp add: arq_base_def)
  then show ?thesis using b(5)
  proof (cases rule: arq_ack_cases)
    case (dropped d)
    with b base show ?thesis by (simp add: arq_strict_def Let_def n_def m_def)
  next
    case (frame k d)
    show ?thesis
    proof (cases "tx_state (a_tx s) = GOV_TX_WAIT_ACK \<and> of_nat k = tx_cur_seq (a_tx s)")
      case True
      have "tx_cur_seq (a_tx s) = of_nat (n - 1)" "0 < n"
        using True b(1) by (auto simp: arq_base_def tx_holds_def n_def last_conv_nth)
      with True have "k = n - 1" using of_nat_u8_near [of k "n - 1"] frame(1) b(2) by auto
      with frame(1) b(2) \<open>0 < n\<close> have "m = n" "{j \<in> ?S. k \<le> j} \<subseteq> {j. j < m \<and> n \<le> j + 2 \<and> n \<le> j + 1}"
        by auto
      then show ?thesis
        using carried_mono [OF frame(3)] base True frame(4)
        by (simp add: arq_strict_def Let_def n_def [symmetric] m_def [symmetric] gov_tx_on_ack_def)
    next
      case False
      then have "gov_tx_on_ack (a_tx ?s) (of_nat k) = a_tx s" by (auto simp: gov_tx_on_ack_def)
      moreover have "carried ack_of vs ?S" using frame(3) by (rule carried_mono) auto
      ultimately show ?thesis using b base frame(4)
        by (simp add: arq_strict_def Let_def n_def [symmetric] m_def [symmetric])
    qed
  qed
qed

lemma strict_send:
  assumes "arq_strict s" and "is_known_type type" and "length p < 65536"
  shows "arq_strict (arq_send type p t s)"
proof -
  define n m where "n = length (a_sent s)" and "m = length (a_got s)"
  have b: "arq_base s [0..<m]" "tx_state (a_tx s) = GOV_TX_IDLE \<longrightarrow> m = n"
    using assms(1) by (simp_all add: arq_strict_def Let_def n_def m_def)
  show ?thesis using b(1) assms(3)
  proof (cases rule: arq_send_cases [where type = type and t = t])
    case refused
    with assms(1) show ?thesis by simp
  next
    case (accepted tx)
    then have mn: "m = n" using b(2) by simp
    have "carried ack_of (a_back s) {j. j < m \<and> n \<le> j + 2 \<and> n \<le> j + 1}"
      using assms(1) accepted(1) unfolding arq_strict_def Let_def n_def m_def by simp metis
    then have "carried ack_of (a_back s) {j. j < m \<and> Suc n \<le> j + 2}"
      by (rule carried_mono) auto
    with base_send [OF b(1) assms(2,3), of t] accepted mn show ?thesis
      by (simp add: arq_strict_def Let_def n_def [symmetric] m_def [symmetric])
  qed
qed

lemma strict_poll:
  assumes "arq_strict s"
  shows "arq_strict (arq_poll t s)"
proof -
  have "tx_state (fst (gov_tx_poll (a_tx s) t)) = GOV_TX_IDLE \<longleftrightarrow> tx_state (a_tx s) = GOV_TX_IDLE"
    by (auto simp: gov_tx_poll_def Let_def)
  moreover have "arq_base (arq_poll t s) [0..<length (a_got s)]"
    using assms by (intro base_poll) (simp add: arq_strict_def Let_def)
  ultimately show ?thesis using assms by (simp add: arq_strict_def arq_poll_def case_prod_beta Let_def)
qed

lemma strict_step:
  assumes "arq_step False s s'" and "arq_strict s"
  shows "arq_strict s'"
  using assms(1)
proof cases
  case (bad_fwd vs)
  with assms(2) base_damaged(1) show ?thesis by (simp add: arq_strict_def Let_def)
next
  case (bad_back vs)
  with assms(2) base_damaged(2) carried_damaged show ?thesis by (simp add: arq_strict_def Let_def)
next
  case (send type p t)
  with strict_send [OF assms(2)] show ?thesis by simp
next
  case (poll t)
  with strict_poll [OF assms(2)] show ?thesis by simp
next
  case (recv v vs)
  with strict_recv [OF assms(2)] show ?thesis by simp
next
  case (ack v vs)
  with strict_ack [OF assms(2)] show ?thesis by simp
qed simp

lemma strict_reach: "arq_reach False s \<Longrightarrow> arq_strict s"
  unfolding arq_reach_def
proof (induction rule: rtranclp_induct)
  case base
  show ?case using base_init by (simp add: arq_strict_def arq_init_def)
next
  case (step s s')
  then show ?case using strict_step by blast
qed

lemma strict_prefix:
  assumes "arq_strict s"
  shows "a_got s = take (length (a_got s)) (a_sent s)" and "length (a_got s) \<le> length (a_sent s)"
    and "tx_state (a_tx s) = GOV_TX_IDLE \<Longrightarrow> a_got s = a_sent s"
proof -
  obtain m where m: "a_got s = map ((!) (a_sent s)) [0..<m]" "m \<le> length (a_sent s)"
      "tx_state (a_tx s) = GOV_TX_IDLE \<longrightarrow> m = length (a_sent s)" "m = length (a_got s)"
    using assms by (simp add: arq_strict_def arq_base_def Let_def)
  have "map ((!) (a_sent s)) [0..<m] = take m (a_sent s)"
    using m(2) by (intro nth_equalityI) auto
  with m show "a_got s = take (length (a_got s)) (a_sent s)" "length (a_got s) \<le> length (a_sent s)"
    and "tx_state (a_tx s) = GOV_TX_IDLE \<Longrightarrow> a_got s = a_sent s"
    by simp_all
qed

section \<open>Corruption that the checksum detects\<close>

lemma detected_harmless:
  assumes "frame_ok f" and "c = gov_crc16_ccitt GOV_CRC_INIT (frame_body f)"
    and "length v = length (frame_body f) + 2" and "v ! 0 = GOV_VER"
    and "declared_len v = length (f_payload f)"
    and "e = flips (frame_body f @ crc_bytes c) v"
    and "odd_weight e \<or> short_burst e \<or> double_bit 576 e"
  shows "harmless (GOV_SOF # v)"
proof -
  have "judge v = Bad_Crc" using assms by (rule corrupted_judged)
  then have "run spec_push Hunting (GOV_SOF # v) = (Hunting, [Bad_Crc])"
    using collect_full [of v] assms(1,3-5) by (simp add: frame_ok_def)
  then show ?thesis
    using run_refines [of _ Hunting "GOV_SOF # v"]
    by (simp add: harmless_def dec_ready_def del: fst_run_Cons snd_run_Cons)
qed

section \<open>Progress\<close>

text \<open>When the channels work, one retransmission completes the exchange.\<close>

lemma exchange_completes:
  assumes "arq_strict s" and "tx_state (a_tx s) = GOV_TX_WAIT_ACK"
    and "tx_retries (a_tx s) < GOV_MAX_RETRIES" and "a_fwd s = []" and "a_back s = []"
    and "t - tx_last_tx_ms (a_tx s) \<ge> GOV_ACK_TIMEOUT_MS"
  shows "\<exists>s'. (arq_step clr)\<^sup>*\<^sup>* s s' \<and> tx_state (a_tx s') = GOV_TX_IDLE \<and> a_got s' = a_sent s \<and>
    a_sent s' = a_sent s"
proof -
  define n where "n = length (a_sent s)"
  have b: "arq_base s [0..<length (a_got s)]" using assms(1) by (simp add: arq_strict_def Let_def)
  then have h: "a_sent s \<noteq> []" "tx_holds (a_tx s) (last (a_sent s))"
    using assms(2) by (simp_all add: arq_base_def)
  let ?v = "frame_bytes (a_sent s ! (n - 1))"
  have n: "0 < n" "last (a_sent s) = a_sent s ! (n - 1)" using h(1) by (simp_all add: n_def last_conv_nth)
  define s1 where "s1 = arq_poll t s"
  have "tx_step (a_tx s) (Tx_Poll t) =
      ((a_tx s)\<lparr> tx_retries := tx_retries (a_tx s) + 1, tx_last_tx_ms := t \<rparr>, [?v])"
    using poll_retransmits [OF assms(2) h(2) assms(6,3)] n(2) by simp
  then have s1: "a_fwd s1 = [?v]" "a_back s1 = []" "a_sent s1 = a_sent s"
      "tx_state (a_tx s1) = GOV_TX_WAIT_ACK"
    using assms(2,4,5) by (auto simp: s1_def arq_poll_def case_prod_beta)
  have st1: "arq_strict s1" using strict_poll [OF assms(1)] by (simp add: s1_def)
  define s2 where "s2 = arq_recv ?v (s1\<lparr> a_fwd := [] \<rparr>)"
  have st2: "arq_strict s2" using strict_recv [OF st1 s1(1)] by (simp add: s2_def)
  have b1: "arq_base s1 [0..<length (a_got s1)]" using st1 by (simp add: arq_strict_def Let_def)
  have "deliverable (a_sent s ! (n - 1))" "f_seq (a_sent s ! (n - 1)) = of_nat (n - 1)"
    using b n(1) by (simp_all add: arq_base_def n_def)
  then have s2: "a_back s2 = [frame_bytes (ack_of (n - 1))]" "a_fwd s2 = []" "a_sent s2 = a_sent s"
      "tx_state (a_tx s2) = GOV_TX_WAIT_ACK" "a_tx s2 = a_tx s1"
    using b1 s1 link.feed_enc [of "a_dec s1" "a_sent s ! (n - 1)"] rx_step [of "a_rx s1" "a_sent s ! (n - 1)"]
    by (auto simp: s2_def arq_recv_def case_prod_beta arq_base_def ack_of_def)
  define s3 where "s3 = arq_ack (frame_bytes (ack_of (n - 1))) (s2\<lparr> a_back := [] \<rparr>)"
  have st3: "arq_strict s3" using strict_ack [OF st2 s2(1)] by (simp add: s3_def)
  have b2: "arq_base s2 [0..<length (a_got s2)]" using st2 by (simp add: arq_strict_def Let_def)
  have "tx_cur_seq (a_tx s2) = of_nat (n - 1)"
    using b2 s2(3,4) n by (auto simp: arq_base_def tx_holds_def n_def)
  then have s3: "tx_state (a_tx s3) = GOV_TX_IDLE" "a_sent s3 = a_sent s"
    using b2 s2(3,4) link.feed_enc [of "a_ackdec s2" "ack_frame (of_nat (n - 1))"] deliverable_ack
    by (auto simp: s3_def arq_ack_def case_prod_beta arq_base_def ack_of_def take_ack_def ack_frame_def
        gov_tx_on_ack_def)
  have "a_got s3 = a_sent s" using strict_prefix(3) [OF st3] s3 by simp
  moreover have "(arq_step clr)\<^sup>*\<^sup>* s s3"
  proof -
    have "arq_step clr s s1" unfolding s1_def by (rule arq_step.poll)
    moreover have "arq_step clr s1 s2" unfolding s2_def using s1(1) by (rule arq_step.recv)
    moreover have "arq_step clr s2 s3" unfolding s3_def using s2(1) by (rule arq_step.ack)
    ultimately show ?thesis by (meson rtranclp.rtrancl_refl rtranclp.rtrancl_into_rtrancl)
  qed
  ultimately show ?thesis using s3 by blast
qed

section \<open>Properties\<close>

text \<open>
  Exactly once, in order: on a channel that may lose, repeat and corrupt but not reorder,
  as long as a link fault is not cleared, the frames delivered at the receiver are those sent, in
  order and without repetition, up to the last one, which may be missing while the sender waits.
  Once the sender is idle every frame sent was delivered.
\<close>

theorem arq_exactly_once:
  assumes "arq_reach False s"
  shows "a_got s = take (length (a_got s)) (a_sent s) \<and>
    length (a_sent s) \<le> Suc (length (a_got s)) \<and>
    (tx_state (a_tx s) = GOV_TX_IDLE \<longrightarrow> a_got s = a_sent s)"
proof -
  have s: "arq_strict s" using assms by (rule strict_reach)
  then have "length (a_sent s) \<le> Suc (length (a_got s))" by (simp add: arq_strict_def Let_def)
  with strict_prefix [OF s] show ?thesis by blast
qed

lemma reach_send:
  "is_known_type type \<Longrightarrow> length p < 65536 \<Longrightarrow> arq_reach clr (arq_send type p t arq_init)"
  unfolding arq_reach_def by (intro r_into_rtranclp arq_step.send)

lemma known_data: "is_known_type 1"
  by (simp add: is_known_type_def GOV_TYPE_DATA_def)

theorem arq_exactly_once_witness:
  "a_got (arq_send 1 [7] 0 arq_init) =
     take (length (a_got (arq_send 1 [7] 0 arq_init))) (a_sent (arq_send 1 [7] 0 arq_init))"
  using arq_exactly_once [OF reach_send [of 1 "[7]" False 0]] known_data by simp

text \<open>
  At most once, in order: when the link task also clears link faults, as the firmware does,
  frames may be missing, but those delivered are still a subsequence of those sent, in order and
  each delivered once.
\<close>

theorem arq_at_most_once:
  assumes "arq_reach clr s"
  shows "\<exists>js. sorted_wrt (<) js \<and> set js \<subseteq> {..<length (a_sent s)} \<and> a_got s = map ((!) (a_sent s)) js"
proof -
  obtain js where "arq_base s js" using base_reach [OF assms] ..
  then show ?thesis by (auto simp: arq_base_def)
qed

theorem arq_at_most_once_witness:
  "\<exists>js. sorted_wrt (<) js \<and> set js \<subseteq> {..<length (a_sent (arq_send 1 [7] 0 arq_init))} \<and>
     a_got (arq_send 1 [7] 0 arq_init) = map ((!) (a_sent (arq_send 1 [7] 0 arq_init))) js"
  using arq_at_most_once [OF reach_send [of 1 "[7]" True 0]] known_data by simp

text \<open>
  Progress: from every reachable state in which a frame is outstanding, its transmissions
  were lost and a retry is left, the timeout and one undisturbed exchange make the sender idle
  with every frame delivered.
\<close>

theorem arq_progress:
  assumes "arq_reach False s" and "tx_state (a_tx s) = GOV_TX_WAIT_ACK"
    and "tx_retries (a_tx s) < GOV_MAX_RETRIES" and "a_fwd s = []" and "a_back s = []"
  shows "\<exists>s'. (arq_step False)\<^sup>*\<^sup>* s s' \<and> tx_state (a_tx s') = GOV_TX_IDLE \<and>
    a_got s' = a_sent s \<and> a_sent s' = a_sent s"
proof (rule exchange_completes [OF _ assms(2-5)])
  show "arq_strict s" using assms(1) by (rule strict_reach)
  show "tx_last_tx_ms (a_tx s) + 100 - tx_last_tx_ms (a_tx s) \<ge> GOV_ACK_TIMEOUT_MS"
    by (simp add: GOV_ACK_TIMEOUT_MS_def)
qed

theorem arq_progress_witness:
  "\<exists>s'. (arq_step False)\<^sup>*\<^sup>* ((arq_send 1 [7] 0 arq_init)\<lparr> a_fwd := [] \<rparr>) s' \<and>
     tx_state (a_tx s') = GOV_TX_IDLE \<and> a_got s' = a_sent s' \<and> length (a_sent s') = 1"
proof -
  let ?s0 = "arq_send 1 [7] 0 arq_init" and ?f = "Frame 1 0 [7]"
  have z: "tx_state (gov_tx_init True) = GOV_TX_IDLE" "tx_next_seq (gov_tx_init True) = 0"
    by (simp_all add: gov_tx_init_def)
  have s0: "a_fwd ?s0 = [frame_bytes ?f]" "a_back ?s0 = []" "a_sent ?s0 = [?f]"
      "tx_state (a_tx ?s0) = GOV_TX_WAIT_ACK" "tx_retries (a_tx ?s0) = 0"
    using send_cases [OF tx_init_inv, of "[7]" 1 0] z
    by (simp_all add: arq_send_def arq_init_def Let_def GOV_MAX_PAYLOAD_def)
  have "arq_step False ?s0 (?s0\<lparr> a_fwd := [] \<rparr>)"
    using damaged.lose [of "[]" "frame_bytes ?f" "[]"] s0(1) by (intro arq_step.bad_fwd) simp
  with reach_send [OF known_data, of "[7]" False 0] have "arq_reach False (?s0\<lparr> a_fwd := [] \<rparr>)"
    by (auto simp: arq_reach_def intro: rtranclp.rtrancl_into_rtrancl)
  from arq_progress [OF this] s0 show ?thesis by (auto simp: GOV_MAX_RETRIES_def)
qed

end
