(* ===== verification/Gov_Faults.thy ===== *)
theory Gov_Faults
  imports Gov_Prelude
begin

text \<open>
  The fault-flag layout of \<^verbatim>\<open>lib/common/gov_faults.h\<close>: one 32-bit mask shared by the safety
  state machine, the coordinator and the telemetry records. \<^verbatim>\<open>1u << n\<close> is \<open>push_bit n 1\<close>.
\<close>

definition GOV_FAULT_NONE :: u32 where "GOV_FAULT_NONE = 0"
definition GOV_FAULT_SENSOR_DROP :: u32 where "GOV_FAULT_SENSOR_DROP = push_bit 0 1"
definition GOV_FAULT_SENSOR_STUCK :: u32 where "GOV_FAULT_SENSOR_STUCK = push_bit 1 1"
definition GOV_FAULT_SENSOR_RANGE :: u32 where "GOV_FAULT_SENSOR_RANGE = push_bit 2 1"
definition GOV_FAULT_BUS_NAK :: u32 where "GOV_FAULT_BUS_NAK = push_bit 3 1"
definition GOV_FAULT_BUS_ERR :: u32 where "GOV_FAULT_BUS_ERR = push_bit 4 1"
definition GOV_FAULT_LINK :: u32 where "GOV_FAULT_LINK = push_bit 5 1"
definition GOV_FAULT_DIVERGE :: u32 where "GOV_FAULT_DIVERGE = push_bit 6 1"
definition GOV_FAULT_TIMING :: u32 where "GOV_FAULT_TIMING = push_bit 7 1"
definition GOV_FAULT_WATCHDOG :: u32 where "GOV_FAULT_WATCHDOG = push_bit 8 1"
definition GOV_FAULT_OPERATOR_STOP :: u32 where "GOV_FAULT_OPERATOR_STOP = push_bit 9 1"
definition GOV_FAULT_INIT :: u32 where "GOV_FAULT_INIT = push_bit 10 1"
definition GOV_FAULT_ESCALATED :: u32 where "GOV_FAULT_ESCALATED = push_bit 11 1"
definition GOV_FAULT_INTERNAL :: u32 where "GOV_FAULT_INTERNAL = push_bit 12 1"
definition GOV_FAULT_SENSOR_ACTIVE :: u32 where "GOV_FAULT_SENSOR_ACTIVE = push_bit 13 1"

definition GOV_FAULT_SENSOR_ANY :: u32 where
  "GOV_FAULT_SENSOR_ANY =
     GOV_FAULT_SENSOR_DROP OR GOV_FAULT_SENSOR_STUCK OR GOV_FAULT_SENSOR_RANGE"

definition GOV_FAULT_SENSOR_ANY_DRIVER :: u32 where
  "GOV_FAULT_SENSOR_ANY_DRIVER = GOV_FAULT_SENSOR_ANY OR GOV_FAULT_BUS_NAK OR GOV_FAULT_BUS_ERR"

definition GOV_FAULT_ALL :: u32 where
  "GOV_FAULT_ALL =
     GOV_FAULT_SENSOR_DROP OR GOV_FAULT_SENSOR_STUCK OR GOV_FAULT_SENSOR_RANGE OR
     GOV_FAULT_BUS_NAK OR GOV_FAULT_BUS_ERR OR GOV_FAULT_LINK OR GOV_FAULT_DIVERGE OR
     GOV_FAULT_TIMING OR GOV_FAULT_WATCHDOG OR GOV_FAULT_OPERATOR_STOP OR GOV_FAULT_INIT OR
     GOV_FAULT_ESCALATED OR GOV_FAULT_INTERNAL OR GOV_FAULT_SENSOR_ACTIVE"

text \<open>A flag is raised in a fault word when the two share a bit.\<close>

definition raised :: "u32 \<Rightarrow> u32 \<Rightarrow> bool" where
  "raised flag faults \<longleftrightarrow> faults AND flag \<noteq> 0"

section \<open>The numeric values\<close>

lemma fault_values [gov_defs]:
  "GOV_FAULT_NONE = 0" "GOV_FAULT_SENSOR_DROP = 1" "GOV_FAULT_SENSOR_STUCK = 2"
  "GOV_FAULT_SENSOR_RANGE = 4" "GOV_FAULT_BUS_NAK = 8" "GOV_FAULT_BUS_ERR = 16"
  "GOV_FAULT_LINK = 32" "GOV_FAULT_DIVERGE = 64" "GOV_FAULT_TIMING = 128"
  "GOV_FAULT_WATCHDOG = 256" "GOV_FAULT_OPERATOR_STOP = 512" "GOV_FAULT_INIT = 1024"
  "GOV_FAULT_ESCALATED = 2048" "GOV_FAULT_INTERNAL = 4096" "GOV_FAULT_SENSOR_ACTIVE = 8192"
  "GOV_FAULT_SENSOR_ANY = 7" "GOV_FAULT_SENSOR_ANY_DRIVER = 31" "GOV_FAULT_ALL = 16383"
  by (simp_all add: GOV_FAULT_NONE_def GOV_FAULT_SENSOR_DROP_def GOV_FAULT_SENSOR_STUCK_def
      GOV_FAULT_SENSOR_RANGE_def GOV_FAULT_BUS_NAK_def GOV_FAULT_BUS_ERR_def GOV_FAULT_LINK_def
      GOV_FAULT_DIVERGE_def GOV_FAULT_TIMING_def GOV_FAULT_WATCHDOG_def
      GOV_FAULT_OPERATOR_STOP_def GOV_FAULT_INIT_def GOV_FAULT_ESCALATED_def
      GOV_FAULT_INTERNAL_def GOV_FAULT_SENSOR_ACTIVE_def GOV_FAULT_SENSOR_ANY_def
      GOV_FAULT_SENSOR_ANY_DRIVER_def GOV_FAULT_ALL_def)

section \<open>Raising a flag\<close>

lemma raised_OR: "raised f (a OR b) \<longleftrightarrow> raised f a \<or> raised f b"
  by (auto simp: raised_def bit.conj_disj_distrib2 word_OR_eq_zero_iff)

lemma raised_zero [simp]: "\<not> raised f 0"
  by (simp add: raised_def)

lemma raised_self: "f \<noteq> 0 \<Longrightarrow> raised f f"
  by (simp add: raised_def)

lemma raised_mono: "raised f a \<Longrightarrow> bits_in f g \<Longrightarrow> raised g a"
  by (auto simp: raised_def bits_in_iff bit_eq_iff bit_simps)

lemma raised_bits_in: "raised f a \<Longrightarrow> bits_in a b \<Longrightarrow> raised f b"
  by (auto simp: raised_def bits_in_iff bit_eq_iff bit_simps)

end
