(* ===== verification/Gov_Telem.thy ===== *)
theory Gov_Telem
  imports Gov_Faults
begin

text \<open>
  Telemetry payloads, \<^verbatim>\<open>lib/telem/telem.h\<close> and \<^verbatim>\<open>lib/telem/telem.c\<close>: the telemetry record and the
  heartbeat, written big-endian into a buffer of the caller and read back. A cursor is the
  position returned beside the buffer. The two encodings are interpretations of one interface,
  \<open>codec\<close>.
\<close>

section \<open>Types\<close>

record gov_telem_record =
  t_tick :: u32
  t_setpoint :: i32
  t_measurement :: i32
  t_output :: i32
  t_state :: u8
  t_fault_flags :: u32

definition GOV_TELEM_DATA_LEN :: nat where [gov_defs]: "GOV_TELEM_DATA_LEN = 21"

record gov_heartbeat =
  hb_state :: u8
  hb_fault_flags :: u32
  hb_uptime_count :: u32

definition GOV_TELEM_HEARTBEAT_LEN :: nat where [gov_defs]: "GOV_TELEM_HEARTBEAT_LEN = 9"

section \<open>The code\<close>

definition put_u32 :: "u8 list \<Rightarrow> nat \<Rightarrow> u32 \<Rightarrow> u8 list \<times> nat" where
  "put_u32 buf pos v =
     (buf[pos + 0 := ucast (drop_bit 24 v AND 0xFF), pos + 1 := ucast (drop_bit 16 v AND 0xFF),
          pos + 2 := ucast (drop_bit 8 v AND 0xFF), pos + 3 := ucast (v AND 0xFF)], pos + 4)"

definition get_u32 :: "u8 list \<Rightarrow> nat \<Rightarrow> u32 \<times> nat" where
  "get_u32 buf pos =
     (push_bit 24 (ucast (buf ! (pos + 0))) OR push_bit 16 (ucast (buf ! (pos + 1))) OR
      push_bit 8 (ucast (buf ! (pos + 2))) OR ucast (buf ! (pos + 3)), pos + 4)"

text \<open>A signed value is its bit pattern, so the casts of the code are the identity here.\<close>

definition put_i32 :: "u8 list \<Rightarrow> nat \<Rightarrow> i32 \<Rightarrow> u8 list \<times> nat" where
  "put_i32 buf pos v = put_u32 buf pos v"

definition get_i32 :: "u8 list \<Rightarrow> nat \<Rightarrow> i32 \<times> nat" where
  "get_i32 buf pos = get_u32 buf pos"

definition gov_telem_encode ::
  "gov_telem_record ptr \<Rightarrow> u8 list ptr \<Rightarrow> nat \<Rightarrow> u8 list ptr \<times> nat" where
  "gov_telem_encode rec out out_cap =
     (case (rec, out) of
        (Some r, Some b0) \<Rightarrow>
          if out_cap < GOV_TELEM_DATA_LEN then (Some b0, 0)
          else
            let (b1, pos) = put_u32 b0 0 (t_tick r);
                (b2, pos) = put_i32 b1 pos (t_setpoint r);
                (b3, pos) = put_i32 b2 pos (t_measurement r);
                (b4, pos) = put_i32 b3 pos (t_output r);
                b5 = b4[pos := t_state r];
                pos = pos + 1;
                (b6, pos) = put_u32 b5 pos (t_fault_flags r)
            in (Some b6, pos)
      | _ \<Rightarrow> (out, 0))"

definition gov_telem_decode ::
  "u8 list ptr \<Rightarrow> nat \<Rightarrow> gov_telem_record ptr \<Rightarrow> gov_telem_record ptr \<times> bool" where
  "gov_telem_decode inp len rec =
     (case (inp, rec) of
        (Some b, Some r) \<Rightarrow>
          if len < GOV_TELEM_DATA_LEN then (Some r, False)
          else
            let (tick, pos) = get_u32 b 0;
                (setpoint, pos) = get_i32 b pos;
                (measurement, pos) = get_i32 b pos;
                (output, pos) = get_i32 b pos;
                state = b ! pos;
                pos = pos + 1;
                (fault_flags, pos) = get_u32 b pos
            in (Some (r\<lparr> t_tick := tick, t_setpoint := setpoint, t_measurement := measurement,
                  t_output := output, t_state := state, t_fault_flags := fault_flags \<rparr>), True)
      | _ \<Rightarrow> (rec, False))"

definition gov_heartbeat_encode ::
  "gov_heartbeat ptr \<Rightarrow> u8 list ptr \<Rightarrow> nat \<Rightarrow> u8 list ptr \<times> nat" where
  "gov_heartbeat_encode hb out out_cap =
     (case (hb, out) of
        (Some h, Some b0) \<Rightarrow>
          if out_cap < GOV_TELEM_HEARTBEAT_LEN then (Some b0, 0)
          else
            let b1 = b0[0 := hb_state h];
                pos = 1;
                (b2, pos) = put_u32 b1 pos (hb_fault_flags h);
                (b3, pos) = put_u32 b2 pos (hb_uptime_count h)
            in (Some b3, pos)
      | _ \<Rightarrow> (out, 0))"

definition gov_heartbeat_decode ::
  "u8 list ptr \<Rightarrow> nat \<Rightarrow> gov_heartbeat ptr \<Rightarrow> gov_heartbeat ptr \<times> bool" where
  "gov_heartbeat_decode inp len hb =
     (case (inp, hb) of
        (Some b, Some h) \<Rightarrow>
          if len < GOV_TELEM_HEARTBEAT_LEN then (Some h, False)
          else
            let state = b ! 0;
                pos = 1;
                (fault_flags, pos) = get_u32 b pos;
                (uptime_count, pos) = get_u32 b pos
            in (Some (h\<lparr> hb_state := state, hb_fault_flags := fault_flags,
                  hb_uptime_count := uptime_count \<rparr>), True)
      | _ \<Rightarrow> (hb, False))"

section \<open>Specification\<close>

definition be32 :: "u32 \<Rightarrow> u8 list" where
  "be32 v = [ucast (drop_bit 24 v AND 0xFF), ucast (drop_bit 16 v AND 0xFF),
             ucast (drop_bit 8 v AND 0xFF), ucast (v AND 0xFF)]"

definition telem_bytes :: "gov_telem_record \<Rightarrow> u8 list" where
  "telem_bytes r = be32 (t_tick r) @ be32 (t_setpoint r) @ be32 (t_measurement r) @
     be32 (t_output r) @ [t_state r] @ be32 (t_fault_flags r)"

definition heartbeat_bytes :: "gov_heartbeat \<Rightarrow> u8 list" where
  "heartbeat_bytes h = [hb_state h] @ be32 (hb_fault_flags h) @ be32 (hb_uptime_count h)"

text \<open>The decoders as partial functions from bytes, into a record whose old contents do not matter.\<close>

definition telem_zero :: gov_telem_record where
  "telem_zero = \<lparr> t_tick = 0, t_setpoint = 0, t_measurement = 0, t_output = 0, t_state = 0,
     t_fault_flags = 0 \<rparr>"

definition heartbeat_zero :: gov_heartbeat where
  "heartbeat_zero = \<lparr> hb_state = 0, hb_fault_flags = 0, hb_uptime_count = 0 \<rparr>"

definition telem_parse :: "u8 list \<Rightarrow> gov_telem_record option" where
  "telem_parse bs =
     (let (r, ok) = gov_telem_decode (Some bs) (length bs) (Some telem_zero) in if ok then r else None)"

definition heartbeat_parse :: "u8 list \<Rightarrow> gov_heartbeat option" where
  "heartbeat_parse bs =
     (let (h, ok) = gov_heartbeat_decode (Some bs) (length bs) (Some heartbeat_zero) in
      if ok then h else None)"

section \<open>Fixed-length encodings\<close>

text \<open>
  A fixed-length encoding: the decoder reads the encoded value back, whatever follows it, and
  every string of the right length is the encoding of what the decoder makes of it.
\<close>

locale codec =
  fixes enc :: "'a \<Rightarrow> u8 list"
    and dec :: "u8 list \<Rightarrow> 'a option"
    and len :: nat
  assumes length_enc: "length (enc x) = len"
    and dec_enc: "dec (enc x @ rest) = Some x"
    and enc_dec: "len \<le> length bs \<Longrightarrow> \<exists>x. dec bs = Some x \<and> enc x = take len bs"
    and dec_short: "length bs < len \<Longrightarrow> dec bs = None"
begin

lemma enc_inject: "enc x = enc y \<Longrightarrow> x = y"
  using dec_enc [of x "[]"] dec_enc [of y "[]"] by simp

lemma dec_iff: "dec bs = Some x \<longleftrightarrow> (\<exists>rest. bs = enc x @ rest)"
proof
  assume d: "dec bs = Some x"
  then have "len \<le> length bs" using dec_short [of bs] by (cases "length bs < len") auto
  then have "enc x = take len bs" using enc_dec [of bs] d by auto
  then show "\<exists>rest. bs = enc x @ rest" by (metis append_take_drop_id)
qed (auto simp: dec_enc)

lemma dec_None: "dec bs = None \<longleftrightarrow> length bs < len"
  using enc_dec [of bs] dec_short [of bs] by (cases "length bs < len") auto

end

section \<open>Big-endian words\<close>

lemma length_be32 [simp]: "length (be32 v) = 4"
  by (simp add: be32_def)

lemma bit_byte: "bit (ucast (drop_bit k (v :: u32) AND 0xFF) :: u8) m \<longleftrightarrow> m < 8 \<and> bit v (k + m)"
proof -
  have ff: "(0xFF :: u32) = mask 8" by (simp add: mask_eq_exp_minus_1)
  show ?thesis unfolding ff by (auto simp: bit_ucast_iff bit_and_iff bit_mask_iff bit_drop_bit_eq
        dest: bit_imp_le_length)
qed

lemma byte_eqI:
  assumes "\<And>m. m < 8 \<Longrightarrow> bit v (k + m) = bit x m"
  shows "ucast (drop_bit k (v :: u32) AND 0xFF) = (x :: u8)"
  by (rule bit_word_eqI, subst bit_byte) (simp add: assms)

lemma be32_bytes:
  "be32 v = [a, b, c, d] \<longleftrightarrow>
     push_bit 24 (ucast a) OR push_bit 16 (ucast b) OR push_bit 8 (ucast c) OR ucast d = v"
proof
  assume be: "be32 v = [a, b, c, d]"
  have bits: "bit a m \<longleftrightarrow> m < 8 \<and> bit v (24 + m)" "bit b m \<longleftrightarrow> m < 8 \<and> bit v (16 + m)"
    "bit c m \<longleftrightarrow> m < 8 \<and> bit v (8 + m)" "bit d m \<longleftrightarrow> m < 8 \<and> bit v m" for m
    using be bit_byte [of 24 v m] bit_byte [of 16 v m] bit_byte [of 8 v m] bit_byte [of 0 v m]
    by (auto simp: be32_def)
  show "push_bit 24 (ucast a) OR push_bit 16 (ucast b) OR push_bit 8 (ucast c) OR ucast d = v"
  proof (rule bit_word_eqI)
    fix n assume "n < LENGTH(32)"
    then consider "n < 8" | "8 \<le> n" "n < 16" | "16 \<le> n" "n < 24" | "24 \<le> n" "n < 32" by fastforce
    then show "bit (push_bit 24 (ucast a) OR push_bit 16 (ucast b) OR push_bit 8 (ucast c) OR ucast d :: u32) n
        \<longleftrightarrow> bit v n"
      by cases (auto simp: bit_or_iff bit_push_bit_iff bit_ucast_iff bits)
  qed
next
  assume v: "push_bit 24 (ucast a) OR push_bit 16 (ucast b) OR push_bit 8 (ucast c) OR ucast d = v"
  have small: "bit (x :: u8) m \<Longrightarrow> m < 8" for x m by (auto dest: bit_imp_le_length)
  have "ucast (drop_bit 24 v AND 0xFF) = a" "ucast (drop_bit 16 v AND 0xFF) = b"
    "ucast (drop_bit 8 v AND 0xFF) = c" "ucast (drop_bit 0 v AND 0xFF) = d"
    by (rule byte_eqI, force simp: v [symmetric] bit_or_iff bit_push_bit_iff bit_ucast_iff dest: small)+
  then show "be32 v = [a, b, c, d]" by (simp add: be32_def)
qed

lemma update_next:
  "length xs = k \<Longrightarrow> ys \<noteq> [] \<Longrightarrow> (xs @ ys)[k := v] = xs @ v # tl ys"
  by (cases ys) (simp_all add: list_update_append)

lemma put_u32_append:
  assumes "length xs = pos" and "4 \<le> length ys"
  shows "put_u32 (xs @ ys) pos v = (xs @ be32 v @ drop 4 ys, pos + 4)"
proof -
  obtain a b c d zs where "ys = a # b # c # d # zs"
    using assms(2) by (auto simp: numeral_eq_Suc Suc_le_length_iff)
  with assms(1) show ?thesis by (simp add: put_u32_def be32_def list_update_append)
qed

lemma get_u32_be32:
  assumes "pos + 4 \<le> length buf"
  shows "snd (get_u32 buf pos) = pos + 4" and "be32 (fst (get_u32 buf pos)) = take 4 (drop pos buf)"
proof -
  show "snd (get_u32 buf pos) = pos + 4" by (simp add: get_u32_def)
  have "take 4 (drop pos buf) = [buf ! (pos + 0), buf ! (pos + 1), buf ! (pos + 2), buf ! (pos + 3)]"
    using assms by (intro nth_equalityI) (auto simp: less_Suc_eq numeral_eq_Suc)
  then show "be32 (fst (get_u32 buf pos)) = take 4 (drop pos buf)"
    using be32_bytes [of _ "buf ! (pos + 0)" "buf ! (pos + 1)" "buf ! (pos + 2)" "buf ! (pos + 3)"]
    by (simp add: get_u32_def)
qed

lemma be32_inject: "be32 v = be32 w \<longleftrightarrow> v = w"
proof
  assume "be32 v = be32 w"
  moreover obtain a b c d where "be32 w = [a, b, c, d]" by (simp add: be32_def)
  ultimately show "v = w" using be32_bytes [of v a b c d] be32_bytes [of w a b c d] by simp
qed simp

section \<open>The two encoders\<close>

lemma length_telem_bytes [simp]: "length (telem_bytes r) = GOV_TELEM_DATA_LEN"
  by (simp add: telem_bytes_def GOV_TELEM_DATA_LEN_def)

lemma length_heartbeat_bytes [simp]: "length (heartbeat_bytes h) = GOV_TELEM_HEARTBEAT_LEN"
  by (simp add: heartbeat_bytes_def GOV_TELEM_HEARTBEAT_LEN_def)

lemma telem_encode_success:
  assumes "GOV_TELEM_DATA_LEN \<le> cap" and "cap \<le> length buf"
  shows "gov_telem_encode (Some r) (Some buf) cap =
    (Some (telem_bytes r @ drop GOV_TELEM_DATA_LEN buf), GOV_TELEM_DATA_LEN)"
proof -
  have len: "21 \<le> length buf" using assms by (simp add: GOV_TELEM_DATA_LEN_def)
  have p0: "put_u32 buf 0 (t_tick r) = (be32 (t_tick r) @ drop 4 buf, 4)"
    using put_u32_append [of "[]" 0 buf] len by simp
  note p = put_u32_append [of "be32 (t_tick r)" 4 "drop 4 buf" "t_setpoint r"]
    put_u32_append [of "be32 (t_tick r) @ be32 (t_setpoint r)" 8 "drop 8 buf" "t_measurement r"]
    put_u32_append [of "be32 (t_tick r) @ be32 (t_setpoint r) @ be32 (t_measurement r)" 12
      "drop 12 buf" "t_output r"]
  let ?h = "be32 (t_tick r) @ be32 (t_setpoint r) @ be32 (t_measurement r) @ be32 (t_output r)"
  have s: "(?h @ drop 16 buf)[16 := t_state r] = ?h @ [t_state r] @ drop 17 buf"
    using len update_next [of ?h 16 "drop 16 buf"] by (simp add: tl_drop drop_Suc [symmetric])
  have q: "put_u32 (?h @ [t_state r] @ drop 17 buf) 17 (t_fault_flags r) =
      (?h @ [t_state r] @ be32 (t_fault_flags r) @ drop 21 buf, 21)"
    using put_u32_append [of "?h @ [t_state r]" 17 "drop 17 buf" "t_fault_flags r"] len by simp
  show ?thesis
    using assms len p s q
    by (simp add: gov_telem_encode_def put_i32_def p0 telem_bytes_def GOV_TELEM_DATA_LEN_def Let_def)
qed

lemma heartbeat_encode_success:
  assumes "GOV_TELEM_HEARTBEAT_LEN \<le> cap" and "cap \<le> length buf"
  shows "gov_heartbeat_encode (Some h) (Some buf) cap =
    (Some (heartbeat_bytes h @ drop GOV_TELEM_HEARTBEAT_LEN buf), GOV_TELEM_HEARTBEAT_LEN)"
proof -
  have len: "9 \<le> length buf" using assms by (simp add: GOV_TELEM_HEARTBEAT_LEN_def)
  have s: "buf[0 := hb_state h] = [hb_state h] @ drop 1 buf"
    using len by (cases buf) auto
  have p: "put_u32 ([hb_state h] @ drop 1 buf) 1 (hb_fault_flags h) =
      ([hb_state h] @ be32 (hb_fault_flags h) @ drop 5 buf, 5)"
    using put_u32_append [of "[hb_state h]" 1 "drop 1 buf" "hb_fault_flags h"] len by simp
  have q: "put_u32 ([hb_state h] @ be32 (hb_fault_flags h) @ drop 5 buf) 5 (hb_uptime_count h) =
      (heartbeat_bytes h @ drop 9 buf, 9)"
    using put_u32_append [of "[hb_state h] @ be32 (hb_fault_flags h)" 5 "drop 5 buf" "hb_uptime_count h"] len
    by (simp add: heartbeat_bytes_def)
  show ?thesis
    using assms unfolding gov_heartbeat_encode_def prod.case option.case s Let_def p q
    by (simp add: GOV_TELEM_HEARTBEAT_LEN_def)
qed

section \<open>The two decoders\<close>

lemma telem_decode_bytes:
  assumes "GOV_TELEM_DATA_LEN \<le> len" and "len \<le> length bs"
  shows "\<exists>x. gov_telem_decode (Some bs) len (Some r) = (Some x, True) \<and>
    telem_bytes x = take GOV_TELEM_DATA_LEN bs"
proof -
  have len: "21 \<le> length bs" using assms by (simp add: GOV_TELEM_DATA_LEN_def)
  define x where "x = r\<lparr> t_tick := fst (get_u32 bs 0), t_setpoint := fst (get_u32 bs 4),
    t_measurement := fst (get_u32 bs 8), t_output := fst (get_u32 bs 12), t_state := bs ! 16,
    t_fault_flags := fst (get_u32 bs 17) \<rparr>"
  have pos: "snd (get_u32 bs 0) = 4" "snd (get_u32 bs 4) = 8" "snd (get_u32 bs 8) = 12"
      "snd (get_u32 bs 12) = 16"
    using len by (simp_all add: get_u32_be32(1))
  have "gov_telem_decode (Some bs) len (Some r) = (Some x, True)"
    using assms by (simp add: gov_telem_decode_def get_i32_def case_prod_beta Let_def pos x_def)
  moreover have "telem_bytes x = take GOV_TELEM_DATA_LEN bs"
  proof -
    have "telem_bytes x = take 4 bs @ take 4 (drop 4 bs) @ take 4 (drop 8 bs) @ take 4 (drop 12 bs) @
        take 1 (drop 16 bs) @ take 4 (drop 17 bs)"
      using len by (simp add: telem_bytes_def x_def get_u32_be32(2) take_Suc hd_drop_conv_nth)
    also have "\<dots> = take 21 bs"
      using take_add [of 4 17 bs] take_add [of 4 13 "drop 4 bs"] take_add [of 4 9 "drop 8 bs"]
        take_add [of 4 5 "drop 12 bs"] take_add [of 1 4 "drop 16 bs"] by simp
    finally show ?thesis by (simp add: GOV_TELEM_DATA_LEN_def)
  qed
  ultimately show ?thesis by blast
qed

lemma heartbeat_decode_bytes:
  assumes "GOV_TELEM_HEARTBEAT_LEN \<le> len" and "len \<le> length bs"
  shows "\<exists>x. gov_heartbeat_decode (Some bs) len (Some h) = (Some x, True) \<and>
    heartbeat_bytes x = take GOV_TELEM_HEARTBEAT_LEN bs"
proof -
  have len: "9 \<le> length bs" using assms by (simp add: GOV_TELEM_HEARTBEAT_LEN_def)
  define x where "x = h\<lparr> hb_state := bs ! 0, hb_fault_flags := fst (get_u32 bs 1),
    hb_uptime_count := fst (get_u32 bs 5) \<rparr>"
  have "snd (get_u32 bs 1) = 5" using len by (simp add: get_u32_be32(1))
  then have "gov_heartbeat_decode (Some bs) len (Some h) = (Some x, True)"
    using assms by (simp add: gov_heartbeat_decode_def case_prod_beta Let_def x_def)
  moreover have "heartbeat_bytes x = take GOV_TELEM_HEARTBEAT_LEN bs"
  proof -
    have "heartbeat_bytes x = take 1 bs @ take 4 (drop 1 bs) @ take 4 (drop 5 bs)"
      using len get_u32_be32(2) [of 1 bs] by (cases bs) (simp_all add: heartbeat_bytes_def x_def get_u32_be32(2))
    also have "\<dots> = take 9 bs"
      using take_add [of 1 8 bs] take_add [of 4 4 "drop 1 bs"] by simp
    finally show ?thesis by (simp add: GOV_TELEM_HEARTBEAT_LEN_def)
  qed
  ultimately show ?thesis by blast
qed

lemma telem_bytes_inject: "telem_bytes r = telem_bytes s \<Longrightarrow> r = s"
  by (cases r; cases s) (simp add: telem_bytes_def be32_inject)

lemma heartbeat_bytes_inject: "heartbeat_bytes r = heartbeat_bytes s \<Longrightarrow> r = s"
  by (cases r; cases s) (simp add: heartbeat_bytes_def be32_inject)

interpretation telem: codec telem_bytes telem_parse GOV_TELEM_DATA_LEN
proof
  show d: "\<exists>x. telem_parse bs = Some x \<and> telem_bytes x = take GOV_TELEM_DATA_LEN bs"
    if "GOV_TELEM_DATA_LEN \<le> length bs" for bs
    using telem_decode_bytes [OF that order.refl, of telem_zero] by (auto simp: telem_parse_def)
  show "telem_parse (telem_bytes x @ rest) = Some x" for x rest
    using d [of "telem_bytes x @ rest"] telem_bytes_inject by auto
  show "telem_parse bs = None" if "length bs < GOV_TELEM_DATA_LEN" for bs
    using that by (simp add: telem_parse_def gov_telem_decode_def)
qed simp

interpretation heartbeat: codec heartbeat_bytes heartbeat_parse GOV_TELEM_HEARTBEAT_LEN
proof
  show d: "\<exists>x. heartbeat_parse bs = Some x \<and> heartbeat_bytes x = take GOV_TELEM_HEARTBEAT_LEN bs"
    if "GOV_TELEM_HEARTBEAT_LEN \<le> length bs" for bs
    using heartbeat_decode_bytes [OF that order.refl, of heartbeat_zero] by (auto simp: heartbeat_parse_def)
  show "heartbeat_parse (heartbeat_bytes x @ rest) = Some x" for x rest
    using d [of "heartbeat_bytes x @ rest"] heartbeat_bytes_inject by auto
  show "heartbeat_parse bs = None" if "length bs < GOV_TELEM_HEARTBEAT_LEN" for bs
    using that by (simp add: heartbeat_parse_def gov_heartbeat_decode_def)
qed simp

section \<open>Properties\<close>

text \<open>
  C26. Telemetry round trip: a record encoded into a buffer of at least 21 bytes takes its first
  21 bytes and leaves the rest, and decoding the buffer at any length of 21 or more gives the
  record back, whatever the target held; a string of bytes decodes to a record exactly when it
  starts with the encoding of that record.
\<close>

theorem telem_roundtrip:
  assumes "GOV_TELEM_DATA_LEN \<le> cap" and "cap \<le> length buf"
  shows "\<exists>out. gov_telem_encode (Some r) (Some buf) cap = (Some out, GOV_TELEM_DATA_LEN) \<and>
    drop GOV_TELEM_DATA_LEN out = drop GOV_TELEM_DATA_LEN buf \<and> length out = length buf \<and>
    (\<forall>len r0. GOV_TELEM_DATA_LEN \<le> len \<and> len \<le> length out \<longrightarrow>
       gov_telem_decode (Some out) len (Some r0) = (Some r, True)) \<and>
    (\<forall>bs s. telem_parse bs = Some s \<longleftrightarrow> (\<exists>rest. bs = telem_bytes s @ rest))"
proof -
  let ?out = "telem_bytes r @ drop GOV_TELEM_DATA_LEN buf"
  have "gov_telem_decode (Some ?out) len (Some r0) = (Some r, True)"
    if "GOV_TELEM_DATA_LEN \<le> len" "len \<le> length ?out" for len r0
    using telem_decode_bytes [OF that, of r0] telem_bytes_inject by auto
  then show ?thesis
    using telem_encode_success [OF assms, of r] assms telem.dec_iff
    by (intro exI [of _ ?out]) auto
qed

theorem telem_roundtrip_witness:
  "\<exists>out. gov_telem_encode (Some telem_zero) (Some (replicate 21 9)) 21 = (Some out, 21)"
  using telem_roundtrip [of 21 "replicate 21 9" telem_zero] by (auto simp: GOV_TELEM_DATA_LEN_def)

text \<open>Heartbeat round trip: the same for the heartbeat payload and its 9 bytes.\<close>

theorem heartbeat_roundtrip:
  assumes "GOV_TELEM_HEARTBEAT_LEN \<le> cap" and "cap \<le> length buf"
  shows "\<exists>out. gov_heartbeat_encode (Some h) (Some buf) cap = (Some out, GOV_TELEM_HEARTBEAT_LEN) \<and>
    drop GOV_TELEM_HEARTBEAT_LEN out = drop GOV_TELEM_HEARTBEAT_LEN buf \<and> length out = length buf \<and>
    (\<forall>len h0. GOV_TELEM_HEARTBEAT_LEN \<le> len \<and> len \<le> length out \<longrightarrow>
       gov_heartbeat_decode (Some out) len (Some h0) = (Some h, True)) \<and>
    (\<forall>bs s. heartbeat_parse bs = Some s \<longleftrightarrow> (\<exists>rest. bs = heartbeat_bytes s @ rest))"
proof -
  let ?out = "heartbeat_bytes h @ drop GOV_TELEM_HEARTBEAT_LEN buf"
  have "gov_heartbeat_decode (Some ?out) len (Some h0) = (Some h, True)"
    if "GOV_TELEM_HEARTBEAT_LEN \<le> len" "len \<le> length ?out" for len h0
    using heartbeat_decode_bytes [OF that, of h0] heartbeat_bytes_inject by auto
  then show ?thesis
    using heartbeat_encode_success [OF assms, of h] assms heartbeat.dec_iff
    by (intro exI [of _ ?out]) auto
qed

theorem heartbeat_roundtrip_witness:
  "\<exists>out. gov_heartbeat_encode (Some heartbeat_zero) (Some (replicate 9 7)) 9 = (Some out, 9)"
  using heartbeat_roundtrip [of 9 "replicate 9 7" heartbeat_zero] by (auto simp: GOV_TELEM_HEARTBEAT_LEN_def)

end
