(* ===== verification/Gov_Ground.thy ===== *)
theory Gov_Ground
  imports Gov_Reliable Gov_Telem
begin

text \<open>
  The ground station's end of the link, \<^verbatim>\<open>host/governor_gs/protocol.py\<close> and
  \<^verbatim>\<open>host/governor_gs/log_capture.py\<close>: the Python mirror of the firmware's framing and retransmission,
  and the capture of what it delivers. A Python integer is an \<open>int\<close>, a \<^verbatim>\<open>bytes\<close> object a list of
  8-bit words. A method returns the object it has changed, the calls of the callbacks, in order,
  and the exception it raises, if any: what was changed before the exception stays changed. The
  callbacks given by the user are taken to raise nothing and not to call the endpoint back.

  The decoder is refined to the specification of the firmware's decoder, so both deliver the same
  frames and count the same errors on every stream; the encoder writes the same bytes.
\<close>

section \<open>Exceptions\<close>

datatype py_error = ValueError | IndexError

text \<open>A \<^verbatim>\<open>for\<close> loop over a sequence, whose body may raise.\<close>

fun py_for ::
  "('s \<Rightarrow> 'e \<Rightarrow> 's \<times> 'o list \<times> py_error option) \<Rightarrow> 's \<Rightarrow> 'e list \<Rightarrow> 's \<times> 'o list \<times> py_error option" where
  "py_for f s [] = (s, [], None)"
| "py_for f s (x # xs) =
     (let (s1, o1, e1) = f s x in
      case e1 of Some err \<Rightarrow> (s1, o1, Some err)
      | None \<Rightarrow> let (s2, o2, e2) = py_for f s1 xs in (s2, o1 @ o2, e2))"

section \<open>Constants\<close>

definition SOF :: int where "SOF = 0x7E"
definition VER :: int where "VER = 0x01"
definition GOV_MAX_PAYLOAD_gs :: int where "GOV_MAX_PAYLOAD_gs = 64"
definition HEADER_AFTER_SOF :: nat where "HEADER_AFTER_SOF = 4"
definition GOV_FRAME_MAX_gs :: int where "GOV_FRAME_MAX_gs = 1 + 1 + 1 + 1 + 2 + GOV_MAX_PAYLOAD_gs + 2"
definition GOV_ACK_TIMEOUT_MS_gs :: int where "GOV_ACK_TIMEOUT_MS_gs = 100"
definition GOV_MAX_RETRIES_gs :: int where "GOV_MAX_RETRIES_gs = 3"

definition MsgType_DATA :: int where "MsgType_DATA = 0x01"
definition MsgType_ACK :: int where "MsgType_ACK = 0x02"
definition MsgType_NAK :: int where "MsgType_NAK = 0x03"
definition MsgType_CMD :: int where "MsgType_CMD = 0x04"
definition MsgType_HEARTBEAT :: int where "MsgType_HEARTBEAT = 0x05"
definition MsgType_CFG_WRITE :: int where "MsgType_CFG_WRITE = 0x06"

definition MsgType :: "int list" where
  "MsgType = [MsgType_DATA, MsgType_ACK, MsgType_NAK, MsgType_CMD, MsgType_HEARTBEAT, MsgType_CFG_WRITE]"

definition RELIABLE_TYPES :: "int list" where
  "RELIABLE_TYPES = [MsgType_DATA, MsgType_CMD, MsgType_HEARTBEAT, MsgType_CFG_WRITE]"

section \<open>Checksum and encoder\<close>

definition crc16_round :: "int \<Rightarrow> int" where
  "crc16_round crc =
     (if crc AND 0x8000 \<noteq> 0 then (push_bit 1 crc XOR 0x1021) AND 0xFFFF else push_bit 1 crc AND 0xFFFF)"

definition crc16_ccitt :: "u8 list \<Rightarrow> int \<Rightarrow> int" where
  "crc16_ccitt data seed =
     foldl (\<lambda>crc byte. (crc16_round ^^ 8) (crc XOR push_bit 8 (uint byte))) (seed AND 0xFFFF) data AND 0xFFFF"

definition encode_frame :: "int \<Rightarrow> int \<Rightarrow> u8 list \<Rightarrow> py_error + u8 list" where
  "encode_frame msg_type sq payload =
     (if \<not> (0 \<le> msg_type \<and> msg_type \<le> 0xFF) then Inl ValueError
      else if \<not> (0 \<le> sq \<and> sq \<le> 0xFF) then Inl ValueError
      else if int (length payload) > GOV_MAX_PAYLOAD_gs then Inl ValueError
      else
        let len = int (length payload);
            covered = map word_of_int [VER, msg_type AND 0xFF, sq AND 0xFF, drop_bit 8 len AND 0xFF, len AND 0xFF] @ payload;
            crc = crc16_ccitt covered 0xFFFF
        in Inr (map word_of_int [SOF] @ covered @ map word_of_int [drop_bit 8 crc AND 0xFF, crc AND 0xFF]))"

section \<open>The decoder\<close>

datatype decode_state = HUNT_SOF | GOT_SOF | HDR | PAYLOAD | CRC

record decoder_stats =
  ds_delivered :: int
  ds_crc_err :: int
  ds_len_err :: int
  ds_ver_err :: int
  ds_unknown_type :: int

text \<open>The arguments of the callback: type, sequence number, payload.\<close>

type_synonym gs_frame = "int \<times> int \<times> u8 list"

record frame_decoder =
  g_cb :: bool
  g_stats :: decoder_stats
  g_buf :: "u8 list"
  g_state :: decode_state
  g_type :: int
  g_seq :: int
  g_len :: int
  g_hdr_bytes :: "u8 list"
  g_payload_got :: int
  g_crc_bytes :: "u8 list"

definition reset_hunt :: "frame_decoder \<Rightarrow> frame_decoder" where
  "reset_hunt g = g\<lparr> g_state := HUNT_SOF, g_type := 0, g_seq := 0, g_len := 0, g_hdr_bytes := [],
     g_payload_got := 0, g_crc_bytes := [] \<rparr>"

definition frame_decoder_init :: "bool \<Rightarrow> frame_decoder" where
  "frame_decoder_init callback = reset_hunt
     \<lparr> g_cb = callback,
       g_stats = \<lparr> ds_delivered = 0, ds_crc_err = 0, ds_len_err = 0, ds_ver_err = 0, ds_unknown_type = 0 \<rparr>,
       g_buf = replicate (nat GOV_MAX_PAYLOAD_gs) 0, g_state = HUNT_SOF, g_type = 0, g_seq = 0, g_len = 0,
       g_hdr_bytes = [], g_payload_got = 0, g_crc_bytes = [] \<rparr>"

definition gs_finish_frame :: "frame_decoder \<Rightarrow> frame_decoder \<times> gs_frame list" where
  "gs_finish_frame g =
     (let rx_crc = push_bit 8 (uint (g_crc_bytes g ! 0)) OR uint (g_crc_bytes g ! 1);
          payload = take (nat (g_len g)) (g_buf g);
          covered = map word_of_int [VER, g_type g, g_seq g, drop_bit 8 (g_len g) AND 0xFF, g_len g AND 0xFF] @ payload;
          calc = crc16_ccitt covered 0xFFFF
      in if calc \<noteq> rx_crc
         then (reset_hunt (g\<lparr> g_stats := (g_stats g)\<lparr> ds_crc_err := ds_crc_err (g_stats g) + 1 \<rparr> \<rparr>), [])
         else if g_type g \<notin> set MsgType
         then (reset_hunt (g\<lparr> g_stats := (g_stats g)\<lparr> ds_unknown_type := ds_unknown_type (g_stats g) + 1 \<rparr> \<rparr>), [])
         else (reset_hunt (g\<lparr> g_stats := (g_stats g)\<lparr> ds_delivered := ds_delivered (g_stats g) + 1 \<rparr> \<rparr>),
               if g_cb g then [(g_type g, g_seq g, payload)] else []))"

text \<open>The header, once its four bytes after the version are there.\<close>

definition gs_header :: "frame_decoder \<Rightarrow> frame_decoder" where
  "gs_header g =
     (if length (g_hdr_bytes g) = HEADER_AFTER_SOF then
        let g1 = g\<lparr> g_type := uint (g_hdr_bytes g ! 0), g_seq := uint (g_hdr_bytes g ! 1),
                    g_len := push_bit 8 (uint (g_hdr_bytes g ! 2)) OR uint (g_hdr_bytes g ! 3) \<rparr>
        in if g_len g1 > GOV_MAX_PAYLOAD_gs
           then reset_hunt (g1\<lparr> g_stats := (g_stats g1)\<lparr> ds_len_err := ds_len_err (g_stats g1) + 1 \<rparr> \<rparr>)
           else if g_len g1 = 0 then g1\<lparr> g_state := CRC, g_crc_bytes := [] \<rparr>
           else g1\<lparr> g_state := PAYLOAD, g_payload_got := 0 \<rparr>
      else g)"

text \<open>
  One byte. An index outside the buffer raises; a negative one, which Python counts from the end,
  does not occur, since the index only grows from 0.
\<close>

definition gs_push :: "frame_decoder \<Rightarrow> int \<Rightarrow> frame_decoder \<times> gs_frame list \<times> py_error option" where
  "gs_push g byte =
     (let b = byte AND 0xFF in
      case g_state g of
        HUNT_SOF \<Rightarrow> (if b = SOF then g\<lparr> g_state := GOT_SOF \<rparr> else g, [], None)
      | GOT_SOF \<Rightarrow>
          (if b = VER then g\<lparr> g_state := HDR, g_hdr_bytes := [] \<rparr>
           else if b = SOF then g
           else reset_hunt (g\<lparr> g_stats := (g_stats g)\<lparr> ds_ver_err := ds_ver_err (g_stats g) + 1 \<rparr> \<rparr>), [], None)
      | HDR \<Rightarrow> (gs_header (g\<lparr> g_hdr_bytes := g_hdr_bytes g @ [word_of_int b] \<rparr>), [], None)
      | PAYLOAD \<Rightarrow>
          (if \<not> (0 \<le> g_payload_got g \<and> g_payload_got g < int (length (g_buf g))) then (g, [], Some IndexError)
           else
             let g1 = g\<lparr> g_buf := (g_buf g)[nat (g_payload_got g) := word_of_int b], g_payload_got := g_payload_got g + 1 \<rparr>
             in (if g_payload_got g1 = g_len g1 then g1\<lparr> g_state := CRC, g_crc_bytes := [] \<rparr> else g1, [], None))
      | CRC \<Rightarrow>
          (let g1 = g\<lparr> g_crc_bytes := g_crc_bytes g @ [word_of_int b] \<rparr> in
           if length (g_crc_bytes g1) = 2 then let (g2, out) = gs_finish_frame g1 in (g2, out, None)
           else (g1, [], None)))"

definition push_bytes :: "frame_decoder \<Rightarrow> u8 list \<Rightarrow> frame_decoder \<times> gs_frame list \<times> py_error option" where
  "push_bytes g data = py_for (\<lambda>g b. gs_push g (uint b)) g data"

section \<open>The endpoint\<close>

record outstanding =
  o_seq :: int
  o_frame :: "u8 list"
  o_sent_at_ms :: int
  o_retries :: int

text \<open>The two application callbacks may be absent; the attribute \<^verbatim>\<open>_now_ms\<close> exists after the first feed.\<close>

record endpoint =
  e_on_deliver :: bool
  e_on_link_fault :: bool
  e_tx_seq :: int
  e_outstanding :: "outstanding option"
  e_pending :: "(int \<times> u8 list) list"
  e_last_rx_seq :: "int option"
  e_decoder :: frame_decoder
  e_dup_count :: int
  e_retransmit_count :: int
  e_link_fault_count :: int
  e_now_ms :: "int option"

datatype gs_out = SendBytes "u8 list" | Deliver int int "u8 list" | LinkFault int

type_synonym gs_result = "endpoint \<times> gs_out list \<times> py_error option"

definition endpoint_init :: "bool \<Rightarrow> bool \<Rightarrow> endpoint" where
  "endpoint_init on_deliver on_link_fault =
     \<lparr> e_on_deliver = on_deliver, e_on_link_fault = on_link_fault, e_tx_seq = 0, e_outstanding = None, e_pending = [],
       e_last_rx_seq = None, e_decoder = frame_decoder_init True, e_dup_count = 0, e_retransmit_count = 0,
       e_link_fault_count = 0, e_now_ms = None \<rparr>"

definition gs_pump :: "endpoint \<Rightarrow> int \<Rightarrow> gs_result" where
  "gs_pump e now_ms =
     (if e_outstanding e \<noteq> None then (e, [], None)
      else case e_pending e of [] \<Rightarrow> (e, [], None)
      | (msg_type, payload) # rest \<Rightarrow>
        let sq = e_tx_seq e;
            e1 = e\<lparr> e_pending := rest, e_tx_seq := (e_tx_seq e + 1) AND 0xFF \<rparr>
        in case encode_frame msg_type sq payload of
             Inl err \<Rightarrow> (e1, [], Some err)
           | Inr frame \<Rightarrow>
               (e1\<lparr> e_outstanding := Some \<lparr> o_seq = sq, o_frame = frame, o_sent_at_ms = now_ms, o_retries = 0 \<rparr> \<rparr>,
                [SendBytes frame], None))"

definition gs_send :: "endpoint \<Rightarrow> int \<Rightarrow> u8 list \<Rightarrow> int \<Rightarrow> gs_result" where
  "gs_send e msg_type payload now_ms =
     (if msg_type \<in> set RELIABLE_TYPES
      then gs_pump (e\<lparr> e_pending := e_pending e @ [(msg_type, payload)] \<rparr>) now_ms
      else case encode_frame msg_type 0 payload of
             Inl err \<Rightarrow> (e, [], Some err)
           | Inr frame \<Rightarrow> (e, [SendBytes frame], None))"

definition gs_tick :: "endpoint \<Rightarrow> int \<Rightarrow> gs_result" where
  "gs_tick e now_ms =
     (case e_outstanding e of None \<Rightarrow> (e, [], None)
      | Some out \<Rightarrow>
        if now_ms - o_sent_at_ms out < GOV_ACK_TIMEOUT_MS_gs then (e, [], None)
        else if o_retries out < GOV_MAX_RETRIES_gs
        then (e\<lparr> e_outstanding := Some (out\<lparr> o_retries := o_retries out + 1, o_sent_at_ms := now_ms \<rparr>),
                 e_retransmit_count := e_retransmit_count e + 1 \<rparr>, [SendBytes (o_frame out)], None)
        else (e\<lparr> e_outstanding := None, e_link_fault_count := e_link_fault_count e + 1 \<rparr>,
              if e_on_link_fault e then [LinkFault (o_seq out)] else [], None))"

definition outstanding_seq :: "endpoint \<Rightarrow> int option" where
  "outstanding_seq e = map_option o_seq (e_outstanding e)"

text \<open>The callback of the endpoint's decoder.\<close>

definition gs_on_frame :: "endpoint \<Rightarrow> gs_frame \<Rightarrow> gs_result" where
  "gs_on_frame e f =
     (let (msg_type, sq, payload) = f;
          now_ms = (case e_now_ms e of None \<Rightarrow> 0 | Some t \<Rightarrow> t);
          head = (if payload = [] then - 1 else uint (payload ! 0))
      in if msg_type = MsgType_ACK then
           (case e_outstanding e of None \<Rightarrow> (e, [], None)
            | Some out \<Rightarrow> if o_seq out = head then gs_pump (e\<lparr> e_outstanding := None \<rparr>) now_ms else (e, [], None))
         else if msg_type = MsgType_NAK then
           (case e_outstanding e of None \<Rightarrow> (e, [], None)
            | Some out \<Rightarrow>
                if o_seq out = head
                then (e\<lparr> e_outstanding := Some (out\<lparr> o_sent_at_ms := now_ms \<rparr>),
                         e_retransmit_count := e_retransmit_count e + 1 \<rparr>, [SendBytes (o_frame out)], None)
                else (e, [], None))
         else
           case encode_frame MsgType_ACK 0 [word_of_int sq] of
             Inl err \<Rightarrow> (e, [], Some err)
           | Inr ack \<Rightarrow>
               if e_last_rx_seq e = Some sq then (e\<lparr> e_dup_count := e_dup_count e + 1 \<rparr>, [SendBytes ack], None)
               else (e\<lparr> e_last_rx_seq := Some sq \<rparr>,
                     SendBytes ack # (if e_on_deliver e then [Deliver msg_type sq payload] else []), None))"

text \<open>The loop over received bytes, with the callback bound to the endpoint.\<close>

definition gs_feed_byte :: "endpoint \<Rightarrow> u8 \<Rightarrow> gs_result" where
  "gs_feed_byte e b =
     (let (g, fs, err) = gs_push (e_decoder e) (uint b);
          e1 = e\<lparr> e_decoder := g \<rparr>
      in case err of Some x \<Rightarrow> (e1, [], Some x) | None \<Rightarrow> py_for gs_on_frame e1 fs)"

definition gs_feed :: "endpoint \<Rightarrow> u8 list \<Rightarrow> int \<Rightarrow> gs_result" where
  "gs_feed e data now_ms = py_for gs_feed_byte (e\<lparr> e_now_ms := Some now_ms \<rparr>) data"

definition gs_stats :: "endpoint \<Rightarrow> decoder_stats" where
  "gs_stats e = g_stats (e_decoder e)"

section \<open>The capture of telemetry\<close>

text \<open>The list of captured records; the record that a capture returns is the last of the list.\<close>

record telemetry_record =
  cap_seq :: int
  cap_msg_type :: int
  cap_recv_ms :: int
  cap_state :: "int option"
  cap_fault_flags :: "int option"
  cap_raw :: "u8 list"

text \<open>\<^verbatim>\<open>int.from_bytes(bs, "big")\<close>\<close>

definition from_bytes_big :: "u8 list \<Rightarrow> int" where
  "from_bytes_big bs = foldl (\<lambda>n b. 256 * n + uint b) 0 bs"

definition capture_heartbeat :: "telemetry_record list \<Rightarrow> int \<Rightarrow> u8 list \<Rightarrow> int \<Rightarrow> telemetry_record list" where
  "capture_heartbeat records sq payload recv_ms =
     records @ [\<lparr> cap_seq = sq, cap_msg_type = 0x05, cap_recv_ms = recv_ms,
       cap_state = (if length payload \<ge> 1 then Some (uint (payload ! 0)) else None),
       cap_fault_flags = (if length payload \<ge> 5 then Some (from_bytes_big (take 4 (drop 1 payload))) else None),
       cap_raw = payload \<rparr>]"

definition capture_data :: "telemetry_record list \<Rightarrow> int \<Rightarrow> u8 list \<Rightarrow> int \<Rightarrow> telemetry_record list" where
  "capture_data records sq payload recv_ms =
     records @ [\<lparr> cap_seq = sq, cap_msg_type = 0x01, cap_recv_ms = recv_ms, cap_state = None, cap_fault_flags = None,
       cap_raw = payload \<rparr>]"

definition last_state :: "telemetry_record list \<Rightarrow> int option" where
  "last_state records = (case filter (\<lambda>rec. cap_state rec \<noteq> None) (rev records) of [] \<Rightarrow> None | rec # _ \<Rightarrow> cap_state rec)"

definition saw_state :: "telemetry_record list \<Rightarrow> int \<Rightarrow> bool" where
  "saw_state records st = list_ex (\<lambda>rec. cap_state rec = Some st) records"

definition saw_fault_bit :: "telemetry_record list \<Rightarrow> int \<Rightarrow> bool" where
  "saw_fault_bit records m =
     list_ex (\<lambda>rec. case cap_fault_flags rec of None \<Rightarrow> False | Some fl \<Rightarrow> fl AND m = m) records"

text \<open>The heartbeats of a run, each with its sequence number and the time it was received.\<close>

definition capture_all :: "(int \<times> gov_heartbeat \<times> int) list \<Rightarrow> telemetry_record list" where
  "capture_all hs = foldl (\<lambda>rs (q, h, t). capture_heartbeat rs q (heartbeat_bytes h) t) [] hs"

section \<open>What the proofs relate\<close>

definition gs_frame_of :: "gov_frame \<Rightarrow> gs_frame" where
  "gs_frame_of f = (uint (f_type f), uint (f_seq f), f_payload f)"

text \<open>How a decoder represents the collected bytes.\<close>

fun gs_rep :: "frame_decoder \<Rightarrow> collect \<Rightarrow> bool" where
  "gs_rep g Hunting \<longleftrightarrow> g_state g = HUNT_SOF"
| "gs_rep g (Collecting w) \<longleftrightarrow>
     (if w = [] then g_state g = GOT_SOF
      else w ! 0 = GOV_VER \<and>
        (if length w < 5 then g_state g = HDR \<and> g_hdr_bytes g = tl w
         else g_type g = uint (w ! 1) \<and> g_seq g = uint (w ! 2) \<and> g_len g = int (declared_len w) \<and> declared_len w \<le> 64 \<and>
           (if length w < 5 + declared_len w
            then g_state g = PAYLOAD \<and> g_payload_got g = int (length w - 5) \<and> take (length w - 5) (g_buf g) = drop 5 w
            else g_state g = CRC \<and> take (declared_len w) (g_buf g) = take (declared_len w) (drop 5 w) \<and>
              g_crc_bytes g = drop (5 + declared_len w) w \<and> length w < 7 + declared_len w)))"

text \<open>A decoder with a callback that is between frames.\<close>

definition gs_ready :: "frame_decoder \<Rightarrow> bool" where
  "gs_ready g \<longleftrightarrow> gs_rep g Hunting \<and> g_cb g \<and> length (g_buf g) = 64"

text \<open>The two ends of the ground station as an interface: messages, their encoding, one byte received.\<close>

definition gs_valid :: "gs_frame \<Rightarrow> bool" where
  "gs_valid f \<longleftrightarrow> (let (t, q, p) = f in t \<in> set MsgType \<and> 0 \<le> q \<and> q \<le> 255 \<and> length p \<le> 64)"

definition gs_enc :: "gs_frame \<Rightarrow> u8 list" where
  "gs_enc f = (let (t, q, p) = f in case encode_frame t q p of Inl _ \<Rightarrow> [] | Inr w \<Rightarrow> w)"

definition gs_take :: "frame_decoder \<Rightarrow> u8 \<Rightarrow> frame_decoder \<times> gs_frame list" where
  "gs_take g b = (let (g', out, err) = gs_push g (uint b) in (g', out))"

text \<open>The counters that both decoders have.\<close>

definition gs_counts :: "verdict list \<Rightarrow> decoder_stats \<Rightarrow> decoder_stats \<Rightarrow> bool" where
  "gs_counts vs st st' \<longleftrightarrow>
     ds_delivered st' = ds_delivered st + int (length (delivered vs)) \<and>
     ds_crc_err st' = ds_crc_err st + int (count_list vs Bad_Crc) \<and>
     ds_len_err st' = ds_len_err st + int (count_list vs Bad_Len) \<and>
     ds_unknown_type st' = ds_unknown_type st + int (count_list vs Unknown_Type)"

definition gs_refines_at :: "frame_decoder \<Rightarrow> collect \<Rightarrow> u8 \<Rightarrow> bool" where
  "gs_refines_at g s b \<longleftrightarrow>
     (let (g', out, err) = gs_push g (uint b); (s', vs) = spec_push s b in
      err = None \<and> gs_rep g' s' \<and> out = (if g_cb g then map gs_frame_of (delivered vs) else []) \<and>
      gs_counts vs (g_stats g) (g_stats g') \<and> g_cb g' = g_cb g \<and> length (g_buf g') = length (g_buf g))"

section \<open>The checksum on integers\<close>

lemma mask_bytes: "(n :: int) AND 0xFF = take_bit 8 n" "(n :: int) AND 0xFFFF = take_bit 16 n"
proof -
  have "(0xFF :: int) = mask 8" "(0xFFFF :: int) = mask 16" by (simp_all add: mask_eq_exp_minus_1)
  then show "n AND 0xFF = take_bit 8 n" "n AND 0xFFFF = take_bit 16 n" by (simp_all only: take_bit_eq_mask)
qed

lemma uint_crc_round: "crc16_round (uint x) = uint (crc_bit x)"
proof -
  have "uint x AND 0x8000 = uint (x AND 0x8000)" by (simp add: unsigned_and_eq)
  then have c: "uint x AND 0x8000 = 0 \<longleftrightarrow> x AND 0x8000 = 0" by (simp only: uint_0_iff)
  have "uint (push_bit 1 x) = take_bit 16 (push_bit 1 (uint x))" by (subst unsigned_push_bit_eq) simp
  moreover have "take_bit 16 (0x1021 :: int) = 0x1021" by (simp add: take_bit_eq_mod)
  ultimately show ?thesis
    by (simp add: crc16_round_def crc_bit_def mask_bytes c take_bit_xor unsigned_xor_eq del: push_bit_Suc One_nat_def)
qed

lemma uint_crc_rounds: "(crc16_round ^^ n) (uint x) = uint ((crc_bit ^^ n) x)"
  by (induction n) (simp_all add: uint_crc_round)

lemma crc16_agrees: "crc16_ccitt bs (uint (s :: u16)) = uint (gov_crc16_ccitt s bs)"
proof -
  have x: "uint c XOR push_bit 8 (uint b) = uint (c XOR push_bit 8 (ucast b))" for c :: u16 and b :: u8
  proof -
    have "uint b < 256" using uint_bounded [of b] by simp
    then have "uint (push_bit 8 (ucast b) :: u16) = push_bit 8 (uint b)"
      by (subst unsigned_push_bit_eq) (simp add: take_bit_eq_mod push_bit_eq_mult unsigned_ucast_eq)
    then show ?thesis by (simp add: unsigned_xor_eq)
  qed
  have "foldl (\<lambda>crc byte. (crc16_round ^^ 8) (crc XOR push_bit 8 (uint byte))) (uint s) bs = uint (gov_crc16_ccitt s bs)" for s
    by (induction bs arbitrary: s) (simp_all only: foldl_Nil foldl_Cons gov_crc16_ccitt.simps crc_byte_def x uint_crc_rounds)
  moreover have "take_bit 16 (uint w) = uint w" for w :: u16
    by (simp add: take_bit_int_eq_self_iff uint_bounded [of w, simplified])
  ultimately show ?thesis by (simp add: crc16_ccitt_def mask_bytes)
qed

lemma crc16_agrees_init: "crc16_ccitt bs 0xFFFF = uint (gov_crc16_ccitt GOV_CRC_INIT bs)"
  using crc16_agrees [of bs GOV_CRC_INIT] by (simp add: GOV_CRC_INIT_def)

section \<open>The encoder writes the frames of the specification\<close>

lemma byte_of_int: "word_of_int (n AND 0xFF) = (word_of_int n :: u8)"
  by (simp add: mask_bytes word_of_int_eq_iff)

lemma small_len: "n \<le> 64 \<Longrightarrow> drop_bit 8 (int n) = 0 \<and> n div 256 = 0 \<and> n mod 256 = n"
  by (simp add: drop_bit_eq_div)

lemma crc_fields:
  "map word_of_int [drop_bit 8 (uint c) AND 0xFF, uint c AND 0xFF] = crc_bytes c" for c :: u16
proof -
  have "int (unat c div 256) = uint c div 256" by (simp add: zdiv_int)
  then have "(of_nat (unat c div 256) :: u8) = word_of_int (uint c div 256)" by (metis of_int_of_nat_eq)
  moreover have "(of_nat (unat c) :: u8) = word_of_int (uint c)" by simp
  moreover have "drop_bit 8 (uint c) = uint c div 256" by (simp add: drop_bit_eq_div)
  ultimately show ?thesis unfolding crc_bytes_def high_byte unfolding low_byte
    by (simp only: byte_of_int list.map)
qed

lemma encode_frame_eq:
  "encode_frame t q p =
     (if 0 \<le> t \<and> t \<le> 255 \<and> 0 \<le> q \<and> q \<le> 255 \<and> length p \<le> 64
      then Inr (frame_bytes (Frame (word_of_int t) (word_of_int q) p)) else Inl ValueError)"
proof (cases "0 \<le> t \<and> t \<le> 255 \<and> 0 \<le> q \<and> q \<le> 255 \<and> length p \<le> 64")
  case True
  let ?f = "Frame (word_of_int t) (word_of_int q) p"
  have "map word_of_int [VER, t AND 0xFF, q AND 0xFF, drop_bit 8 (int (length p)) AND 0xFF, int (length p) AND 0xFF] @ p =
      frame_body ?f"
    using True small_len [of "length p"] by (simp add: frame_body_def Let_def byte_of_int VER_def GOV_VER_def)
  with True show ?thesis
    unfolding encode_frame_def Let_def crc16_agrees_init
    by (simp add: crc_fields [simplified] frame_bytes_def SOF_def GOV_SOF_def GOV_MAX_PAYLOAD_gs_def)
qed (auto simp: encode_frame_def GOV_MAX_PAYLOAD_gs_def)

section \<open>The decoder refines the specification of the firmware's decoder\<close>

lemma byte_read [simp]: "uint (b :: u8) AND 0xFF = uint b"
  by (simp add: mask_bytes take_bit_int_eq_self_iff uint_bounded [of b, simplified])

lemma byte_eq: "uint (b :: u8) = SOF \<longleftrightarrow> b = GOV_SOF" "uint b = VER \<longleftrightarrow> b = GOV_VER"
  by (simp_all add: SOF_def VER_def gov_defs word_uint_eq_iff)

lemma be16_int: "push_bit 8 (uint (a :: u8)) OR uint (b :: u8) = int (256 * unat a + unat b)"
proof -
  have "uint a < 256" using uint_bounded [of a] by simp
  then have "uint (push_bit 8 (ucast a) :: u16) = push_bit 8 (uint a)"
    by (subst unsigned_push_bit_eq) (simp add: take_bit_eq_mod push_bit_eq_mult unsigned_ucast_eq)
  then have "push_bit 8 (uint a) OR uint b = uint (push_bit 8 (ucast a) OR ucast b :: u16)"
    using uint_bounded [of b] by (simp add: unsigned_or_eq unsigned_ucast_eq take_bit_eq_mod)
  also have "\<dots> = int (unat (push_bit 8 (ucast a) OR ucast b :: u16))" by simp
  finally show ?thesis by (simp only: unat_be16)
qed

lemma known_agrees: "uint t \<in> set MsgType \<longleftrightarrow> is_known_type t"
  by (simp add: MsgType_def MsgType_DATA_def MsgType_ACK_def MsgType_NAK_def MsgType_CMD_def MsgType_HEARTBEAT_def
      MsgType_CFG_WRITE_def is_known_type_def gov_defs word_uint_eq_iff)

lemma reset_hunt_simps [simp]:
  "g_state (reset_hunt g) = HUNT_SOF" "g_cb (reset_hunt g) = g_cb g" "g_buf (reset_hunt g) = g_buf g"
  "g_stats (reset_hunt g) = g_stats g"
  by (simp_all add: reset_hunt_def)

lemma gs_counts_Nil [simp]: "gs_counts [] st st"
  by (simp add: gs_counts_def delivered_def)

lemma gs_hunt: "gs_rep g Hunting \<Longrightarrow> gs_refines_at g Hunting b"
  by (simp add: gs_refines_at_def gs_push_def byte_eq delivered_def)

lemma gs_ver: "gs_rep g (Collecting []) \<Longrightarrow> gs_refines_at g (Collecting []) b"
  by (simp add: gs_refines_at_def gs_push_def byte_eq delivered_def gs_counts_def gov_defs)

lemma gs_hdr:
  assumes "gs_rep g (Collecting w)" and "w \<noteq> []" and "length w < 5"
  shows "gs_refines_at g (Collecting w) b"
proof -
  obtain w' where w: "w = GOV_VER # w'" using assms by (cases w) auto
  have st: "g_state g = HDR" "g_hdr_bytes g = w'" using assms(1,3) by (simp_all add: w)
  show ?thesis
  proof (cases "length w = 4")
    case False
    with w st assms(3) show ?thesis
      by (simp add: gs_refines_at_def gs_push_def gs_header_def HEADER_AFTER_SOF_def Let_def delivered_def)
  next
    case True
    then obtain x y z where w': "w' = [x, y, z]" by (auto simp: w numeral_eq_Suc length_Suc_conv)
    define n where "n = 256 * unat z + unat b"
    have n: "push_bit 8 (uint z) OR uint b = int n" "declared_len [GOV_VER, x, y, z, b] = n"
      by (simp_all only: be16_int n_def) (simp add: declared_len_def)
    show ?thesis
      using st n unfolding gs_refines_at_def gs_push_def
      by (simp add: w w' gs_header_def HEADER_AFTER_SOF_def Let_def GOV_MAX_PAYLOAD_gs_def GOV_MAX_PAYLOAD_def
          delivered_def gs_counts_def)
  qed
qed

lemma gs_payload:
  assumes "gs_rep g (Collecting w)" and "5 \<le> length w" and "length w < 5 + declared_len w" and "length (g_buf g) = 64"
  shows "gs_refines_at g (Collecting w) b"
proof -
  obtain k where k: "length w = 5 + k" using assms(2) le_Suc_ex by blast
  have w: "w \<noteq> []" using assms(2) by auto
  have st: "w ! 0 = GOV_VER" "g_type g = uint (w ! 1)" "g_seq g = uint (w ! 2)" "g_len g = int (declared_len w)"
    "declared_len w \<le> 64" "g_state g = PAYLOAD" "g_payload_got g = int k" "take k (g_buf g) = drop 5 w"
    using assms(1-3) w k by auto
  have lt: "k < declared_len w" "k < 64" using assms(3) st(5) k by auto
  have buf: "take (Suc k) ((g_buf g)[k := b]) = drop 5 w @ [b]"
    using lt(2) assms(4) st(8) by (simp add: take_Suc_conv_app_nth)
  have v: "(w @ [b]) ! 0 = GOV_VER" "(w @ [b]) ! 1 = w ! 1" "(w @ [b]) ! 2 = w ! 2"
    using k st(1) w by (simp_all add: nth_append)
  have sp: "spec_push (Collecting w) b = (Collecting (w @ [b]), [])"
    using w lt k by (simp add: Let_def)
  have "nat (1 + int k) = Suc k" "1 + int k = int (declared_len w) \<longleftrightarrow> Suc k = declared_len w" by auto
  then show ?thesis
    using st lt k assms(4) buf v w unfolding gs_refines_at_def sp gs_push_def
    by (auto simp: Let_def delivered_def)
qed

text \<open>The bytes that the finished decoder recomputes are those it collected.\<close>

lemma take_five: "5 \<le> length w \<Longrightarrow> take 5 w = [w ! 0, w ! 1, w ! 2, w ! 3, w ! 4]"
  by (auto simp: numeral_eq_Suc Suc_le_length_iff)

lemma covered_bytes:
  assumes "w ! 0 = GOV_VER" and "5 + n \<le> length w" and "declared_len w = n" and "n \<le> 64"
  shows "map word_of_int [VER, uint (w ! 1), uint (w ! 2), drop_bit 8 (int n) AND 0xFF, int n AND 0xFF] @ take n (drop 5 w) =
    take (5 + n) w"
proof -
  have lt: "unat (w ! 4) < 256" using unsigned_less [where 'a = nat, of "w ! 4"] by simp
  have "unat (w ! 3) = n div 256" "unat (w ! 4) = n mod 256"
    using assms(3) be16_split [OF lt, of "unat (w ! 3)" n] by (simp_all add: declared_len_def)
  moreover have "unat (of_nat n :: u8) = n" using assms(4) by (simp add: unsigned_of_nat take_bit_eq_mod)
  ultimately have f: "w ! 3 = 0" "w ! 4 = of_nat n" using small_len [OF assms(4)] by (simp_all add: word_unat_eq_iff)
  have "take 5 w = [w ! 0, w ! 1, w ! 2, w ! 3, w ! 4]" using assms(2) by (intro take_five) simp
  then show ?thesis
    using f assms(1) small_len [OF assms(4)] by (simp add: take_add VER_def GOV_VER_def byte_of_int)
qed

lemma gs_crc_first:
  assumes "gs_rep g (Collecting w)" and "length w = 5 + declared_len w"
  shows "gs_refines_at g (Collecting w) b"
proof -
  define n where "n = declared_len w"
  have l: "length w = 5 + n" "5 \<le> length w" "w \<noteq> []" using assms(2) by (auto simp: n_def)
  have st: "w ! 0 = GOV_VER" "g_type g = uint (w ! 1)" "g_seq g = uint (w ! 2)" "g_len g = int n" "n \<le> 64" "g_state g = CRC"
    "take n (g_buf g) = take n (drop 5 w)" "g_crc_bytes g = drop (5 + n) w"
    using assms l by (auto simp: n_def)
  have v: "(w @ [b]) ! 0 = GOV_VER" "(w @ [b]) ! 1 = w ! 1" "(w @ [b]) ! 2 = w ! 2" "declared_len (w @ [b]) = n"
    using l st(1) by (simp_all add: nth_append n_def)
  have sp: "spec_push (Collecting w) b = (Collecting (w @ [b]), [])"
    using l v(4) by (simp add: Let_def)
  have c: "g_crc_bytes g = []" "take n (drop 5 (w @ [b])) = take n (drop 5 w)" "drop (5 + n) (w @ [b]) = [b]"
    using l(1) st(8) by simp_all
  have "gs_rep (g\<lparr> g_crc_bytes := [b] \<rparr>) (Collecting (w @ [b]))"
    using l st(1-7) v c by simp
  then show ?thesis
    unfolding gs_refines_at_def sp gs_push_def st(6) c by (simp add: Let_def delivered_def del: gs_rep.simps)
qed

lemma gs_finish:
  assumes "g_type g = uint (w ! 1)" and "g_seq g = uint (w ! 2)" and "g_len g = int n" and "g_crc_bytes g = [a, b]"
    and "map word_of_int [VER, uint (w ! 1), uint (w ! 2), drop_bit 8 (int n) AND 0xFF, int n AND 0xFF] @ take n (g_buf g) =
      take (5 + n) w"
  shows "gs_finish_frame g =
    (let st = g_stats g in
     if [a, b] \<noteq> crc_bytes (gov_crc16_ccitt GOV_CRC_INIT (take (5 + n) w))
     then (reset_hunt (g\<lparr> g_stats := st\<lparr> ds_crc_err := ds_crc_err st + 1 \<rparr> \<rparr>), [])
     else if \<not> is_known_type (w ! 1) then (reset_hunt (g\<lparr> g_stats := st\<lparr> ds_unknown_type := ds_unknown_type st + 1 \<rparr> \<rparr>), [])
     else (reset_hunt (g\<lparr> g_stats := st\<lparr> ds_delivered := ds_delivered st + 1 \<rparr> \<rparr>),
           if g_cb g then [(uint (w ! 1), uint (w ! 2), take n (g_buf g))] else []))"
proof -
  let ?c = "gov_crc16_ccitt GOV_CRC_INIT (take (5 + n) w)"
  have cmp: "uint ?c \<noteq> push_bit 8 (uint a) OR uint b \<longleftrightarrow> [a, b] \<noteq> crc_bytes ?c"
    using crc_rx_bytes [of a b ?c] by (simp only: be16_int unat_be16 [symmetric]) (auto simp: word_uint_eq_iff)
  have ab: "[a, b] ! 0 = a" "[a, b] ! 1 = b" by simp_all
  show ?thesis
    unfolding gs_finish_frame_def Let_def by (simp only: assms ab nat_int crc16_agrees_init known_agrees cmp)
qed

lemma gs_crc_last:
  assumes "gs_rep g (Collecting w)" and "length w = 6 + declared_len w"
  shows "gs_refines_at g (Collecting w) b"
proof -
  define n where "n = declared_len w"
  have l: "length w = 6 + n" "5 \<le> length w" "w \<noteq> []" using assms(2) by (auto simp: n_def)
  have st: "w ! 0 = GOV_VER" "g_type g = uint (w ! 1)" "g_seq g = uint (w ! 2)" "g_len g = int n" "n \<le> 64" "g_state g = CRC"
    "take n (g_buf g) = take n (drop 5 w)" "g_crc_bytes g = drop (5 + n) w"
    using assms l by (auto simp: n_def)
  have v: "(w @ [b]) ! 1 = w ! 1" "(w @ [b]) ! 2 = w ! 2" "declared_len (w @ [b]) = n"
    using l by (simp_all add: nth_append n_def)
  have "length (drop (5 + n) w) = Suc 0" using l(1) by simp
  then obtain a where a: "drop (5 + n) w = [a]" unfolding length_Suc_conv by auto
  have body: "take (5 + n) (w @ [b]) = take (5 + n) w" and tl: "drop (5 + n) (w @ [b]) = [a, b]" using l a by simp_all
  have sp: "spec_push (Collecting w) b = (Hunting, [judge (w @ [b])])"
    using l v(3) by (simp add: Let_def)
  have cov: "map word_of_int [VER, uint (w ! 1), uint (w ! 2), drop_bit 8 (int n) AND 0xFF, int n AND 0xFF] @ take n (g_buf g) =
      take (5 + n) w"
    unfolding st(7) by (rule covered_bytes [OF st(1) _ n_def [symmetric] st(5)]) (simp add: l(1))
  define bad where "bad \<longleftrightarrow> [a, b] \<noteq> crc_bytes (gov_crc16_ccitt GOV_CRC_INIT (take (5 + n) w))"
  have jd: "judge (w @ [b]) = (if bad then Bad_Crc
      else if \<not> is_known_type (w ! 1) then Unknown_Type else Good (Frame (w ! 1) (w ! 2) (take n (g_buf g))))"
    unfolding judge_def bad_def Let_def v body tl using st(7) by (simp add: drop_take)
  let ?g = "g\<lparr> g_crc_bytes := [a, b] \<rparr>"
  have pu: "gs_push g (uint b) = (let (g2, out) = gs_finish_frame ?g in (g2, out, None))"
    unfolding gs_push_def st(6,8) a by (simp add: Let_def)
  have gf: "g_type ?g = uint (w ! 1)" "g_seq ?g = uint (w ! 2)" "g_len ?g = int n" "g_crc_bytes ?g = [a, b]" "g_buf ?g = g_buf g"
    using st(2-4) by simp_all
  note fin = gs_finish [OF gf(1-4) cov [folded gf(5)], folded bad_def]
  show ?thesis
    unfolding gs_refines_at_def sp pu fin jd Let_def
    by (cases bad; cases "is_known_type (w ! 1)") (simp_all add: delivered_def gs_counts_def gs_frame_of_def)
qed

lemma gs_refines:
  assumes "gs_rep g s" and "length (g_buf g) = 64"
  shows "gs_refines_at g s b"
proof (cases s)
  case Hunting
  with assms(1) show ?thesis by (simp add: gs_hunt del: gs_rep.simps)
next
  case (Collecting w)
  note r = assms(1) [unfolded Collecting]
  consider "w = []" | "w \<noteq> []" "length w < 5" | "5 \<le> length w" "length w < 5 + declared_len w"
    | "length w = 5 + declared_len w" | "5 \<le> length w" "5 + declared_len w < length w" by linarith
  then have "gs_refines_at g (Collecting w) b"
  proof cases
    case 1
    with r show ?thesis using gs_ver by blast
  next
    case 5
    moreover have "w \<noteq> []" using 5 by auto
    ultimately have "length w = 6 + declared_len w" using r by (simp split: if_splits)
    with r show ?thesis by (rule gs_crc_last)
  qed (use r assms(2) gs_hdr gs_payload gs_crc_first in blast)+
  then show ?thesis by (simp only: Collecting)
qed

text \<open>A stream of bytes: nothing is raised, and the decoder follows the specification.\<close>

lemma push_bytes_refines:
  assumes "gs_rep g s" and "length (g_buf g) = 64" and "g_cb g" and "push_bytes g bs = (g', out, err)"
  shows "err = None \<and> gs_rep g' (fst (run spec_push s bs)) \<and> out = map gs_frame_of (delivered (snd (run spec_push s bs))) \<and>
    gs_counts (snd (run spec_push s bs)) (g_stats g) (g_stats g') \<and> g_cb g' \<and> length (g_buf g') = 64"
  using assms
proof (induction bs arbitrary: g s out)
  case Nil
  then show ?case by (simp add: push_bytes_def)
next
  case (Cons b bs)
  obtain g1 o1 e1 where p: "gs_push g (uint b) = (g1, o1, e1)" by (cases "gs_push g (uint b)")
  obtain s1 vs where sp: "spec_push s b = (s1, vs)" by (cases "spec_push s b")
  have r: "e1 = None" "gs_rep g1 s1" "o1 = map gs_frame_of (delivered vs)" "gs_counts vs (g_stats g) (g_stats g1)" "g_cb g1"
    "length (g_buf g1) = 64"
    using gs_refines [OF Cons.prems(1,2), of b] Cons.prems(2,3) unfolding gs_refines_at_def p sp by simp_all
  obtain out2 where "push_bytes g1 bs = (g', out2, err)" and o: "out = o1 @ out2"
    using Cons.prems(4) p r(1) by (auto simp: push_bytes_def Let_def split: prod.splits)
  from Cons.IH [OF r(2,6,5) this(1)] r(3,4) show ?case
    by (simp add: sp o gs_counts_def del: gs_rep.simps)
qed

lemma frame_decoder_init_simps [simp]:
  "gs_rep (frame_decoder_init cb) Hunting" "g_cb (frame_decoder_init cb) = cb" "length (g_buf (frame_decoder_init cb)) = 64"
  "g_stats (frame_decoder_init cb) =
     \<lparr> ds_delivered = 0, ds_crc_err = 0, ds_len_err = 0, ds_ver_err = 0, ds_unknown_type = 0 \<rparr>"
  by (simp_all add: frame_decoder_init_def GOV_MAX_PAYLOAD_gs_def)

lemma push_frame:
  assumes "gs_ready g" and "deliverable f"
  shows "\<exists>g'. push_bytes g (frame_bytes f) = (g', [gs_frame_of f], None) \<and> gs_ready g'"
proof -
  obtain g' out err where p: "push_bytes g (frame_bytes f) = (g', out, err)" by (cases "push_bytes g (frame_bytes f)")
  have "run spec_push Hunting (frame_bytes f) = (Hunting, [Good f])"
    using spec_frame [of f] assms(2) by (simp add: deliverable_def)
  then show ?thesis
    using push_bytes_refines [OF _ _ _ p, of Hunting] assms(1) p by (simp add: gs_ready_def)
qed

lemma take_push: "push_bytes g bs = (g', out, None) \<Longrightarrow> run gs_take g bs = (g', out)"
proof (induction bs arbitrary: g out)
  case Nil
  then show ?case by (simp add: push_bytes_def)
next
  case (Cons b bs)
  then obtain g1 o1 o2 where "gs_push g (uint b) = (g1, o1, None)" "push_bytes g1 bs = (g', o2, None)" "out = o1 @ o2"
    by (auto simp: push_bytes_def Let_def split: prod.splits option.splits)
  with Cons.IH show ?case by (simp add: run_Cons gs_take_def)
qed

text \<open>The ground station's codec is a link as the firmware's is.\<close>

interpretation gs_link: framing gs_enc gs_take gs_ready gs_valid
proof
  fix g f
  assume g: "gs_ready g" and v: "gs_valid f"
  obtain t q p where f: "f = (t, q, p)" by (cases f)
  let ?f = "Frame (word_of_int t) (word_of_int q) p"
  have t: "t \<in> set MsgType" "0 \<le> q" "q \<le> 255" "length p \<le> 64" using v by (simp_all add: f gs_valid_def)
  then have t': "0 \<le> t" "t \<le> 255"
    by (auto simp: MsgType_def MsgType_DATA_def MsgType_ACK_def MsgType_NAK_def MsgType_CMD_def MsgType_HEARTBEAT_def
        MsgType_CFG_WRITE_def)
  have u: "uint (word_of_int t :: u8) = t" "uint (word_of_int q :: u8) = q"
    using t t' by (simp_all add: uint_word_of_int)
  have "deliverable ?f"
    using t known_agrees [of "word_of_int t"] by (simp add: deliverable_def frame_ok_def known_def GOV_MAX_PAYLOAD_def u)
  from push_frame [OF g this] obtain g' where "push_bytes g (frame_bytes ?f) = (g', [f], None)" "gs_ready g'"
    by (auto simp: gs_frame_of_def u f)
  moreover have "gs_enc f = frame_bytes ?f" using t t' by (simp add: gs_enc_def f encode_frame_eq)
  ultimately show "gs_ready (fst (run gs_take g (gs_enc f))) \<and> snd (run gs_take g (gs_enc f)) = [f]"
    using take_push by simp
qed

section \<open>The capture reads what the firmware encodes\<close>

lemma from_bytes_be32: "from_bytes_big (be32 v) = uint v"
proof -
  define x where "x = unat v"
  have lt: "x < 4294967296" using unsigned_less [where 'a = nat, of v] by (simp add: x_def)
  have u: "uint (of_nat n :: u8) = int (n mod 256)" for n by (simp add: unsigned_of_nat take_bit_eq_mod of_nat_mod)
  define y z w where "y = x div 256" and "z = x div 65536" and "w = x div 16777216"
  have "z = y div 256" "w = z div 256" "w < 256" using lt
    by (simp_all add: y_def z_def w_def div_mult2_eq [symmetric] less_mult_imp_div_less)
  then have "256 * y + x mod 256 = x" "256 * z + y mod 256 = y" "256 * w + z mod 256 = z" "w mod 256 = w"
    by (simp_all add: y_def)
  then have eq: "256 * (256 * (256 * (x div 16777216 mod 256) + x div 65536 mod 256) + x div 256 mod 256) + x mod 256 = x"
    unfolding y_def [symmetric] z_def [symmetric] w_def [symmetric] by (simp only:)
  have be: "be32 v = [of_nat (x div 16777216), of_nat (x div 65536), of_nat (x div 256), of_nat x]"
    using byte_at [of 24 v] byte_at [of 16 v] byte_at [of 8 v] low_byte [of v] by (simp add: be32_def x_def)
  have "from_bytes_big (be32 v) =
      int (256 * (256 * (256 * (x div 16777216 mod 256) + x div 65536 mod 256) + x div 256 mod 256) + x mod 256)"
    unfolding be from_bytes_big_def
    by (simp only: foldl_Cons foldl_Nil u of_nat_add of_nat_mult of_nat_numeral mult_zero_right add_0)
  also have "\<dots> = uint v" unfolding eq by (simp add: x_def)
  finally show ?thesis .
qed

lemma captured:
  "capture_all hs = map (\<lambda>(q, h, t). \<lparr> cap_seq = q, cap_msg_type = 5, cap_recv_ms = t, cap_state = Some (uint (hb_state h)),
     cap_fault_flags = Some (uint (hb_fault_flags h)), cap_raw = heartbeat_bytes h \<rparr>) hs"
proof -
  have "take 4 (be32 (hb_fault_flags h) @ xs) = be32 (hb_fault_flags h)" for h xs by simp
  then show ?thesis
    by (induction hs rule: rev_induct)
      (auto simp: capture_all_def capture_heartbeat_def heartbeat_bytes_def from_bytes_be32 split: prod.split)
qed

section \<open>Properties\<close>

text \<open>
  C17. The two decoders are equivalent: fed the same byte stream from their initial states, the
  ground station's decoder raises no exception, delivers the frames that the firmware's decoder
  delivers, counts them, and its counters of CRC, length and type errors are those of the
  firmware's decoder, which wrap around at 32 bits.
\<close>

theorem ground_decoder_agrees:
  "let (g, fs, err) = push_bytes (frame_decoder_init True) bs;
       (d, out) = run gov_decoder_push (gov_decoder_init True) bs
   in err = None \<and> fs = map gs_frame_of out \<and> ds_delivered (g_stats g) = int (length out) \<and>
     st_crc_err (d_stats d) = word_of_int (ds_crc_err (g_stats g)) \<and>
     st_len_err (d_stats d) = word_of_int (ds_len_err (g_stats g)) \<and>
     st_unknown_type (d_stats d) = word_of_int (ds_unknown_type (g_stats g))"
proof -
  obtain g fs err where p: "push_bytes (frame_decoder_init True) bs = (g, fs, err)"
    by (cases "push_bytes (frame_decoder_init True) bs")
  note r = push_bytes_refines [OF frame_decoder_init_simps(1,3) _ p]
  have "st_crc_err (d_stats (gov_decoder_init True)) = 0" "st_len_err (d_stats (gov_decoder_init True)) = 0"
    "st_unknown_type (d_stats (gov_decoder_init True)) = 0"
    by (simp_all add: gov_decoder_init_def)
  then show ?thesis
    using r run_refines [of "gov_decoder_init True" Hunting bs]
    by (simp add: p case_prod_beta counts_def gs_counts_def del: gs_rep.simps)
qed

text \<open>
  The two encoders are equivalent: on every payload whose length a 16-bit word can hold, the
  ground station's encoder returns the bytes that the firmware's encoder writes into a buffer of
  the largest frame, and raises ValueError exactly when the firmware's encoder refuses the payload
  or the type or the sequence number is not a byte.
\<close>

theorem ground_encoder_agrees:
  assumes "length p < 2 ^ 16" and "72 \<le> length buf"
  shows "let (buf', n) = gov_frame_encode (word_of_int t) (word_of_int q) (Some p) (of_nat (length p)) (Some buf) (length buf) in
    encode_frame t q p =
      (if 0 \<le> t \<and> t \<le> 255 \<and> 0 \<le> q \<and> q \<le> 255 \<and> n \<noteq> 0 then Inr (take n (the buf')) else Inl ValueError)"
proof -
  have u: "unat (of_nat (length p) :: u16) = length p"
    using assms(1) by (simp add: unsigned_of_nat take_bit_eq_mod)
  show ?thesis
  proof (cases "length p \<le> 64")
    case True
    then show ?thesis
      using encode_success [of "of_nat (length p)" "Some p" "length buf" buf "word_of_int t" "word_of_int q"] assms(2)
      by (simp add: u encode_frame_eq GOV_MAX_PAYLOAD_def)
  next
    case False
    then show ?thesis by (simp add: gov_frame_encode_def u GOV_MAX_PAYLOAD_def encode_frame_eq)
  qed
qed

theorem ground_encoder_agrees_witness:
  "encode_frame 4 9 [0xE5] = Inr (take 9 (the (fst (gov_frame_encode 4 9 (Some [0xE5]) 1 (Some (replicate 72 0)) 72)))) \<and>
   encode_frame 4 256 [0xE5] = Inl ValueError"
proof
  have "gov_frame_encode 4 9 (Some [0xE5]) 1 (Some (replicate 72 0)) 72 =
      (Some (frame_bytes (Frame 4 9 [0xE5]) @ replicate 63 0), 9)"
    using encode_success [of 1 "Some [0xE5]" 72 "replicate 72 0" 4 9] by (simp add: GOV_MAX_PAYLOAD_def)
  then show "encode_frame 4 9 [0xE5] = Inr (take 9 (the (fst (gov_frame_encode 4 9 (Some [0xE5]) 1 (Some (replicate 72 0)) 72))))"
    using ground_encoder_agrees [of "[0xE5]" "replicate 72 0" 4 9] by simp
  show "encode_frame 4 256 [0xE5] = Inl ValueError"
    using ground_encoder_agrees [of "[0xE5]" "replicate 72 0" 4 256] by (simp add: case_prod_beta)
qed

text \<open>
  The capture agrees with the firmware's heartbeat encoding: after heartbeats were captured in any
  number, the last state is that of the last one, a state was seen when one of them had it, and a
  mask of fault bits was seen when one of them had all of its bits.
\<close>

theorem ground_reads_heartbeats:
  "last_state (capture_all hs) = (if hs = [] then None else Some (uint (hb_state (fst (snd (last hs)))))) \<and>
   (saw_state (capture_all hs) st \<longleftrightarrow> (\<exists>(q, h, t) \<in> set hs. uint (hb_state h) = st)) \<and>
   (saw_fault_bit (capture_all hs) m \<longleftrightarrow> (\<exists>(q, h, t) \<in> set hs. uint (hb_fault_flags h) AND m = m))"
proof (intro conjI)
  show "last_state (capture_all hs) = (if hs = [] then None else Some (uint (hb_state (fst (snd (last hs))))))"
    by (cases hs rule: rev_cases) (auto simp: captured last_state_def split: prod.split)
  show "saw_state (capture_all hs) st \<longleftrightarrow> (\<exists>(q, h, t) \<in> set hs. uint (hb_state h) = st)"
    by (force simp: captured saw_state_def list_ex_iff)
  show "saw_fault_bit (capture_all hs) m \<longleftrightarrow> (\<exists>(q, h, t) \<in> set hs. uint (hb_fault_flags h) AND m = m)"
    by (force simp: captured saw_fault_bit_def list_ex_iff)
qed
end
