(* ===== verification/Gov_Duplex.thy ===== *)
theory Gov_Duplex
  imports Gov_Arq Gov_Ground
begin

text \<open>
  The link in both directions at once: the ground station's endpoint with its queue of commands at
  one end, the firmware's decoder, sender and receiver behind \<^verbatim>\<open>on_decoded_frame\<close> at the other, and
  one channel each way that carries commands, telemetry and the acknowledgements of the other
  direction, and may lose, repeat and corrupt what it carries. Each direction is simulated by the
  one-way link of Gov_Arq, whose invariants give what arrives.
\<close>

section \<open>The system\<close>

record duplex =
  x_gs :: endpoint
  x_exn :: "py_error list"
  x_dec :: gov_decoder
  x_tx :: gov_tx
  x_rx :: gov_rx
  x_up :: "u8 list list"
  x_down :: "u8 list list"
  x_asked :: "(int \<times> u8 list) list"
  x_cmds :: "gov_frame list"
  x_told :: "gov_frame list"
  x_seen :: "gs_frame list"

definition duplex_init :: duplex where
  "duplex_init = \<lparr> x_gs = endpoint_init True True, x_exn = [], x_dec = gov_decoder_init True, x_tx = gov_tx_init True,
     x_rx = gov_rx_init True True, x_up = [], x_down = [], x_asked = [], x_cmds = [], x_told = [], x_seen = [] \<rparr>"

text \<open>What the callbacks of the endpoint put on the wire and hand to the operator.\<close>

definition sends :: "gs_out list \<Rightarrow> u8 list list" where
  "sends os = concat (map (\<lambda>x. case x of SendBytes w \<Rightarrow> [w] | _ \<Rightarrow> []) os)"

definition hears :: "gs_out list \<Rightarrow> gs_frame list" where
  "hears os = concat (map (\<lambda>x. case x of Deliver t q p \<Rightarrow> [(t, q, p)] | _ \<Rightarrow> []) os)"

definition gs_apply :: "duplex \<Rightarrow> gs_result \<Rightarrow> duplex" where
  "gs_apply s r =
     (let (e, os, err) = r in
      s\<lparr> x_gs := e, x_up := x_up s @ sends os, x_seen := x_seen s @ hears os,
         x_exn := x_exn s @ (case err of None \<Rightarrow> [] | Some x \<Rightarrow> [x]) \<rparr>)"

text \<open>The operator sends a command, the ground station's timer, a transmission from the node.\<close>

definition dup_ask :: "int \<Rightarrow> u8 list \<Rightarrow> int \<Rightarrow> duplex \<Rightarrow> duplex" where
  "dup_ask t p now s = gs_apply (s\<lparr> x_asked := x_asked s @ [(t, p)] \<rparr>) (gs_send (x_gs s) t p now)"

definition dup_tick :: "int \<Rightarrow> duplex \<Rightarrow> duplex" where
  "dup_tick now s = gs_apply s (gs_tick (x_gs s) now)"

definition dup_hear :: "u8 list \<Rightarrow> int \<Rightarrow> duplex \<Rightarrow> duplex" where
  "dup_hear v now s = gs_apply s (gs_feed (x_gs s) v now)"

text \<open>The firmware's callback for a decoded frame, on the sender and the receiver.\<close>

definition link_frame :: "gov_tx \<times> gov_rx \<Rightarrow> gov_frame \<Rightarrow> (gov_tx \<times> gov_rx) \<times> rx_out list" where
  "link_frame l f =
     (let (tx, rx) = l in
      if f_type f = GOV_TYPE_ACK \<and> length (f_payload f) \<ge> 1
      then ((gov_tx_on_ack tx (f_payload f ! 0), rx), [])
      else let (rx', out) = gov_rx_on_frame rx f in ((tx, rx'), out))"

definition dup_recv :: "u8 list \<Rightarrow> duplex \<Rightarrow> duplex" where
  "dup_recv v s =
     (let (d, fs) = run gov_decoder_push (x_dec s) v;
          ((tx, rx), out) = run link_frame (x_tx s, x_rx s) fs in
      s\<lparr> x_dec := d, x_tx := tx, x_rx := rx, x_down := x_down s @ wires out, x_cmds := x_cmds s @ apps out \<rparr>)"

definition dup_tell :: "u8 \<Rightarrow> u8 list \<Rightarrow> u32 \<Rightarrow> duplex \<Rightarrow> duplex" where
  "dup_tell type p t s =
     (let (tx, out, st) = gov_tx_send (x_tx s) type (Some p) (of_nat (length p)) t in
      s\<lparr> x_tx := tx, x_down := x_down s @ out,
         x_told := x_told s @ (if st = GOV_TX_OK then [Frame type (tx_next_seq (x_tx s)) p] else []) \<rparr>)"

definition dup_poll :: "u32 \<Rightarrow> duplex \<Rightarrow> duplex" where
  "dup_poll t s =
     (let (tx, out, st) = gov_tx_poll (x_tx s) t in s\<lparr> x_tx := tx, x_down := x_down s @ out \<rparr>)"

text \<open>The steps; \<open>clr\<close> says whether the firmware may clear a latched link fault.\<close>

inductive duplex_step :: "bool \<Rightarrow> duplex \<Rightarrow> duplex \<Rightarrow> bool" for clr where
  ask: "t \<in> set RELIABLE_TYPES \<Longrightarrow> length p \<le> 64 \<Longrightarrow> duplex_step clr s (dup_ask t p now s)"
| tick: "duplex_step clr s (dup_tick now s)"
| hear: "x_down s = v # vs \<Longrightarrow> duplex_step clr s (dup_hear v now (s\<lparr> x_down := vs \<rparr>))"
| recv: "x_up s = v # vs \<Longrightarrow> duplex_step clr s (dup_recv v (s\<lparr> x_up := vs \<rparr>))"
| tell: "uint type \<in> set RELIABLE_TYPES \<Longrightarrow> length p < 65536 \<Longrightarrow> duplex_step clr s (dup_tell type p t s)"
| poll: "duplex_step clr s (dup_poll t s)"
| clear: "clr \<Longrightarrow> duplex_step clr s (s\<lparr> x_tx := gov_tx_clear_fault (x_tx s) \<rparr>)"
| bad_up: "damaged (x_up s) vs \<Longrightarrow> duplex_step clr s (s\<lparr> x_up := vs \<rparr>)"
| bad_down: "damaged (x_down s) vs \<Longrightarrow> duplex_step clr s (s\<lparr> x_down := vs \<rparr>)"

definition duplex_reach :: "bool \<Rightarrow> duplex \<Rightarrow> bool" where
  "duplex_reach clr s \<longleftrightarrow> (duplex_step clr)\<^sup>*\<^sup>* duplex_init s"

text \<open>The frame that carries the command of an index.\<close>

definition cmd_frame :: "(int \<times> u8 list) list \<Rightarrow> nat \<Rightarrow> gov_frame" where
  "cmd_frame asked i = Frame (word_of_int (fst (asked ! i))) (of_nat i) (snd (asked ! i))"

section \<open>What the channels carry\<close>

definition cmd_wire :: "u8 list \<Rightarrow> bool" where
  "cmd_wire v \<longleftrightarrow> (\<exists>f. frame_ok f \<and> uint (f_type f) \<in> set RELIABLE_TYPES \<and> v = frame_bytes f)"

definition ack_wire :: "u8 list \<Rightarrow> bool" where
  "ack_wire v \<longleftrightarrow> (\<exists>q. v = frame_bytes (ack_frame q))"

definition wire_ok :: "u8 list \<Rightarrow> bool" where
  "wire_ok v \<longleftrightarrow> cmd_wire v \<or> ack_wire v \<or> harmless v"

section \<open>Simulation relations\<close>

text \<open>The endpoint as a sender.\<close>

definition gs_as_tx :: "endpoint \<Rightarrow> gov_tx \<Rightarrow> bool" where
  "gs_as_tx e tx \<longleftrightarrow>
     e_tx_seq e = uint (tx_next_seq tx) \<and>
     (case e_outstanding e of None \<Rightarrow> tx_state tx = GOV_TX_IDLE
      | Some out \<Rightarrow> tx_state tx = GOV_TX_WAIT_ACK \<and> o_seq out = uint (tx_cur_seq tx) \<and> o_retries out = uint (tx_retries tx) \<and>
          (\<exists>f. tx_holds tx f \<and> uint (f_type f) \<in> set RELIABLE_TYPES \<and> o_frame out = frame_bytes f))"

definition valid_cmd :: "int \<times> u8 list \<Rightarrow> bool" where
  "valid_cmd c \<longleftrightarrow> fst c \<in> set RELIABLE_TYPES \<and> length (snd c) \<le> 64"

definition up_sim :: "duplex \<Rightarrow> arq \<Rightarrow> bool" where
  "up_sim s u \<longleftrightarrow>
     gs_as_tx (x_gs s) (a_tx u) \<and> a_rx u = x_rx s \<and> a_got u = x_cmds s \<and>
     a_fwd u = filter cmd_wire (x_up s) \<and> a_back u = filter ack_wire (x_down s) \<and>
     (\<exists>ini. x_asked s = ini @ e_pending (x_gs s) \<and> a_sent u = map (cmd_frame ini) [0..<length ini]) \<and>
     list_all valid_cmd (x_asked s) \<and>
     arq_reach (e_link_fault_count (x_gs s) \<noteq> 0) u"

definition down_sim :: "bool \<Rightarrow> duplex \<Rightarrow> arq \<Rightarrow> bool" where
  "down_sim clr s d \<longleftrightarrow>
     a_tx d = x_tx s \<and> e_last_rx_seq (x_gs s) = map_option uint (rx_last (a_rx d)) \<and> map gs_frame_of (a_got d) = x_seen s \<and>
     a_fwd d = filter cmd_wire (x_down s) \<and> a_back d = filter ack_wire (x_up s) \<and> a_sent d = x_told s \<and>
     list_all (\<lambda>f. uint (f_type f) \<in> set RELIABLE_TYPES) (x_told s) \<and> arq_reach clr d"

definition ends_ok :: "duplex \<Rightarrow> bool" where
  "ends_ok s \<longleftrightarrow>
     x_exn s = [] \<and> gs_ready (e_decoder (x_gs s)) \<and> e_on_deliver (x_gs s) \<and> e_link_fault_count (x_gs s) \<ge> 0 \<and>
     (e_link_fault_count (x_gs s) = 0 \<and> e_outstanding (x_gs s) = None \<longrightarrow> e_pending (x_gs s) = []) \<and>
     dec_ready (x_dec s) \<and> list_all wire_ok (x_up s) \<and> list_all wire_ok (x_down s)"

definition duplex_sim :: "bool \<Rightarrow> duplex \<Rightarrow> arq \<Rightarrow> arq \<Rightarrow> bool" where
  "duplex_sim clr s u d \<longleftrightarrow> ends_ok s \<and> up_sim s u \<and> down_sim clr s d"

section \<open>Transmissions\<close>

lemma reliable_types:
  "uint t \<in> set RELIABLE_TYPES \<longleftrightarrow> is_known_type t \<and> t \<noteq> GOV_TYPE_ACK \<and> t \<noteq> GOV_TYPE_NAK"
  by (auto simp: RELIABLE_TYPES_def MsgType_DATA_def MsgType_CMD_def MsgType_HEARTBEAT_def MsgType_CFG_WRITE_def
      is_known_type_def gov_defs word_uint_eq_iff)

lemma ready_init: "dec_ready (gov_decoder_init True)"
  by (simp add: dec_ready_def)

lemma cmd_deliverable: "frame_ok f \<Longrightarrow> uint (f_type f) \<in> set RELIABLE_TYPES \<Longrightarrow> deliverable f"
  by (simp add: deliverable_def known_def reliable_types)

lemma fed_frame: "deliverable f \<Longrightarrow> snd (run gov_decoder_push (gov_decoder_init True) (frame_bytes f)) = [f]"
  by (rule link.feed_enc [OF ready_init, THEN conjunct2])

lemma not_harmless: "deliverable f \<Longrightarrow> \<not> harmless (frame_bytes f)"
  by (drule fed_frame) (use ready_init in \<open>auto simp only: harmless_def list.distinct\<close>)

lemma bytes_inj:
  assumes "deliverable f" and "deliverable g" and "frame_bytes f = frame_bytes g"
  shows "f = g"
  using fed_frame [OF assms(1)] unfolding assms(3) fed_frame [OF assms(2)] by simp

lemma wires_differ:
  "cmd_wire v \<Longrightarrow> \<not> ack_wire v" "harmless v \<Longrightarrow> \<not> cmd_wire v" "harmless v \<Longrightarrow> \<not> ack_wire v"
proof -
  show "\<not> ack_wire v" if c: "cmd_wire v"
  proof
    assume "ack_wire v"
    then obtain q where q: "v = frame_bytes (ack_frame q)" by (auto simp: ack_wire_def)
    obtain f where f: "frame_ok f" "uint (f_type f) \<in> set RELIABLE_TYPES" "v = frame_bytes f"
      using c by (auto simp: cmd_wire_def)
    have "f = ack_frame q" using cmd_deliverable [OF f(1,2)] deliverable_ack f(3) [symmetric, unfolded q] by (rule bytes_inj)
    with f(2) show False by (simp add: reliable_types ack_frame_def)
  qed
  show "\<not> cmd_wire v" if "harmless v" using that not_harmless cmd_deliverable by (auto simp: cmd_wire_def)
  show "\<not> ack_wire v" if "harmless v" using that not_harmless deliverable_ack by (auto simp: ack_wire_def)
qed

lemma wire_simps [simp]:
  "ack_wire (frame_bytes (ack_frame q))" "\<not> cmd_wire (frame_bytes (ack_frame q))"
  "wire_ok (frame_bytes (ack_frame q))"
  "frame_ok f \<Longrightarrow> uint (f_type f) \<in> set RELIABLE_TYPES \<Longrightarrow> cmd_wire (frame_bytes f)"
  "frame_ok f \<Longrightarrow> uint (f_type f) \<in> set RELIABLE_TYPES \<Longrightarrow> wire_ok (frame_bytes f)"
  "frame_ok f \<Longrightarrow> uint (f_type f) \<in> set RELIABLE_TYPES \<Longrightarrow> \<not> ack_wire (frame_bytes f)"
  using wires_differ(1) by (auto simp: ack_wire_def wire_ok_def cmd_wire_def)

text \<open>Damage to a channel is at most damage to the part of it that a direction uses.\<close>

lemma damaged_filter:
  assumes "damaged vs ws" and "\<And>v. harmless v \<Longrightarrow> \<not> P v"
  shows "filter P ws = filter P vs \<or> damaged (filter P vs) (filter P ws)"
  using assms(1)
proof cases
  case (lose xs v ys)
  then show ?thesis using damaged.lose [of "filter P xs" v "filter P ys"] by simp
next
  case (repeat xs v ys)
  then show ?thesis using damaged.repeat [of "filter P xs" v "filter P ys"] by simp
next
  case (corrupt w xs v ys)
  then show ?thesis using damaged.lose [of "filter P xs" v "filter P ys"] assms(2) [of w] by simp
qed

lemma damaged_ok: "damaged vs ws \<Longrightarrow> list_all wire_ok vs \<Longrightarrow> list_all wire_ok ws"
  by (erule damaged.cases) (auto simp: wire_ok_def)

section \<open>What the endpoint does with a transmission\<close>

lemma harmless_spec:
  assumes "harmless v"
  shows "fst (run spec_push Hunting v) = Hunting" "delivered (snd (run spec_push Hunting v)) = []"
proof -
  let ?r = "run gov_decoder_push (gov_decoder_init True) v"
  have h: "d_state (fst ?r) = GOV_DEC_HUNT_SOF" "snd ?r = []"
    using assms ready_init by (auto simp: harmless_def dec_ready_def)
  have r: "represents (fst ?r) (fst (run spec_push Hunting v))" "snd ?r = delivered (snd (run spec_push Hunting v))"
    using run_refines [of "gov_decoder_init True" Hunting v] by simp_all
  show "fst (run spec_push Hunting v) = Hunting"
    using r(1) h(1) by (cases "fst (run spec_push Hunting v)") (simp_all split: if_splits)
  show "delivered (snd (run spec_push Hunting v)) = []" using r(2) h(2) by simp
qed

lemma push_harmless:
  assumes "gs_ready g" and "harmless v"
  shows "\<exists>g'. push_bytes g v = (g', [], None) \<and> gs_ready g'"
proof -
  obtain g' out err where p: "push_bytes g v = (g', out, err)" by (cases "push_bytes g v")
  show ?thesis
    using push_bytes_refines [OF _ _ _ p, of Hunting] assms(1) harmless_spec [OF assms(2)] p by (simp add: gs_ready_def)
qed

text \<open>The callback does not look at the decoder.\<close>

lemma on_frame_decoder:
  "gs_on_frame (e\<lparr> e_decoder := g \<rparr>) f = (let (e', os, err) = gs_on_frame e f in (e'\<lparr> e_decoder := g \<rparr>, os, err))"
  by (simp add: gs_on_frame_def gs_pump_def Let_def split: prod.split option.split sum.split list.split)

lemma on_frames_decoder:
  "py_for gs_on_frame (e\<lparr> e_decoder := g \<rparr>) fs =
     (let (e', os, err) = py_for gs_on_frame e fs in (e'\<lparr> e_decoder := g \<rparr>, os, err))"
  by (induction fs arbitrary: e) (simp_all add: on_frame_decoder Let_def split: prod.split option.split)

lemma py_for_append:
  "py_for f s (xs @ ys) =
     (let (s1, o1, e1) = py_for f s xs in
      case e1 of Some err \<Rightarrow> (s1, o1, Some err) | None \<Rightarrow> let (s2, o2, e2) = py_for f s1 ys in (s2, o1 @ o2, e2))"
  by (induction xs arbitrary: s) (simp_all add: Let_def split: prod.split option.split)

lemma feed_push:
  assumes "push_bytes (e_decoder e) bs = (g, fs, None)" and "py_for gs_on_frame e fs = (e', os, None)"
  shows "py_for gs_feed_byte e bs = (e'\<lparr> e_decoder := g \<rparr>, os, None)"
  using assms
proof (induction bs arbitrary: e e' fs os)
  case Nil
  then show ?case by (simp add: push_bytes_def)
next
  case (Cons b bs)
  obtain g1 fs1 where p: "gs_push (e_decoder e) (uint b) = (g1, fs1, None)"
    using Cons.prems(1) by (auto simp: push_bytes_def Let_def split: prod.splits option.splits)
  then obtain fs2 where q: "push_bytes g1 bs = (g, fs2, None)" "fs = fs1 @ fs2"
    using Cons.prems(1) by (auto simp: push_bytes_def Let_def split: prod.splits)
  obtain e1 o1 where r: "py_for gs_on_frame e fs1 = (e1, o1, None)"
    using Cons.prems(2) unfolding q(2) py_for_append by (auto simp: Let_def split: prod.splits option.splits)
  then obtain o2 where t: "py_for gs_on_frame e1 fs2 = (e', o2, None)" "os = o1 @ o2"
    using Cons.prems(2) unfolding q(2) py_for_append by (auto simp: Let_def split: prod.splits)
  have "py_for gs_feed_byte (e1\<lparr> e_decoder := g1 \<rparr>) bs = (e'\<lparr> e_decoder := g1, e_decoder := g \<rparr>, o2, None)"
    by (rule Cons.IH [of _ fs2]) (simp_all add: q(1) on_frames_decoder t(1))
  moreover have "gs_feed_byte e b = (e1\<lparr> e_decoder := g1 \<rparr>, o1, None)" by (simp add: gs_feed_byte_def p on_frames_decoder r)
  ultimately show ?case by (simp add: t(2))
qed

lemma feed_harmless:
  assumes "gs_ready (e_decoder e)" and "harmless v"
  shows "\<exists>g. gs_ready g \<and> gs_feed e v now = (e\<lparr> e_now_ms := Some now, e_decoder := g \<rparr>, [], None)"
proof -
  obtain g where g: "push_bytes (e_decoder e) v = (g, [], None)" "gs_ready g" using push_harmless [OF assms] by blast
  then show ?thesis using feed_push [of "e\<lparr> e_now_ms := Some now \<rparr>" v g "[]"] by (auto simp: gs_feed_def)
qed

lemma feed_frame:
  assumes "gs_ready (e_decoder e)" and "deliverable f"
    and "gs_on_frame (e\<lparr> e_now_ms := Some now \<rparr>) (gs_frame_of f) = (e', os, None)"
  shows "\<exists>g. gs_ready g \<and> gs_feed e (frame_bytes f) now = (e'\<lparr> e_decoder := g \<rparr>, os, None)"
proof -
  obtain g where g: "push_bytes (e_decoder e) (frame_bytes f) = (g, [gs_frame_of f], None)" "gs_ready g"
    using push_frame [OF assms(1,2)] by blast
  then show ?thesis
    using feed_push [of "e\<lparr> e_now_ms := Some now \<rparr>" "frame_bytes f" g "[gs_frame_of f]"] assms(3) by (auto simp: gs_feed_def)
qed

section \<open>Each direction is simulated by a one-way link\<close>

lemma reach_step: "arq_reach clr u \<Longrightarrow> arq_step clr u u' \<Longrightarrow> arq_reach clr u'"
  by (simp add: arq_reach_def)

lemma step_mono: "arq_step False u u' \<Longrightarrow> arq_step True u u'"
  by (erule arq_step.cases) (auto intro: arq_step.intros)

lemma reach_mono: "arq_reach False u \<Longrightarrow> arq_reach True u"
  unfolding arq_reach_def by (rule rtranclp_mono [THEN predicate2D, rotated]) (auto intro: step_mono)

lemma reach_weaken: "arq_reach b u \<Longrightarrow> b \<le> b' \<Longrightarrow> arq_reach b' u"
  using reach_mono by (cases b; cases b') auto

lemma sends_hears_simps [simp]:
  "sends [] = []" "sends (SendBytes w # os) = w # sends os" "sends (Deliver t q p # os) = sends os"
  "sends (LinkFault q # os) = sends os" "hears [] = []" "hears (SendBytes w # os) = hears os"
  "hears (Deliver t q p # os) = (t, q, p) # hears os" "hears (LinkFault q # os) = hears os"
  by (simp_all add: sends_def hears_def)

lemma up_simD:
  assumes "up_sim s u"
  shows "gs_as_tx (x_gs s) (a_tx u)" "a_rx u = x_rx s" "a_got u = x_cmds s" "a_fwd u = filter cmd_wire (x_up s)"
    "a_back u = filter ack_wire (x_down s)"
    "\<exists>ini. x_asked s = ini @ e_pending (x_gs s) \<and> a_sent u = map (cmd_frame ini) [0..<length ini]"
    "list_all valid_cmd (x_asked s)" "arq_reach (e_link_fault_count (x_gs s) \<noteq> 0) u"
  using assms unfolding up_sim_def by blast+

lemma up_simI:
  assumes "gs_as_tx (x_gs s) (a_tx u)" "a_rx u = x_rx s" "a_got u = x_cmds s" "a_fwd u = filter cmd_wire (x_up s)"
    "a_back u = filter ack_wire (x_down s)"
    "\<exists>ini. x_asked s = ini @ e_pending (x_gs s) \<and> a_sent u = map (cmd_frame ini) [0..<length ini]"
    "list_all valid_cmd (x_asked s)" "arq_reach (e_link_fault_count (x_gs s) \<noteq> 0) u"
  shows "up_sim s u"
  using assms unfolding up_sim_def by blast

lemma base_of: "arq_reach clr u \<Longrightarrow> tx_inv (a_tx u) \<and> dec_ready (a_dec u) \<and> dec_ready (a_ackdec u) \<and>
    rx_wire (a_rx u) \<and> rx_deliver (a_rx u) \<and> tx_next_seq (a_tx u) = of_nat (length (a_sent u))"
  using base_reach [of clr u] by (auto simp: arq_base_def)

lemma reliable_byte: "t \<in> set RELIABLE_TYPES \<Longrightarrow> 0 \<le> t \<and> t \<le> 255 \<and> uint (word_of_int t :: u8) = t"
  by (auto simp: RELIABLE_TYPES_def MsgType_DATA_def MsgType_CMD_def MsgType_HEARTBEAT_def MsgType_CFG_WRITE_def)

lemma uint_u8 [simp]: "0 \<le> uint (w :: u8)" "uint (w :: u8) \<le> 255"
  using uint_bounded [of w] by simp_all

lemma next_seq_int: "(uint w + 1) AND 0xFF = uint (w + 1 :: u8)"
  by (simp add: mask_bytes uint_word_ariths take_bit_eq_mod)

lemma cmd_frames_snoc:
  "map (cmd_frame (ini @ [c])) [0..<length (ini @ [c])] =
     map (cmd_frame ini) [0..<length ini] @ [Frame (word_of_int (fst c)) (of_nat (length ini)) (snd c)]"
  by (simp add: cmd_frame_def nth_append)

lemma pump_sim:
  assumes "up_sim s u" and "gs_pump (x_gs s) now = (e, os, err)"
  shows "err = None \<and> (\<exists>u'. up_sim (s\<lparr> x_gs := e, x_up := x_up s @ sends os \<rparr>) u') \<and>
    hears os = [] \<and> list_all wire_ok (sends os) \<and> filter ack_wire (sends os) = [] \<and>
    e_decoder e = e_decoder (x_gs s) \<and> e_on_deliver e = e_on_deliver (x_gs s) \<and> e_last_rx_seq e = e_last_rx_seq (x_gs s) \<and>
    e_link_fault_count e = e_link_fault_count (x_gs s) \<and> (e_outstanding e = None \<longrightarrow> e_pending e = [])"
proof (cases "e_outstanding (x_gs s) = None \<and> e_pending (x_gs s) \<noteq> []")
  case False
  then have "e = x_gs s" "os = []" "err = None" "e_outstanding e = None \<longrightarrow> e_pending e = []"
    using assms(2) by (auto simp: gs_pump_def split: if_splits list.splits)
  with assms(1) show ?thesis by auto
next
  case True
  then obtain t p rest where pe: "e_pending (x_gs s) = (t, p) # rest" by (cases "e_pending (x_gs s)") auto
  let ?w = "tx_next_seq (a_tx u)"
  let ?f = "Frame (word_of_int t) ?w p"
  obtain ini where d: "x_asked s = ini @ (t, p) # rest" "a_sent u = map (cmd_frame ini) [0..<length ini]"
    using assms(1) by (auto simp: up_sim_def pe)
  have v: "t \<in> set RELIABLE_TYPES" "length p \<le> 64" using assms(1) by (auto simp: up_sim_def d(1) valid_cmd_def)
  have tx: "e_tx_seq (x_gs s) = uint ?w" "tx_state (a_tx u) = GOV_TX_IDLE"
    using assms(1) True by (auto simp: up_sim_def gs_as_tx_def)
  have r: "arq_reach (e_link_fault_count (x_gs s) \<noteq> 0) u" using assms(1) by (simp add: up_sim_def)
  note b = base_of [OF r]
  have f: "frame_ok ?f" "uint (f_type ?f) \<in> set RELIABLE_TYPES" using v reliable_byte [OF v(1)]
    by (simp_all add: frame_ok_def GOV_MAX_PAYLOAD_def)
  have "encode_frame t (uint ?w) p = Inr (frame_bytes ?f)"
    using v(2) reliable_byte [OF v(1)] by (simp add: encode_frame_eq)
  then have e: "e = (x_gs s)\<lparr> e_pending := rest, e_tx_seq := uint (?w + 1),
      e_outstanding := Some \<lparr> o_seq = uint ?w, o_frame = frame_bytes ?f, o_sent_at_ms = now, o_retries = 0 \<rparr> \<rparr>"
    "os = [SendBytes (frame_bytes ?f)]" "err = None"
    using assms(2) True by (simp_all add: gs_pump_def pe tx(1) next_seq_int Let_def)
  let ?r = "gov_tx_send (a_tx u) (word_of_int t) (Some p) (of_nat (length p)) 0"
  define u' where "u' = arq_send (word_of_int t) p 0 u"
  have st: "fst (snd ?r) = [frame_bytes ?f]" "snd (snd ?r) = GOV_TX_OK" "tx_state (fst ?r) = GOV_TX_WAIT_ACK"
    "tx_next_seq (fst ?r) = ?w + 1" "tx_holds (fst ?r) ?f" "tx_retries (fst ?r) = 0" "tx_cur_seq (fst ?r) = ?w"
    using send_cases [of "a_tx u" p "word_of_int t" 0] b v(2) tx(2)
    by (simp_all add: Let_def tx_holds_def frame_ok_def GOV_MAX_PAYLOAD_def)
  have u': "u' = u\<lparr> a_tx := fst ?r, a_fwd := a_fwd u @ [frame_bytes ?f], a_sent := a_sent u @ [?f] \<rparr>"
    using st(1,2) by (simp add: u'_def arq_send_def case_prod_beta)
  have "arq_step (e_link_fault_count (x_gs s) \<noteq> 0) u u'"
    unfolding u'_def using v(2) f(2) by (intro arq_step.send) (simp_all add: reliable_types)
  then have r': "arq_reach (e_link_fault_count (x_gs s) \<noteq> 0) u'" using r by (rule reach_step [rotated])
  have sent: "a_sent u' = map (cmd_frame (ini @ [(t, p)])) [0..<length (ini @ [(t, p)])]"
    unfolding cmd_frames_snoc using b d(2) by (simp add: u')
  have "gs_as_tx e (fst ?r)" using st f(2) by (auto simp: gs_as_tx_def e)
  moreover have "\<exists>ini'. x_asked s = ini' @ rest \<and> a_sent u' = map (cmd_frame ini') [0..<length ini']"
    using sent d(1) by (intro exI [of _ "ini @ [(t, p)]"]) simp
  ultimately have "up_sim (s\<lparr> x_gs := e, x_up := x_up s @ sends os \<rparr>) u'"
    using up_simD(2-5,7) [OF assms(1)] r' f by (intro up_simI) (simp_all add: u' e)
  with e f show ?thesis by auto
qed

text \<open>A simulation reads only some fields.\<close>

lemma up_sim_cong:
  assumes "up_sim s u" and "x_rx s' = x_rx s" "x_cmds s' = x_cmds s" "x_up s' = x_up s"
    "filter ack_wire (x_down s') = filter ack_wire (x_down s)" "x_asked s' = x_asked s"
    "e_tx_seq (x_gs s') = e_tx_seq (x_gs s)" "e_outstanding (x_gs s') = e_outstanding (x_gs s)"
    "e_pending (x_gs s') = e_pending (x_gs s)" "e_link_fault_count (x_gs s') = e_link_fault_count (x_gs s)"
  shows "up_sim s' u"
  using assms unfolding up_sim_def gs_as_tx_def by simp

lemma down_sim_cong:
  assumes "down_sim clr s d" and "x_tx s' = x_tx s" "x_seen s' = x_seen s" "filter cmd_wire (x_down s') = filter cmd_wire (x_down s)"
    "filter ack_wire (x_up s') = filter ack_wire (x_up s)" "x_told s' = x_told s"
    "e_last_rx_seq (x_gs s') = e_last_rx_seq (x_gs s)"
  shows "down_sim clr s' d"
  using assms unfolding down_sim_def by simp

lemma sim_ask:
  assumes "duplex_sim clr s u d" and "t \<in> set RELIABLE_TYPES" and "length p \<le> 64"
  shows "\<exists>u'. duplex_sim clr (dup_ask t p now s) u' d"
proof -
  let ?e = "(x_gs s)\<lparr> e_pending := e_pending (x_gs s) @ [(t, p)] \<rparr>"
  let ?s = "s\<lparr> x_asked := x_asked s @ [(t, p)], x_gs := ?e \<rparr>"
  obtain e os err where r: "gs_pump ?e now = (e, os, err)" by (cases "gs_pump ?e now")
  note i = assms(1) [unfolded duplex_sim_def, THEN conjunct1, unfolded ends_ok_def]
  note u = assms(1) [unfolded duplex_sim_def, THEN conjunct2, THEN conjunct1]
  note d = assms(1) [unfolded duplex_sim_def, THEN conjunct2, THEN conjunct2]
  have "up_sim ?s u"
    using up_simD [OF u] assms(2,3) by (intro up_simI) (auto simp: valid_cmd_def gs_as_tx_def)
  then have p: "err = None" "\<exists>u'. up_sim (?s\<lparr> x_gs := e, x_up := x_up ?s @ sends os \<rparr>) u'" "hears os = []"
    "list_all wire_ok (sends os)" "filter ack_wire (sends os) = []" "e_decoder e = e_decoder (x_gs s)"
    "e_on_deliver e = e_on_deliver (x_gs s)" "e_last_rx_seq e = e_last_rx_seq (x_gs s)"
    "e_link_fault_count e = e_link_fault_count (x_gs s)" "e_outstanding e = None \<longrightarrow> e_pending e = []"
    using pump_sim [of ?s u now e os err] r by simp_all
  then obtain u' where u': "up_sim (?s\<lparr> x_gs := e, x_up := x_up ?s @ sends os \<rparr>) u'" by blast
  have a: "dup_ask t p now s = gs_apply (s\<lparr> x_asked := x_asked s @ [(t, p)] \<rparr>) (e, os, None)"
    using assms(2) r p(1) by (simp add: dup_ask_def gs_send_def)
  have "up_sim (dup_ask t p now s) u'"
    using u' by (rule up_sim_cong) (simp_all add: a gs_apply_def)
  moreover have "down_sim clr (dup_ask t p now s) d"
    using d by (rule down_sim_cong) (simp_all add: a gs_apply_def p)
  moreover have "ends_ok (dup_ask t p now s)"
    using i by (auto simp: a gs_apply_def ends_ok_def p)
  ultimately show ?thesis unfolding duplex_sim_def by blast
qed

lemma poll_overdue:
  assumes "tx_state tx = GOV_TX_WAIT_ACK" and "tx_holds tx f"
  shows "gov_tx_poll tx (tx_last_tx_ms tx + 100) =
    (if tx_retries tx \<ge> GOV_MAX_RETRIES then (tx\<lparr> tx_state := GOV_TX_LINK_FAULT \<rparr>, [], GOV_TX_LINK_FAULT)
     else (tx\<lparr> tx_retries := tx_retries tx + 1, tx_last_tx_ms := tx_last_tx_ms tx + 100 \<rparr>, [frame_bytes f], GOV_TX_WAIT_ACK))"
  using assms by (simp add: gov_tx_poll_def Let_def GOV_ACK_TIMEOUT_MS_def tx_holds_def)

lemma gs_tick_cases:
  obtains (early) "gs_tick e now = (e, [], None)"
    | (again) out where "e_outstanding e = Some out" "o_retries out < 3"
        "gs_tick e now = (e\<lparr> e_outstanding := Some (out\<lparr> o_retries := o_retries out + 1, o_sent_at_ms := now \<rparr>),
           e_retransmit_count := e_retransmit_count e + 1 \<rparr>, [SendBytes (o_frame out)], None)"
    | (fault) out os where "e_outstanding e = Some out" "\<not> o_retries out < 3" "sends os = []" "hears os = []"
        "gs_tick e now = (e\<lparr> e_outstanding := None, e_link_fault_count := e_link_fault_count e + 1 \<rparr>, os, None)"
proof (cases "e_outstanding e")
  case None
  then show thesis using early by (simp add: gs_tick_def)
next
  case (Some out)
  show thesis
  proof (cases "now - o_sent_at_ms out < GOV_ACK_TIMEOUT_MS_gs")
    case True
    with Some show thesis by (intro early) (simp add: gs_tick_def)
  next
    case late: False
    show thesis
    proof (cases "o_retries out < 3")
      case True
      with Some late show thesis by (intro again) (simp_all add: gs_tick_def GOV_MAX_RETRIES_gs_def)
    next
      case False
      with Some late show thesis
        by (intro fault [of out "if e_on_link_fault e then [LinkFault (o_seq out)] else []"])
          (simp_all add: gs_tick_def GOV_MAX_RETRIES_gs_def)
    qed
  qed
qed

lemma sim_retransmit:
  assumes "duplex_sim clr s u d" and "e_outstanding (x_gs s) = Some out" and "o_retries out < 3"
    and "gs_tick (x_gs s) now = ((x_gs s)\<lparr> e_outstanding := Some (out\<lparr> o_retries := o_retries out + 1, o_sent_at_ms := now \<rparr>),
      e_retransmit_count := e_retransmit_count (x_gs s) + 1 \<rparr>, [SendBytes (o_frame out)], None)"
  shows "\<exists>u'. duplex_sim clr (dup_tick now s) u' d"
proof -
  have i: "ends_ok s" and u: "up_sim s u" and d: "down_sim clr s d" using assms(1) by (simp_all add: duplex_sim_def)
  obtain f where f: "tx_state (a_tx u) = GOV_TX_WAIT_ACK" "o_retries out = uint (tx_retries (a_tx u))" "tx_holds (a_tx u) f"
    "uint (f_type f) \<in> set RELIABLE_TYPES" "o_frame out = frame_bytes f"
    using up_simD(1) [OF u] assms(2) by (auto simp: gs_as_tx_def)
  have ok: "frame_ok f" using f(3) by (simp add: tx_holds_def)
  have re: "\<not> tx_retries (a_tx u) \<ge> GOV_MAX_RETRIES" using assms(3) f(2) by (simp add: GOV_MAX_RETRIES_def word_le_def)
  have inc: "uint (tx_retries (a_tx u) + 1) = uint (tx_retries (a_tx u)) + 1"
    using assms(3) f(2) by (simp add: uint_word_ariths)
  let ?tx = "(a_tx u)\<lparr> tx_retries := tx_retries (a_tx u) + 1, tx_last_tx_ms := tx_last_tx_ms (a_tx u) + 100 \<rparr>"
  define u' where "u' = arq_poll (tx_last_tx_ms (a_tx u) + 100) u"
  have u': "u' = u\<lparr> a_tx := ?tx, a_fwd := a_fwd u @ [frame_bytes f] \<rparr>"
    using poll_overdue [OF f(1,3)] re by (simp add: u'_def arq_poll_def)
  have r: "arq_reach (e_link_fault_count (x_gs s) \<noteq> 0) u'"
    unfolding u'_def using up_simD(8) [OF u] by (rule reach_step) (rule arq_step.poll)
  have "tx_holds ?tx f" using f(3) by (simp add: tx_holds_def)
  then have "gs_as_tx ((x_gs s)\<lparr> e_outstanding := Some (out\<lparr> o_retries := o_retries out + 1, o_sent_at_ms := now \<rparr>) \<rparr>) ?tx"
    using up_simD(1) [OF u] f assms(2) inc by (auto simp: gs_as_tx_def)
  then have "up_sim (dup_tick now s) u'"
    using up_simD(2-7) [OF u] r f(4,5) ok
    by (intro up_simI) (simp_all add: dup_tick_def gs_apply_def assms(4) u' gs_as_tx_def)
  moreover have "down_sim clr (dup_tick now s) d"
    using d by (rule down_sim_cong) (simp_all add: dup_tick_def gs_apply_def assms(4) f(4,5) ok)
  moreover have "ends_ok (dup_tick now s)"
    using i by (simp add: ends_ok_def dup_tick_def gs_apply_def assms(4) f(4,5) ok)
  ultimately show ?thesis unfolding duplex_sim_def by blast
qed

lemma sim_fault:
  assumes "duplex_sim clr s u d" and "e_outstanding (x_gs s) = Some out" and "\<not> o_retries out < 3" and "sends os = []" "hears os = []"
    and "gs_tick (x_gs s) now = ((x_gs s)\<lparr> e_outstanding := None, e_link_fault_count := e_link_fault_count (x_gs s) + 1 \<rparr>, os, None)"
  shows "\<exists>u'. duplex_sim clr (dup_tick now s) u' d"
proof -
  have i: "ends_ok s" and u: "up_sim s u" and d: "down_sim clr s d" using assms(1) by (simp_all add: duplex_sim_def)
  obtain f where f: "tx_state (a_tx u) = GOV_TX_WAIT_ACK" "o_retries out = uint (tx_retries (a_tx u))" "tx_holds (a_tx u) f"
    using up_simD(1) [OF u] assms(2) by (auto simp: gs_as_tx_def)
  have re: "tx_retries (a_tx u) \<ge> GOV_MAX_RETRIES" using assms(3) f(2) by (simp add: GOV_MAX_RETRIES_def word_le_def)
  define u1 where "u1 = arq_poll (tx_last_tx_ms (a_tx u) + 100) u"
  define u' where "u' = u1\<lparr> a_tx := gov_tx_clear_fault (a_tx u1) \<rparr>"
  have u1: "u1 = u\<lparr> a_tx := (a_tx u)\<lparr> tx_state := GOV_TX_LINK_FAULT \<rparr> \<rparr>"
    using poll_overdue [OF f(1,3)] re by (simp add: u1_def arq_poll_def)
  have "arq_reach True u" using up_simD(8) [OF u] by (rule reach_weaken) simp
  then have "arq_reach True u1" unfolding u1_def by (rule reach_step) (rule arq_step.poll)
  then have "arq_reach True u'" unfolding u'_def by (rule reach_step) (simp add: arq_step.clear)
  moreover have c: "e_link_fault_count (x_gs s) + 1 \<noteq> 0" using i by (simp add: ends_ok_def)
  ultimately have "up_sim (dup_tick now s) u'"
    using up_simD [OF u]
    by (intro up_simI) (simp_all add: dup_tick_def gs_apply_def assms(4-6) gs_as_tx_def u'_def u1 gov_tx_clear_fault_def)
  moreover have "down_sim clr (dup_tick now s) d"
    using d by (rule down_sim_cong) (simp_all add: dup_tick_def gs_apply_def assms(4-6))
  moreover have "ends_ok (dup_tick now s)"
    using i c by (simp add: ends_ok_def dup_tick_def gs_apply_def assms(4-6))
  ultimately show ?thesis unfolding duplex_sim_def by blast
qed

lemma sim_tick:
  assumes "duplex_sim clr s u d"
  shows "\<exists>u'. duplex_sim clr (dup_tick now s) u' d"
proof (cases rule: gs_tick_cases [of "x_gs s" now])
  case early
  then have "dup_tick now s = s" by (simp add: dup_tick_def gs_apply_def)
  with assms show ?thesis by auto
next
  case (again out)
  with assms show ?thesis by (rule sim_retransmit)
next
  case (fault out os)
  with assms show ?thesis by (rule sim_fault)
qed

section \<open>A transmission arrives at the ground station\<close>

lemma on_ack_frame:
  "gs_on_frame e (gs_frame_of (ack_frame q)) =
     (case e_outstanding e of None \<Rightarrow> (e, [], None)
      | Some out \<Rightarrow> if o_seq out = uint q then gs_pump (e\<lparr> e_outstanding := None \<rparr>) (case e_now_ms e of None \<Rightarrow> 0 | Some t \<Rightarrow> t)
                    else (e, [], None))"
  by (simp add: gs_on_frame_def gs_frame_of_def ack_frame_def MsgType_ACK_def gov_defs split: option.split)

lemma on_cmd_frame:
  assumes "uint (f_type f) \<in> set RELIABLE_TYPES" and "e_on_deliver e"
  shows "\<exists>n. gs_on_frame e (gs_frame_of f) =
    (e\<lparr> e_last_rx_seq := Some (uint (f_seq f)), e_dup_count := n \<rparr>,
     SendBytes (frame_bytes (ack_frame (f_seq f))) #
       (if e_last_rx_seq e = Some (uint (f_seq f)) then [] else [Deliver (uint (f_type f)) (uint (f_seq f)) (f_payload f)]), None)"
proof -
  have n: "uint (f_type f) \<noteq> MsgType_ACK" "uint (f_type f) \<noteq> MsgType_NAK"
    using assms(1) by (auto simp: RELIABLE_TYPES_def MsgType_DATA_def MsgType_CMD_def MsgType_HEARTBEAT_def
        MsgType_CFG_WRITE_def MsgType_ACK_def MsgType_NAK_def)
  have a: "encode_frame MsgType_ACK 0 [f_seq f] = Inr (frame_bytes (ack_frame (f_seq f)))"
    by (simp add: encode_frame_eq MsgType_ACK_def ack_frame_def GOV_TYPE_ACK_def)
  show ?thesis
  proof (cases "e_last_rx_seq e = Some (uint (f_seq f))")
    case True
    then have "e\<lparr> e_last_rx_seq := Some (uint (f_seq f)), e_dup_count := e_dup_count e + 1 \<rparr> = e\<lparr> e_dup_count := e_dup_count e + 1 \<rparr>"
      by (cases e) simp
    then show ?thesis
      using True n assms(2) by (intro exI [of _ "e_dup_count e + 1"]) (simp add: gs_on_frame_def gs_frame_of_def a)
  next
    case False
    then show ?thesis
      using n assms(2) by (intro exI [of _ "e_dup_count e"]) (simp add: gs_on_frame_def gs_frame_of_def a)
  qed
qed

lemma arq_recv_frame:
  assumes "dec_ready (a_dec u)" and "deliverable f"
  shows "\<exists>d. arq_recv (frame_bytes f) u = u\<lparr> a_dec := d, a_rx := fst (gov_rx_on_frame (a_rx u) f),
    a_back := a_back u @ wires (snd (gov_rx_on_frame (a_rx u) f)), a_got := a_got u @ apps (snd (gov_rx_on_frame (a_rx u) f)) \<rparr>"
  using link.feed_enc [OF assms] by (simp add: arq_recv_def case_prod_beta) blast

lemma arq_ack_frame:
  assumes "dec_ready (a_ackdec u)"
  shows "\<exists>d. arq_ack (frame_bytes (ack_frame q)) u = u\<lparr> a_ackdec := d, a_tx := gov_tx_on_ack (a_tx u) q \<rparr>"
  using link.feed_enc [OF assms deliverable_ack, of q] by (simp add: arq_ack_def case_prod_beta take_ack_def ack_frame_def) blast

lemma sim_hear_harmless:
  assumes "duplex_sim clr s u d" and "x_down s = v # vs" and "harmless v"
  shows "duplex_sim clr (dup_hear v now (s\<lparr> x_down := vs \<rparr>)) u d"
proof -
  have i: "ends_ok s" and u: "up_sim s u" and d: "down_sim clr s d" using assms(1) by (simp_all add: duplex_sim_def)
  obtain g where g: "gs_ready g" "gs_feed (x_gs s) v now = ((x_gs s)\<lparr> e_now_ms := Some now, e_decoder := g \<rparr>, [], None)"
    using feed_harmless [of "x_gs s" v now] i assms(3) by (auto simp: ends_ok_def)
  let ?s = "dup_hear v now (s\<lparr> x_down := vs \<rparr>)"
  have "up_sim ?s u" using u
    by (rule up_sim_cong) (use g(2) wires_differ(3) [OF assms(3)] assms(2) in \<open>simp_all add: dup_hear_def gs_apply_def\<close>)
  moreover have "down_sim clr ?s d" using d
    by (rule down_sim_cong) (use g(2) wires_differ(2) [OF assms(3)] assms(2) in \<open>simp_all add: dup_hear_def gs_apply_def\<close>)
  moreover have "ends_ok ?s" using i g assms(2) by (simp add: ends_ok_def dup_hear_def gs_apply_def)
  ultimately show ?thesis by (simp add: duplex_sim_def)
qed

lemma sim_hear_cmd:
  assumes "duplex_sim clr s u d" and "x_down s = frame_bytes f # vs" and "frame_ok f" "uint (f_type f) \<in> set RELIABLE_TYPES"
  shows "\<exists>d'. duplex_sim clr (dup_hear (frame_bytes f) now (s\<lparr> x_down := vs \<rparr>)) u d'"
proof -
  have i: "ends_ok s" and u: "up_sim s u" and d: "down_sim clr s d" using assms(1) by (simp_all add: duplex_sim_def)
  have r: "arq_reach clr d" using d by (simp add: down_sim_def)
  note b = base_of [OF r] and f = cmd_deliverable [OF assms(3,4)]
  have fw: "a_fwd d = frame_bytes f # filter cmd_wire vs" using d assms(2-4) by (simp add: down_sim_def)
  obtain n where n: "gs_on_frame ((x_gs s)\<lparr> e_now_ms := Some now \<rparr>) (gs_frame_of f) =
      ((x_gs s)\<lparr> e_now_ms := Some now, e_last_rx_seq := Some (uint (f_seq f)), e_dup_count := n \<rparr>,
       SendBytes (frame_bytes (ack_frame (f_seq f))) #
       (if e_last_rx_seq (x_gs s) = Some (uint (f_seq f)) then [] else [Deliver (uint (f_type f)) (uint (f_seq f)) (f_payload f)]), None)"
    using on_cmd_frame [OF assms(4), of "(x_gs s)\<lparr> e_now_ms := Some now \<rparr>"] i by (auto simp: ends_ok_def)
  obtain g where g: "gs_ready g" "gs_feed (x_gs s) (frame_bytes f) now =
      ((x_gs s)\<lparr> e_now_ms := Some now, e_last_rx_seq := Some (uint (f_seq f)), e_dup_count := n, e_decoder := g \<rparr>,
       SendBytes (frame_bytes (ack_frame (f_seq f))) #
       (if e_last_rx_seq (x_gs s) = Some (uint (f_seq f)) then [] else [Deliver (uint (f_type f)) (uint (f_seq f)) (f_payload f)]), None)"
    using feed_frame [OF _ f n] i by (auto simp: ends_ok_def)
  let ?s = "dup_hear (frame_bytes f) now (s\<lparr> x_down := vs \<rparr>)"
  define d' where "d' = arq_recv (frame_bytes f) (d\<lparr> a_fwd := filter cmd_wire vs \<rparr>)"
  have "arq_reach clr d'" unfolding d'_def using r by (rule reach_step) (rule arq_step.recv [OF fw])
  moreover obtain dd where d': "d' = d\<lparr> a_fwd := filter cmd_wire vs, a_dec := dd, a_rx := fst (gov_rx_on_frame (a_rx d) f),
      a_back := a_back d @ wires (snd (gov_rx_on_frame (a_rx d) f)), a_got := a_got d @ apps (snd (gov_rx_on_frame (a_rx d) f)) \<rparr>"
    using arq_recv_frame [of "d\<lparr> a_fwd := filter cmd_wire vs \<rparr>" f] b f by (auto simp: d'_def)
  moreover note x = rx_step [of "a_rx d" f]
  moreover have "e_last_rx_seq (x_gs s) = Some (uint (f_seq f)) \<longleftrightarrow> rx_last (a_rx d) = Some (f_seq f)"
    using d by (cases "rx_last (a_rx d)") (auto simp: down_sim_def word_uint_eq_iff)
  ultimately have "down_sim clr ?s d'"
    using d b assms(2-4) by (simp add: down_sim_def dup_hear_def gs_apply_def g(2) gs_frame_of_def)
  moreover have "up_sim ?s u"
  proof -
    have "x_up ?s = x_up s @ [frame_bytes (ack_frame (f_seq f))]" by (simp add: dup_hear_def gs_apply_def g(2))
    then show ?thesis
      using up_simD [OF u] assms(2-4) by (intro up_simI) (simp_all add: dup_hear_def gs_apply_def g(2) gs_as_tx_def)
  qed
  moreover have "ends_ok ?s" using i g assms(2) by (simp add: ends_ok_def dup_hear_def gs_apply_def)
  ultimately show ?thesis unfolding duplex_sim_def by blast
qed

lemma sim_hear_ack:
  assumes "duplex_sim clr s u d" and "x_down s = frame_bytes (ack_frame q) # vs"
  shows "\<exists>u'. duplex_sim clr (dup_hear (frame_bytes (ack_frame q)) now (s\<lparr> x_down := vs \<rparr>)) u' d"
proof -
  have i: "ends_ok s" and u: "up_sim s u" and d: "down_sim clr s d" using assms(1) by (simp_all add: duplex_sim_def)
  note r = up_simD(8) [OF u]
  note b = base_of [OF r]
  let ?v = "frame_bytes (ack_frame q)" and ?e = "(x_gs s)\<lparr> e_now_ms := Some now \<rparr>"
  have bk: "a_back u = ?v # filter ack_wire vs" using up_simD(5) [OF u] assms(2) by simp
  define u1 where "u1 = arq_ack ?v (u\<lparr> a_back := filter ack_wire vs \<rparr>)"
  have r1: "arq_reach (e_link_fault_count (x_gs s) \<noteq> 0) u1"
    unfolding u1_def using r by (rule reach_step) (rule arq_step.ack [OF bk])
  obtain ad where u1: "u1 = u\<lparr> a_back := filter ack_wire vs, a_ackdec := ad, a_tx := gov_tx_on_ack (a_tx u) q \<rparr>"
    using arq_ack_frame [of "u\<lparr> a_back := filter ack_wire vs \<rparr>" q] b by (auto simp: u1_def)
  define hit where "hit \<longleftrightarrow> (\<exists>out. e_outstanding (x_gs s) = Some out \<and> o_seq out = uint q)"
  define e1 where "e1 = (if hit then ?e\<lparr> e_outstanding := None \<rparr> else ?e)"
  define s1 where "s1 = s\<lparr> x_down := vs, x_gs := e1 \<rparr>"
  obtain e os err where p: "(if hit then gs_pump e1 now else (e1, [], None)) = (e, os, err)"
    by (cases "if hit then gs_pump e1 now else (e1, [], None)")
  have "gs_as_tx e1 (a_tx u1)"
    using up_simD(1) [OF u] by (auto simp: e1_def hit_def gs_as_tx_def u1 gov_tx_on_ack_def word_uint_eq_iff split: option.splits)
  then have s1: "up_sim s1 u1"
    using up_simD(2-7) [OF u] r1 by (intro up_simI) (simp_all add: s1_def u1 e1_def)
  have f: "err = None" "\<exists>u'. up_sim (s1\<lparr> x_gs := e, x_up := x_up s1 @ sends os \<rparr>) u'" "hears os = []"
    "list_all wire_ok (sends os)" "filter ack_wire (sends os) = []" "e_decoder e = e_decoder (x_gs s)"
    "e_on_deliver e = e_on_deliver (x_gs s)" "e_last_rx_seq e = e_last_rx_seq (x_gs s)"
    "e_link_fault_count e = e_link_fault_count (x_gs s)"
    "e_link_fault_count (x_gs s) = 0 \<and> e_outstanding e = None \<longrightarrow> e_pending e = []"
    using pump_sim [OF s1, of now e os err] p s1 i
    by (cases hit; auto simp: s1_def e1_def ends_ok_def; fail)+
  obtain u' where u': "up_sim (s1\<lparr> x_gs := e, x_up := x_up s1 @ sends os \<rparr>) u'" using f(2) by blast
  have "gs_on_frame ?e (gs_frame_of (ack_frame q)) = (e, os, None)"
    using p f(1) by (auto simp: on_ack_frame hit_def e1_def split: option.splits if_splits)
  then obtain g where g: "gs_ready g" "gs_feed (x_gs s) ?v now = (e\<lparr> e_decoder := g \<rparr>, os, None)"
    using feed_frame [OF _ deliverable_ack, of "x_gs s" now q e os] i by (auto simp: ends_ok_def)
  let ?s = "dup_hear ?v now (s\<lparr> x_down := vs \<rparr>)"
  have "up_sim ?s u'" using u' by (rule up_sim_cong) (simp_all add: dup_hear_def gs_apply_def g(2) s1_def)
  moreover have "down_sim clr ?s d"
    using d by (rule down_sim_cong) (use f assms(2) in \<open>simp_all add: dup_hear_def gs_apply_def g(2)\<close>)
  moreover have "ends_ok ?s" using i g f assms(2) by (auto simp: ends_ok_def dup_hear_def gs_apply_def)
  ultimately show ?thesis unfolding duplex_sim_def by blast
qed

lemma sim_hear:
  assumes "duplex_sim clr s u d" and "x_down s = v # vs"
  shows "\<exists>u' d'. duplex_sim clr (dup_hear v now (s\<lparr> x_down := vs \<rparr>)) u' d'"
proof -
  have "wire_ok v" using assms by (simp add: duplex_sim_def ends_ok_def)
  then consider f where "v = frame_bytes f" "frame_ok f" "uint (f_type f) \<in> set RELIABLE_TYPES"
    | q where "v = frame_bytes (ack_frame q)" | "harmless v"
    by (auto simp: wire_ok_def cmd_wire_def ack_wire_def)
  then show ?thesis
  proof cases
    case (1 f)
    with sim_hear_cmd [OF assms(1) assms(2) [unfolded 1(1)]] show ?thesis by blast
  next
    case (2 q)
    with sim_hear_ack [OF assms(1) assms(2) [unfolded 2]] show ?thesis by blast
  next
    case 3
    with sim_hear_harmless [OF assms] show ?thesis by blast
  qed
qed

section \<open>The steps of the node\<close>

lemma sim_recv_cmd:
  assumes "duplex_sim clr s u d" and "x_up s = frame_bytes f # vs" and "frame_ok f" "uint (f_type f) \<in> set RELIABLE_TYPES"
  shows "\<exists>u'. duplex_sim clr (dup_recv (frame_bytes f) (s\<lparr> x_up := vs \<rparr>)) u' d"
proof -
  have i: "ends_ok s" and u: "up_sim s u" and d: "down_sim clr s d" using assms(1) by (simp_all add: duplex_sim_def)
  note r = up_simD(8) [OF u]
  note b = base_of [OF r] and f = cmd_deliverable [OF assms(3,4)]
  let ?v = "frame_bytes f" and ?x = "gov_rx_on_frame (x_rx s) f"
  have fw: "a_fwd u = ?v # filter cmd_wire vs" using up_simD(4) [OF u] assms(2-4) by simp
  define u' where "u' = arq_recv ?v (u\<lparr> a_fwd := filter cmd_wire vs \<rparr>)"
  have r': "arq_reach (e_link_fault_count (x_gs s) \<noteq> 0) u'"
    unfolding u'_def using r by (rule reach_step) (rule arq_step.recv [OF fw])
  obtain ud where u': "u' = u\<lparr> a_fwd := filter cmd_wire vs, a_dec := ud, a_rx := fst ?x,
      a_back := a_back u @ wires (snd ?x), a_got := a_got u @ apps (snd ?x) \<rparr>"
    using arq_recv_frame [of "u\<lparr> a_fwd := filter cmd_wire vs \<rparr>" f] b f up_simD(2) [OF u] by (auto simp: u'_def)
  obtain dd where dd: "dec_ready dd" "run gov_decoder_push (x_dec s) ?v = (dd, [f])"
    using link.feed_enc [of "x_dec s" f] f i by (cases "run gov_decoder_push (x_dec s) ?v") (auto simp: ends_ok_def)
  have na: "f_type f \<noteq> GOV_TYPE_ACK" using assms(4) by (simp add: reliable_types)
  have sv: "dup_recv ?v (s\<lparr> x_up := vs \<rparr>) = s\<lparr> x_up := vs, x_dec := dd, x_rx := fst ?x, x_down := x_down s @ wires (snd ?x),
      x_cmds := x_cmds s @ apps (snd ?x) \<rparr>"
    using na by (simp add: dup_recv_def dd(2) link_frame_def run_Cons case_prod_beta)
  have w: "wires (snd ?x) = [frame_bytes (ack_frame (f_seq f))]"
    using rx_step(1) [of "x_rx s" f] b up_simD(2) [OF u] by auto
  have "up_sim (dup_recv ?v (s\<lparr> x_up := vs \<rparr>)) u'"
    unfolding sv using up_simD [OF u] r' w by (intro up_simI) (simp_all add: u' gs_as_tx_def)
  moreover have "down_sim clr (dup_recv ?v (s\<lparr> x_up := vs \<rparr>)) d"
    unfolding sv using d by (rule down_sim_cong) (simp_all add: w assms(2-4))
  moreover have "ends_ok (dup_recv ?v (s\<lparr> x_up := vs \<rparr>))"
    unfolding sv using i dd(1) assms(2) w by (simp add: ends_ok_def)
  ultimately show ?thesis unfolding duplex_sim_def by blast
qed

lemma sim_recv_ack:
  assumes "duplex_sim clr s u d" and "x_up s = frame_bytes (ack_frame q) # vs"
  shows "\<exists>d'. duplex_sim clr (dup_recv (frame_bytes (ack_frame q)) (s\<lparr> x_up := vs \<rparr>)) u d'"
proof -
  have i: "ends_ok s" and u: "up_sim s u" and d: "down_sim clr s d" using assms(1) by (simp_all add: duplex_sim_def)
  have r: "arq_reach clr d" using d by (simp add: down_sim_def)
  note b = base_of [OF r]
  let ?v = "frame_bytes (ack_frame q)"
  have bk: "a_back d = ?v # filter ack_wire vs" using d assms(2) by (simp add: down_sim_def)
  define d' where "d' = arq_ack ?v (d\<lparr> a_back := filter ack_wire vs \<rparr>)"
  have r': "arq_reach clr d'" unfolding d'_def using r by (rule reach_step) (rule arq_step.ack [OF bk])
  obtain ad where d': "d' = d\<lparr> a_back := filter ack_wire vs, a_ackdec := ad, a_tx := gov_tx_on_ack (a_tx d) q \<rparr>"
    using arq_ack_frame [of "d\<lparr> a_back := filter ack_wire vs \<rparr>" q] b by (auto simp: d'_def)
  obtain dd where dd: "dec_ready dd" "run gov_decoder_push (x_dec s) ?v = (dd, [ack_frame q])"
    using link.feed_enc [OF _ deliverable_ack, of "x_dec s" q] i
    by (cases "run gov_decoder_push (x_dec s) ?v") (auto simp: ends_ok_def)
  have sv: "dup_recv ?v (s\<lparr> x_up := vs \<rparr>) = s\<lparr> x_up := vs, x_dec := dd, x_tx := gov_tx_on_ack (x_tx s) q \<rparr>"
    unfolding dup_recv_def by (simp add: dd(2)) (simp add: link_frame_def run_Cons ack_frame_def)
  have "down_sim clr (dup_recv ?v (s\<lparr> x_up := vs \<rparr>)) d'"
    unfolding sv using d r' by (simp add: down_sim_def d')
  moreover have "up_sim (dup_recv ?v (s\<lparr> x_up := vs \<rparr>)) u"
    unfolding sv using up_simD [OF u] assms(2) by (intro up_simI) (simp_all add: gs_as_tx_def)
  moreover have "ends_ok (dup_recv ?v (s\<lparr> x_up := vs \<rparr>))"
    unfolding sv using i dd(1) assms(2) by (simp add: ends_ok_def)
  ultimately show ?thesis unfolding duplex_sim_def by blast
qed

lemma sim_recv:
  assumes "duplex_sim clr s u d" and "x_up s = v # vs"
  shows "\<exists>u' d'. duplex_sim clr (dup_recv v (s\<lparr> x_up := vs \<rparr>)) u' d'"
proof -
  have i: "ends_ok s" and u: "up_sim s u" and d: "down_sim clr s d" using assms(1) by (simp_all add: duplex_sim_def)
  have "wire_ok v" using i assms(2) by (simp add: ends_ok_def)
  then consider f where "v = frame_bytes f" "frame_ok f" "uint (f_type f) \<in> set RELIABLE_TYPES"
    | q where "v = frame_bytes (ack_frame q)" | "harmless v"
    by (auto simp: wire_ok_def cmd_wire_def ack_wire_def)
  then show ?thesis
  proof cases
    case (1 f)
    with sim_recv_cmd [OF assms(1) assms(2) [unfolded 1(1)]] show ?thesis by blast
  next
    case (2 q)
    with sim_recv_ack [OF assms(1) assms(2) [unfolded 2]] show ?thesis by blast
  next
    case 3
    obtain dd where dd: "dec_ready dd" "run gov_decoder_push (x_dec s) v = (dd, [])"
      using 3 i by (cases "run gov_decoder_push (x_dec s) v") (auto simp: ends_ok_def harmless_def)
    have sv: "dup_recv v (s\<lparr> x_up := vs \<rparr>) = s\<lparr> x_up := vs, x_dec := dd \<rparr>"
      by (simp add: dup_recv_def dd(2))
    have "up_sim (dup_recv v (s\<lparr> x_up := vs \<rparr>)) u"
      unfolding sv using up_simD [OF u] assms(2) wires_differ(2) [OF 3] by (intro up_simI) (simp_all add: gs_as_tx_def)
    moreover have "down_sim clr (dup_recv v (s\<lparr> x_up := vs \<rparr>)) d"
      unfolding sv using d by (rule down_sim_cong) (simp_all add: assms(2) wires_differ(3) [OF 3])
    moreover have "ends_ok (dup_recv v (s\<lparr> x_up := vs \<rparr>))"
      unfolding sv using i dd(1) assms(2) by (simp add: ends_ok_def)
    ultimately show ?thesis unfolding duplex_sim_def by blast
  qed
qed

text \<open>The node's sender: what it writes is a frame of its history.\<close>

lemma sim_node_tx:
  assumes "duplex_sim clr s u d" and "arq_reach clr d'" and "d' = d\<lparr> a_tx := tx, a_fwd := a_fwd d @ out, a_sent := a_sent d @ fs \<rparr>"
    and "list_all (\<lambda>f. uint (f_type f) \<in> set RELIABLE_TYPES) fs" and "list_all cmd_wire out"
  shows "duplex_sim clr (s\<lparr> x_tx := tx, x_down := x_down s @ out, x_told := x_told s @ fs \<rparr>) u d'"
proof -
  have i: "ends_ok s" and u: "up_sim s u" and d: "down_sim clr s d" using assms(1) by (simp_all add: duplex_sim_def)
  have o: "list_all wire_ok out" "filter cmd_wire out = out" "filter ack_wire out = []"
    using assms(5) wires_differ(1) by (auto simp: list_all_iff wire_ok_def filter_id_conv filter_empty_conv)
  have "up_sim (s\<lparr> x_tx := tx, x_down := x_down s @ out, x_told := x_told s @ fs \<rparr>) u"
    using u by (rule up_sim_cong) (simp_all add: o)
  moreover have "down_sim clr (s\<lparr> x_tx := tx, x_down := x_down s @ out, x_told := x_told s @ fs \<rparr>) d'"
    using d assms(2,4) o by (simp add: down_sim_def assms(3))
  ultimately show ?thesis using i o by (simp add: duplex_sim_def ends_ok_def)
qed

lemma sim_tell:
  assumes "duplex_sim clr s u d" and "uint type \<in> set RELIABLE_TYPES" and "length p < 65536"
  shows "\<exists>d'. duplex_sim clr (dup_tell type p t s) u d'"
proof -
  have d: "down_sim clr s d" using assms(1) by (simp add: duplex_sim_def)
  have tx: "a_tx d = x_tx s" and r: "arq_reach clr d" using d by (simp_all add: down_sim_def)
  let ?r = "gov_tx_send (x_tx s) type (Some p) (of_nat (length p)) t"
  let ?fs = "if snd (snd ?r) = GOV_TX_OK then [Frame type (tx_next_seq (x_tx s)) p] else []"
  have "arq_reach clr (arq_send type p t d)"
    using r by (rule reach_step) (use assms(2,3) in \<open>simp add: arq_step.send reliable_types\<close>)
  moreover have "arq_send type p t d = d\<lparr> a_tx := fst ?r, a_fwd := a_fwd d @ fst (snd ?r), a_sent := a_sent d @ ?fs \<rparr>"
    by (simp add: arq_send_def tx case_prod_beta)
  moreover have "list_all cmd_wire (fst (snd ?r))"
    using send_accepted [of "x_tx s" p type t] base_of [OF r] tx assms(2,3) by (auto simp: frame_ok_def)
  ultimately have "duplex_sim clr (s\<lparr> x_tx := fst ?r, x_down := x_down s @ fst (snd ?r), x_told := x_told s @ ?fs \<rparr>) u
      (arq_send type p t d)"
    using assms(2) by (intro sim_node_tx [OF assms(1)]) simp_all
  then show ?thesis by (auto simp: dup_tell_def case_prod_beta)
qed

lemma sim_poll:
  assumes "duplex_sim clr s u d"
  shows "\<exists>d'. duplex_sim clr (dup_poll t s) u d'"
proof -
  have d: "down_sim clr s d" using assms by (simp add: duplex_sim_def)
  have tx: "a_tx d = x_tx s" and r: "arq_reach clr d" and told: "a_sent d = x_told s"
    "list_all (\<lambda>f. uint (f_type f) \<in> set RELIABLE_TYPES) (x_told s)" using d by (simp_all add: down_sim_def)
  let ?r = "gov_tx_poll (x_tx s) t"
  obtain js where b: "arq_base d js" using base_reach [OF r] by blast
  have "arq_reach clr (arq_poll t d)" using r by (rule reach_step) (rule arq_step.poll)
  moreover have "arq_poll t d = d\<lparr> a_tx := fst ?r, a_fwd := a_fwd d @ fst (snd ?r), a_sent := a_sent d @ [] \<rparr>"
    by (simp add: arq_poll_def tx case_prod_beta)
  moreover have "list_all cmd_wire (fst (snd ?r))"
  proof (cases "tx_state (x_tx s) = GOV_TX_WAIT_ACK")
    case True
    then have h: "tx_holds (x_tx s) (last (x_told s))" "x_told s \<noteq> []" using b by (simp_all add: arq_base_def tx told(1))
    then have "uint (f_type (last (x_told s))) \<in> set RELIABLE_TYPES" using told(2) by (simp add: list_all_iff)
    with h(1) show ?thesis by (simp add: gov_tx_poll_def Let_def tx_holds_def)
  qed (simp add: gov_tx_poll_def)
  ultimately have "duplex_sim clr (s\<lparr> x_tx := fst ?r, x_down := x_down s @ fst (snd ?r), x_told := x_told s @ [] \<rparr>) u (arq_poll t d)"
    by (intro sim_node_tx [OF assms]) simp_all
  moreover have "dup_poll t s = s\<lparr> x_tx := fst ?r, x_down := x_down s @ fst (snd ?r), x_told := x_told s @ [] \<rparr>"
    by (simp add: dup_poll_def case_prod_beta)
  ultimately show ?thesis by auto
qed

lemma sim_clear:
  assumes "duplex_sim True s u d"
  shows "\<exists>d'. duplex_sim True (s\<lparr> x_tx := gov_tx_clear_fault (x_tx s) \<rparr>) u d'"
proof -
  have d: "down_sim True s d" using assms by (simp add: duplex_sim_def)
  let ?d = "d\<lparr> a_tx := gov_tx_clear_fault (a_tx d) \<rparr>"
  have "arq_reach True ?d" using d arq_step.clear [of True d] by (auto simp: down_sim_def intro: reach_step)
  then have "down_sim True (s\<lparr> x_tx := gov_tx_clear_fault (x_tx s) \<rparr>) ?d" using d by (simp add: down_sim_def)
  moreover have "up_sim (s\<lparr> x_tx := gov_tx_clear_fault (x_tx s) \<rparr>) u"
    using assms by (auto simp: duplex_sim_def intro: up_sim_cong)
  ultimately show ?thesis using assms by (auto simp: duplex_sim_def ends_ok_def)
qed

text \<open>Damage to a channel of one link leaves it as it is or damages it.\<close>

lemma reach_bad_fwd:
  "arq_reach clr u \<Longrightarrow> vs = a_fwd u \<or> damaged (a_fwd u) vs \<Longrightarrow> arq_reach clr (u\<lparr> a_fwd := vs \<rparr>)"
  by (auto intro: reach_step arq_step.bad_fwd)

lemma reach_bad_back:
  "arq_reach clr u \<Longrightarrow> vs = a_back u \<or> damaged (a_back u) vs \<Longrightarrow> arq_reach clr (u\<lparr> a_back := vs \<rparr>)"
  by (auto intro: reach_step arq_step.bad_back)

lemma sim_bad_up:
  assumes "duplex_sim clr s u d" and "damaged (x_up s) vs"
  shows "\<exists>u' d'. duplex_sim clr (s\<lparr> x_up := vs \<rparr>) u' d'"
proof -
  have i: "ends_ok s" and u: "up_sim s u" and d: "down_sim clr s d" using assms(1) by (simp_all add: duplex_sim_def)
  let ?u = "u\<lparr> a_fwd := filter cmd_wire vs \<rparr>" and ?d = "d\<lparr> a_back := filter ack_wire vs \<rparr>"
  have "arq_reach (e_link_fault_count (x_gs s) \<noteq> 0) ?u"
    using up_simD(8) [OF u] by (rule reach_bad_fwd) (use damaged_filter [OF assms(2)] wires_differ up_simD(4) [OF u] in simp)
  then have "up_sim (s\<lparr> x_up := vs \<rparr>) ?u" using up_simD [OF u] by (intro up_simI) simp_all
  moreover have "arq_reach clr ?d"
    using d damaged_filter [OF assms(2), of ack_wire] wires_differ(3) by (intro reach_bad_back) (simp_all add: down_sim_def)
  then have "down_sim clr (s\<lparr> x_up := vs \<rparr>) ?d" using d by (simp add: down_sim_def)
  moreover have "ends_ok (s\<lparr> x_up := vs \<rparr>)" using i damaged_ok [OF assms(2)] by (simp add: ends_ok_def)
  ultimately show ?thesis unfolding duplex_sim_def by blast
qed

lemma sim_bad_down:
  assumes "duplex_sim clr s u d" and "damaged (x_down s) vs"
  shows "\<exists>u' d'. duplex_sim clr (s\<lparr> x_down := vs \<rparr>) u' d'"
proof -
  have i: "ends_ok s" and u: "up_sim s u" and d: "down_sim clr s d" using assms(1) by (simp_all add: duplex_sim_def)
  let ?u = "u\<lparr> a_back := filter ack_wire vs \<rparr>" and ?d = "d\<lparr> a_fwd := filter cmd_wire vs \<rparr>"
  have "arq_reach (e_link_fault_count (x_gs s) \<noteq> 0) ?u"
    using up_simD(8) [OF u] by (rule reach_bad_back) (use damaged_filter [OF assms(2)] wires_differ up_simD(5) [OF u] in simp)
  then have "up_sim (s\<lparr> x_down := vs \<rparr>) ?u" using up_simD [OF u] by (intro up_simI) simp_all
  moreover have "arq_reach clr ?d"
    using d damaged_filter [OF assms(2), of cmd_wire] wires_differ(2) by (intro reach_bad_fwd) (simp_all add: down_sim_def)
  then have "down_sim clr (s\<lparr> x_down := vs \<rparr>) ?d" using d by (simp add: down_sim_def)
  moreover have "ends_ok (s\<lparr> x_down := vs \<rparr>)" using i damaged_ok [OF assms(2)] by (simp add: ends_ok_def)
  ultimately show ?thesis unfolding duplex_sim_def by blast
qed

lemma sim_step:
  assumes "duplex_step clr s s'" and "duplex_sim clr s u d"
  shows "\<exists>u' d'. duplex_sim clr s' u' d'"
  using assms(1)
proof cases
  case ask
  with sim_ask [OF assms(2)] show ?thesis by blast
next
  case tick
  with sim_tick [OF assms(2)] show ?thesis by blast
next
  case hear
  with sim_hear [OF assms(2)] show ?thesis by blast
next
  case recv
  with sim_recv [OF assms(2)] show ?thesis by blast
next
  case tell
  with sim_tell [OF assms(2)] show ?thesis by blast
next
  case poll
  with sim_poll [OF assms(2)] show ?thesis by blast
next
  case clear
  with assms(2) have "duplex_sim True s u d" by simp
  from sim_clear [OF this] clear show ?thesis by auto
next
  case bad_up
  with sim_bad_up [OF assms(2)] show ?thesis by blast
next
  case bad_down
  with sim_bad_down [OF assms(2)] show ?thesis by blast
qed

lemma sim_init: "duplex_sim clr duplex_init arq_init arq_init"
proof -
  have r: "arq_reach b arq_init" for b by (simp add: arq_reach_def)
  have "rx_last (gov_rx_init True True) = None" "tx_state (gov_tx_init True) = GOV_TX_IDLE" "tx_next_seq (gov_tx_init True) = 0"
    by (simp_all add: gov_rx_init_def rx_last_def gov_tx_init_def)
  then show ?thesis
    using r ready_init
    by (simp add: duplex_sim_def ends_ok_def up_sim_def down_sim_def duplex_init_def arq_init_def endpoint_init_def gs_ready_def
        gs_as_tx_def del: gs_rep.simps)
qed

lemma duplex_simulated: "duplex_reach clr s \<Longrightarrow> \<exists>u d. duplex_sim clr s u d"
  unfolding duplex_reach_def
proof (induction rule: rtranclp_induct)
  case base
  show ?case using sim_init by blast
next
  case (step s s')
  then show ?case using sim_step by blast
qed

section \<open>Properties\<close>

lemma cmd_frames_prefix:
  "a_sent u = map (cmd_frame ini) [0..<length ini] \<Longrightarrow> k < length ini \<Longrightarrow> a_sent u ! k = cmd_frame (ini @ rest) k"
  by (simp add: cmd_frame_def nth_append)

lemma up_sim_sent:
  assumes "up_sim s u"
  shows "length (x_asked s) = length (a_sent u) + length (e_pending (x_gs s))"
    and "k < length (a_sent u) \<Longrightarrow> a_sent u ! k = cmd_frame (x_asked s) k"
proof -
  obtain ini where i: "x_asked s = ini @ e_pending (x_gs s)" "a_sent u = map (cmd_frame ini) [0..<length ini]"
    using up_simD(6) [OF assms] by blast
  then show "length (x_asked s) = length (a_sent u) + length (e_pending (x_gs s))" by simp
  show "k < length (a_sent u) \<Longrightarrow> a_sent u ! k = cmd_frame (x_asked s) k"
    using cmd_frames_prefix [OF i(2)] i by simp
qed

text \<open>
  C20. Commands over the whole link: whatever the two channels lose, repeat and corrupt, and
  however commands and telemetry cross, the ground station's endpoint raises no exception, and the
  commands that reach the node's application are a subsequence of those the operator gave, in
  order and each once. As long as the endpoint has reported no link fault they are a prefix, of
  which at most the command outstanding and the queued ones are missing; with nothing outstanding,
  every command has arrived.
\<close>

theorem duplex_commands:
  assumes "duplex_reach clr s"
  shows "x_exn s = [] \<and>
    (\<exists>js. sorted_wrt (<) js \<and> set js \<subseteq> {..<length (x_asked s)} \<and> x_cmds s = map (cmd_frame (x_asked s)) js) \<and>
    (e_link_fault_count (x_gs s) = 0 \<longrightarrow>
       x_cmds s = map (cmd_frame (x_asked s)) [0..<length (x_cmds s)] \<and>
       length (x_asked s) \<le> Suc (length (x_cmds s)) + length (e_pending (x_gs s)) \<and>
       (e_outstanding (x_gs s) = None \<longrightarrow> length (x_cmds s) = length (x_asked s)))"
proof -
  obtain u d where "duplex_sim clr s u d" using duplex_simulated [OF assms] by blast
  then have i: "ends_ok s" and u: "up_sim s u" by (simp_all add: duplex_sim_def)
  note len = up_sim_sent(1) [OF u] and nth = up_sim_sent(2) [OF u] and got = up_simD(3) [OF u]
  obtain js where js: "arq_base u js" using base_reach [OF up_simD(8) [OF u]] by blast
  then have sub: "sorted_wrt (<) js" "set js \<subseteq> {..<length (a_sent u)}" "x_cmds s = map ((!) (a_sent u)) js"
    by (simp_all add: arq_base_def got)
  then have "x_cmds s = map (cmd_frame (x_asked s)) js" using nth by auto
  moreover have "set js \<subseteq> {..<length (x_asked s)}" using sub(2) len by auto
  moreover have "x_cmds s = map (cmd_frame (x_asked s)) [0..<length (x_cmds s)] \<and>
      length (x_asked s) \<le> Suc (length (x_cmds s)) + length (e_pending (x_gs s)) \<and>
      (e_outstanding (x_gs s) = None \<longrightarrow> length (x_cmds s) = length (x_asked s))" if z: "e_link_fault_count (x_gs s) = 0"
  proof -
    have st: "arq_strict u" using up_simD(8) [OF u] z by (simp add: strict_reach)
    then have m: "x_cmds s = map ((!) (a_sent u)) [0..<length (x_cmds s)]" "length (x_cmds s) \<le> length (a_sent u)"
      "length (a_sent u) \<le> Suc (length (x_cmds s))" "tx_state (a_tx u) = GOV_TX_IDLE \<longrightarrow> length (x_cmds s) = length (a_sent u)"
      by (simp_all add: arq_strict_def arq_base_def Let_def got)
    have "map ((!) (a_sent u)) [0..<length (x_cmds s)] = map (cmd_frame (x_asked s)) [0..<length (x_cmds s)]"
      using nth m(2) by simp
    moreover have "e_outstanding (x_gs s) = None \<Longrightarrow> tx_state (a_tx u) = GOV_TX_IDLE \<and> e_pending (x_gs s) = []"
      using up_simD(1) [OF u] i z by (simp add: gs_as_tx_def ends_ok_def)
    ultimately show ?thesis using m len by auto
  qed
  ultimately show ?thesis using sub(1) i by (auto simp: ends_ok_def)
qed

lemma ask_recv:
  "\<exists>s. duplex_reach False s \<and> x_asked s = [(4, [0xE5])] \<and> e_link_fault_count (x_gs s) = 0 \<and> e_pending (x_gs s) = [] \<and>
     x_cmds s = [Frame 4 0 [0xE5]]"
proof -
  let ?f = "Frame 4 0 [0xE5]"
  let ?s = "dup_ask 4 [0xE5] 0 duplex_init"
  have v: "4 \<in> set RELIABLE_TYPES" by (simp add: RELIABLE_TYPES_def MsgType_CMD_def)
  have e: "encode_frame 4 0 [0xE5] = Inr (frame_bytes ?f)" by (simp add: encode_frame_eq)
  have s: "x_up ?s = [frame_bytes ?f]" "x_asked ?s = [(4, [0xE5])]" "e_link_fault_count (x_gs ?s) = 0" "e_pending (x_gs ?s) = []"
    "x_dec ?s = gov_decoder_init True" "x_tx ?s = gov_tx_init True" "x_rx ?s = gov_rx_init True True" "x_cmds ?s = []"
    using v e by (simp_all add: dup_ask_def gs_apply_def gs_send_def gs_pump_def duplex_init_def endpoint_init_def)
  have f: "deliverable ?f" using v by (intro cmd_deliverable) (simp_all add: frame_ok_def GOV_MAX_PAYLOAD_def)
  have x: "snd (gov_rx_on_frame (gov_rx_init True True) ?f) = [App ?f, Wire (frame_bytes (ack_frame 0))]"
    using rx_step(1) [of "gov_rx_init True True" ?f] by (simp add: gov_rx_init_def rx_last_def)
  let ?s2 = "dup_recv (frame_bytes ?f) (?s\<lparr> x_up := [] \<rparr>)"
  have "duplex_step False duplex_init ?s" using v by (intro duplex_step.ask) simp_all
  moreover have "duplex_step False ?s ?s2" using s(1) by (rule duplex_step.recv)
  ultimately have "duplex_reach False ?s2"
    unfolding duplex_reach_def by (meson rtranclp.rtrancl_refl rtranclp.rtrancl_into_rtrancl)
  moreover have "x_cmds ?s2 = [?f]" "x_gs ?s2 = x_gs ?s" "x_asked ?s2 = x_asked ?s"
    using link.feed_enc [OF ready_init f] x
    by (simp_all add: dup_recv_def s case_prod_beta link_frame_def GOV_TYPE_ACK_def)
  ultimately show ?thesis using s by (intro exI [of _ ?s2]) simp
qed

theorem duplex_commands_witness:
  "\<exists>s. duplex_reach False s \<and> x_asked s = [(4, [0xE5])] \<and> x_cmds s = [Frame 4 0 [0xE5]] \<and> x_exn s = [] \<and>
     x_cmds s = map (cmd_frame (x_asked s)) [0..<length (x_cmds s)]"
proof -
  obtain s where s: "duplex_reach False s" "x_asked s = [(4, [0xE5])]" "e_link_fault_count (x_gs s) = 0" "x_cmds s = [Frame 4 0 [0xE5]]"
    using ask_recv by blast
  from duplex_commands [OF s(1)] s show ?thesis by blast
qed

text \<open>
  C21. Telemetry over the whole link: under the same conditions the frames that the ground station
  hands to its application are a subsequence of those the node's sender accepted, in order and
  each once. As long as the node clears no link fault they are a prefix of which at most the last
  is missing, and all of them once the sender is idle.
\<close>

theorem duplex_telemetry:
  assumes "duplex_reach clr s"
  shows "(\<exists>js. sorted_wrt (<) js \<and> set js \<subseteq> {..<length (x_told s)} \<and>
      x_seen s = map (\<lambda>i. gs_frame_of (x_told s ! i)) js) \<and>
    (\<not> clr \<longrightarrow> x_seen s = map gs_frame_of (take (length (x_seen s)) (x_told s)) \<and>
      length (x_told s) \<le> Suc (length (x_seen s)) \<and>
      (tx_state (x_tx s) = GOV_TX_IDLE \<longrightarrow> x_seen s = map gs_frame_of (x_told s)))"
proof -
  obtain u d where "duplex_sim clr s u d" using duplex_simulated [OF assms] by blast
  then have d: "a_tx d = x_tx s" "map gs_frame_of (a_got d) = x_seen s" "a_sent d = x_told s" "arq_reach clr d"
    by (simp_all add: duplex_sim_def down_sim_def)
  obtain js where js: "arq_base d js" using base_reach [OF d(4)] by blast
  then have "sorted_wrt (<) js" "set js \<subseteq> {..<length (x_told s)}" "x_seen s = map (\<lambda>i. gs_frame_of (x_told s ! i)) js"
    by (simp_all add: arq_base_def d(2) [symmetric] d(3))
  moreover have "x_seen s = map gs_frame_of (take (length (x_seen s)) (x_told s)) \<and>
      length (x_told s) \<le> Suc (length (x_seen s)) \<and>
      (tx_state (x_tx s) = GOV_TX_IDLE \<longrightarrow> x_seen s = map gs_frame_of (x_told s))" if "\<not> clr"
  proof -
    have st: "arq_strict d" using d(4) that by (simp add: strict_reach)
    then have "length (a_sent d) \<le> Suc (length (a_got d))" by (simp add: arq_strict_def Let_def)
    moreover have "length (x_seen s) = length (a_got d)" by (simp add: d(2) [symmetric])
    ultimately show ?thesis using strict_prefix [OF st] d by metis
  qed
  ultimately show ?thesis by blast
qed

lemma tell_hear:
  "\<exists>s. duplex_reach False s \<and> x_told s = [Frame 1 0 [7]] \<and> x_seen s = [(1, 0, [7])]"
proof -
  let ?f = "Frame 1 0 [7]"
  let ?s = "dup_tell 1 [7] 0 duplex_init"
  have v: "1 \<in> set RELIABLE_TYPES" by (simp add: RELIABLE_TYPES_def MsgType_DATA_def)
  have "tx_state (gov_tx_init True) = GOV_TX_IDLE" "tx_next_seq (gov_tx_init True) = 0"
    by (simp_all add: gov_tx_init_def)
  then have s: "x_down ?s = [frame_bytes ?f]" "x_told ?s = [?f]" "x_gs ?s = endpoint_init True True" "x_seen ?s = []"
    using send_cases [OF tx_init_inv, of "[7]" 1 0]
    by (simp_all add: dup_tell_def duplex_init_def Let_def GOV_MAX_PAYLOAD_def)
  have f: "deliverable ?f" using v by (intro cmd_deliverable) (simp_all add: frame_ok_def GOV_MAX_PAYLOAD_def)
  let ?e = "(endpoint_init True True)\<lparr> e_now_ms := Some 0 \<rparr>"
  have i: "gs_ready (e_decoder (endpoint_init True True))" "e_on_deliver ?e" "e_last_rx_seq ?e = None"
    by (simp_all add: endpoint_init_def gs_ready_def del: gs_rep.simps)
  obtain n where "gs_on_frame ?e (gs_frame_of ?f) = (?e\<lparr> e_last_rx_seq := Some 0, e_dup_count := n \<rparr>,
      [SendBytes (frame_bytes (ack_frame 0)), Deliver 1 0 [7]], None)"
    using on_cmd_frame [of ?f ?e] i v by auto
  from feed_frame [OF i(1) f this] obtain e where e: "gs_feed (endpoint_init True True) (frame_bytes ?f) 0 =
      (e, [SendBytes (frame_bytes (ack_frame 0)), Deliver 1 0 [7]], None)" by blast
  let ?s2 = "dup_hear (frame_bytes ?f) 0 (?s\<lparr> x_down := [] \<rparr>)"
  have "duplex_step False duplex_init ?s" using v by (intro duplex_step.tell) simp_all
  moreover have "duplex_step False ?s ?s2" using s(1) by (rule duplex_step.hear)
  ultimately have "duplex_reach False ?s2"
    unfolding duplex_reach_def by (meson rtranclp.rtrancl_refl rtranclp.rtrancl_into_rtrancl)
  moreover have "x_told ?s2 = [?f]" "x_seen ?s2 = [(1, 0, [7])]"
    using e s by (simp_all add: dup_hear_def gs_apply_def)
  ultimately show ?thesis by blast
qed

theorem duplex_telemetry_witness:
  "\<exists>s. duplex_reach False s \<and> x_told s = [Frame 1 0 [7]] \<and> x_seen s = map gs_frame_of (take 1 (x_told s)) \<and>
     length (x_seen s) = 1"
proof -
  obtain s where s: "duplex_reach False s" "x_told s = [Frame 1 0 [7]]" "x_seen s = [(1, 0, [7])]" using tell_hear by blast
  from duplex_telemetry [OF s(1)] s show ?thesis by (intro exI [of _ s]) simp
qed

end
