(* ===== verification/Gov_Safety.thy ===== *)
theory Gov_Safety
  imports Gov_Faults
begin

text \<open>
  The safety state machine, \<^verbatim>\<open>lib/safety/safety.h\<close> and \<^verbatim>\<open>lib/safety/safety.c\<close>: the state of one
  instance, the step function with its event dispatch and its timers, the actuation authority
  and the accessors. Below them: the invariant of a running instance, the transition table of
  the design document as a relation and the proof that the step function implements it,
  latching, recovery and escalation.
\<close>

section \<open>States, events, instance\<close>

text \<open>
  \<open>GOV_ST_COUNT\<close> and \<open>GOV_EV_COUNT\<close> are enumerators of the C types too. They stand for the
  values no \<^verbatim>\<open>case\<close> label of the code names, so the \<^verbatim>\<open>default\<close> branches are in the model.
\<close>

datatype gov_state =
  GOV_ST_INIT | GOV_ST_RUN | GOV_ST_DEGRADED | GOV_ST_SAFE_STOP | GOV_ST_FAULT_HALT | GOV_ST_COUNT

datatype gov_event =
  GOV_EV_POWER_ON | GOV_EV_SELFTEST_OK | GOV_EV_SELFTEST_FAIL | GOV_EV_SENSOR_FAULT
| GOV_EV_LINK_FAULT | GOV_EV_DIVERGE | GOV_EV_CAUSE_CLEARED | GOV_EV_SECOND_FAULT
| GOV_EV_OPERATOR_STOP | GOV_EV_OPERATOR_CLEAR | GOV_EV_DEADLINE_MISS | GOV_EV_WATCHDOG
| GOV_EV_INTERNAL_VIOLATION | GOV_EV_TICK | GOV_EV_COUNT

definition GOV_INIT_TIMEOUT_MS :: u32 where "GOV_INIT_TIMEOUT_MS = 2000"
definition GOV_RECOVER_MS :: u32 where "GOV_RECOVER_MS = 500"
definition GOV_DEGRADE_MAX_MS :: u32 where "GOV_DEGRADE_MAX_MS = 5000"
definition GOV_SAFE_OUTPUT :: i32 where "GOV_SAFE_OUTPUT = 0"
definition GOV_DEGRADED_CLAMP_NUM :: i32 where "GOV_DEGRADED_CLAMP_NUM = 1"
definition GOV_DEGRADED_CLAMP_DEN :: i32 where "GOV_DEGRADED_CLAMP_DEN = 2"

record gov_safety =
  s_state :: gov_state
  s_faults :: u32
  s_sticky :: u32
  s_now_ms :: u32
  s_state_since_ms :: u32
  s_cause_clear_ms :: u32
  s_init_start_ms :: u32
  s_rejected_events :: u32
  s_transitions :: u32

section \<open>Operations\<close>

definition enter :: "gov_safety \<Rightarrow> gov_state \<Rightarrow> u32 \<Rightarrow> gov_safety" where
  "enter s nxt now =
     (let s1 = s\<lparr>s_state := nxt, s_state_since_ms := now, s_transitions := s_transitions s + 1\<rparr>
      in if nxt \<noteq> GOV_ST_DEGRADED then s1\<lparr>s_cause_clear_ms := 0\<rparr> else s1)"

definition to_safe_stop :: "gov_safety \<Rightarrow> u32 \<Rightarrow> u32 \<Rightarrow> gov_safety" where
  "to_safe_stop s flag now = enter (s\<lparr>s_faults := s_faults s OR flag\<rparr>) GOV_ST_SAFE_STOP now"

definition to_fault_halt :: "gov_safety \<Rightarrow> u32 \<Rightarrow> gov_safety" where
  "to_fault_halt s now =
     enter (s\<lparr>s_faults := s_faults s OR GOV_FAULT_INTERNAL\<rparr>) GOV_ST_FAULT_HALT now"

text \<open>
  Initialisation writes every field and reads none, so it does not depend on what the object
  held before.
\<close>

definition gov_safety_init_sticky :: "u32 \<Rightarrow> gov_safety" where
  "gov_safety_init_sticky sticky0 =
     (let sticky = sticky0 AND GOV_FAULT_WATCHDOG
      in \<lparr>s_state = GOV_ST_INIT, s_faults = sticky, s_sticky = sticky, s_now_ms = 0,
          s_state_since_ms = 0, s_cause_clear_ms = 0, s_init_start_ms = 0,
          s_rejected_events = 0, s_transitions = 0\<rparr>)"

definition gov_safety_init :: gov_safety where
  "gov_safety_init = gov_safety_init_sticky GOV_FAULT_NONE"

definition reject :: "gov_safety \<Rightarrow> gov_safety" where
  "reject s = s\<lparr>s_rejected_events := s_rejected_events s + 1\<rparr>"

definition service_timers :: "gov_safety \<Rightarrow> u32 \<Rightarrow> gov_safety" where
  "service_timers s now =
     (case s_state s of
        GOV_ST_INIT \<Rightarrow>
          (if now - s_init_start_ms s \<ge> GOV_INIT_TIMEOUT_MS
           then to_safe_stop s GOV_FAULT_INIT now else s)
      | GOV_ST_DEGRADED \<Rightarrow>
          (if now - s_state_since_ms s \<ge> GOV_DEGRADE_MAX_MS
           then to_safe_stop s GOV_FAULT_ESCALATED now
           else if s_cause_clear_ms s \<noteq> 0 \<and> now - s_cause_clear_ms s \<ge> GOV_RECOVER_MS
           then enter (s\<lparr>s_faults := s_faults s AND (GOV_FAULT_WATCHDOG OR s_sticky s)\<rparr>)
                      GOV_ST_RUN now
           else s)
      | _ \<Rightarrow> s)"

text \<open>The inner \<^verbatim>\<open>switch (ev)\<close> of each state.\<close>

definition step_in_init :: "gov_safety \<Rightarrow> gov_event \<Rightarrow> u32 \<Rightarrow> gov_safety" where
  "step_in_init s ev now =
     (case ev of
        GOV_EV_POWER_ON \<Rightarrow> s\<lparr>s_init_start_ms := now, s_state_since_ms := now\<rparr>
      | GOV_EV_SELFTEST_OK \<Rightarrow> enter s GOV_ST_RUN now
      | GOV_EV_SELFTEST_FAIL \<Rightarrow> to_safe_stop s GOV_FAULT_INIT now
      | GOV_EV_TICK \<Rightarrow> s
      | _ \<Rightarrow> reject s)"

definition step_in_run :: "gov_safety \<Rightarrow> gov_event \<Rightarrow> u32 \<Rightarrow> gov_safety" where
  "step_in_run s ev now =
     (case ev of
        GOV_EV_SENSOR_FAULT \<Rightarrow>
          enter (s\<lparr>s_faults := s_faults s OR GOV_FAULT_SENSOR_ACTIVE\<rparr>) GOV_ST_DEGRADED now
      | GOV_EV_LINK_FAULT \<Rightarrow>
          enter (s\<lparr>s_faults := s_faults s OR GOV_FAULT_LINK\<rparr>) GOV_ST_DEGRADED now
      | GOV_EV_DEADLINE_MISS \<Rightarrow>
          enter (s\<lparr>s_faults := s_faults s OR GOV_FAULT_TIMING\<rparr>) GOV_ST_DEGRADED now
      | GOV_EV_DIVERGE \<Rightarrow> to_safe_stop s GOV_FAULT_DIVERGE now
      | GOV_EV_TICK \<Rightarrow> s
      | _ \<Rightarrow> reject s)"

definition step_in_degraded :: "gov_safety \<Rightarrow> gov_event \<Rightarrow> u32 \<Rightarrow> gov_safety" where
  "step_in_degraded s ev now =
     (if ev = GOV_EV_CAUSE_CLEARED then
        (if s_cause_clear_ms s = 0 then s\<lparr>s_cause_clear_ms := now\<rparr> else s)
      else if ev = GOV_EV_SENSOR_FAULT \<or> ev = GOV_EV_LINK_FAULT \<or> ev = GOV_EV_DEADLINE_MISS then
        (let s1 = s\<lparr>s_cause_clear_ms := 0\<rparr>
         in if ev = GOV_EV_LINK_FAULT then s1\<lparr>s_faults := s_faults s1 OR GOV_FAULT_LINK\<rparr>
            else if ev = GOV_EV_DEADLINE_MISS
            then s1\<lparr>s_faults := s_faults s1 OR GOV_FAULT_TIMING\<rparr>
            else s1\<lparr>s_faults := s_faults s1 OR GOV_FAULT_SENSOR_ACTIVE\<rparr>)
      else if ev = GOV_EV_SECOND_FAULT then to_safe_stop s GOV_FAULT_ESCALATED now
      else if ev = GOV_EV_DIVERGE then to_safe_stop s GOV_FAULT_DIVERGE now
      else if ev = GOV_EV_TICK then s
      else reject s)"

definition step_in_safe_stop :: "gov_safety \<Rightarrow> gov_event \<Rightarrow> u32 \<Rightarrow> gov_safety" where
  "step_in_safe_stop s ev now =
     (case ev of
        GOV_EV_OPERATOR_CLEAR \<Rightarrow>
          enter (s\<lparr>s_faults := s_sticky s, s_init_start_ms := now\<rparr>) GOV_ST_INIT now
      | GOV_EV_TICK \<Rightarrow> s
      | _ \<Rightarrow> reject s)"

definition step_in_fault_halt :: "gov_safety \<Rightarrow> gov_event \<Rightarrow> gov_safety" where
  "step_in_fault_halt s ev = (if ev \<noteq> GOV_EV_TICK then reject s else s)"

text \<open>
  The step function for a non-null instance. It returns the new state of the machine, which is
  always the field \<open>s_state\<close> of the result, so the model returns the instance alone.
\<close>

definition gov_safety_step :: "gov_safety \<Rightarrow> gov_event \<Rightarrow> u32 \<Rightarrow> gov_safety" where
  "gov_safety_step s0 ev now =
     (if now < s_now_ms s0 then to_fault_halt s0 (s_now_ms s0)
      else
        let s = s0\<lparr>s_now_ms := now\<rparr> in
        if ev = GOV_EV_INTERNAL_VIOLATION then to_fault_halt s now
        else if ev = GOV_EV_WATCHDOG then
          enter (s\<lparr>s_sticky := s_sticky s OR GOV_FAULT_WATCHDOG,
                   s_faults := s_faults s OR GOV_FAULT_WATCHDOG,
                   s_init_start_ms := now\<rparr>) GOV_ST_INIT now
        else if ev = GOV_EV_OPERATOR_STOP \<and>
                (s_state s = GOV_ST_RUN \<or> s_state s = GOV_ST_DEGRADED \<or> s_state s = GOV_ST_INIT)
        then to_safe_stop s GOV_FAULT_OPERATOR_STOP now
        else
          (case s_state s of
             GOV_ST_INIT \<Rightarrow> service_timers (step_in_init s ev now) now
           | GOV_ST_RUN \<Rightarrow> service_timers (step_in_run s ev now) now
           | GOV_ST_DEGRADED \<Rightarrow> service_timers (step_in_degraded s ev now) now
           | GOV_ST_SAFE_STOP \<Rightarrow> service_timers (step_in_safe_stop s ev now) now
           | GOV_ST_FAULT_HALT \<Rightarrow> service_timers (step_in_fault_halt s ev) now
           | GOV_ST_COUNT \<Rightarrow> to_fault_halt s now))"

definition gov_safety_actuation_allowed :: "gov_safety \<Rightarrow> bool" where
  "gov_safety_actuation_allowed s \<longleftrightarrow> s_state s = GOV_ST_RUN \<or> s_state s = GOV_ST_DEGRADED"

definition gov_safety_clamp_output :: "gov_safety \<Rightarrow> i32 \<Rightarrow> i32" where
  "gov_safety_clamp_output s desired =
     (case s_state s of
        GOV_ST_RUN \<Rightarrow> desired
      | GOV_ST_DEGRADED \<Rightarrow>
          (let span = desired - GOV_SAFE_OUTPUT;
               limited = i32_div (span * GOV_DEGRADED_CLAMP_NUM) GOV_DEGRADED_CLAMP_DEN
           in GOV_SAFE_OUTPUT + limited)
      | _ \<Rightarrow> GOV_SAFE_OUTPUT)"

definition gov_safety_fault_flags :: "gov_safety \<Rightarrow> u32" where
  "gov_safety_fault_flags s = s_faults s"

definition gov_safety_state :: "gov_safety \<Rightarrow> gov_state" where
  "gov_safety_state s = s_state s"

definition gov_safety_state_name :: "gov_state \<Rightarrow> string" where
  "gov_safety_state_name st =
     (case st of
        GOV_ST_INIT \<Rightarrow> ''INIT'' | GOV_ST_RUN \<Rightarrow> ''RUN'' | GOV_ST_DEGRADED \<Rightarrow> ''DEGRADED''
      | GOV_ST_SAFE_STOP \<Rightarrow> ''SAFE_STOP'' | GOV_ST_FAULT_HALT \<Rightarrow> ''FAULT_HALT''
      | GOV_ST_COUNT \<Rightarrow> ''?'')"

text \<open>The value of the enumerator, as telemetry stores it in a byte.\<close>

definition gov_state_code :: "gov_state \<Rightarrow> nat" where
  "gov_state_code st =
     (case st of GOV_ST_INIT \<Rightarrow> 0 | GOV_ST_RUN \<Rightarrow> 1 | GOV_ST_DEGRADED \<Rightarrow> 2
      | GOV_ST_SAFE_STOP \<Rightarrow> 3 | GOV_ST_FAULT_HALT \<Rightarrow> 4 | GOV_ST_COUNT \<Rightarrow> 5)"

text \<open>The interface functions with their null-pointer checks.\<close>

definition gov_safety_init_sticky_ptr :: "gov_safety ptr \<Rightarrow> u32 \<Rightarrow> gov_safety ptr" where
  "gov_safety_init_sticky_ptr p sticky =
     fst (with_ptr () (\<lambda>_. (gov_safety_init_sticky sticky, ())) p)"

definition gov_safety_step_ptr ::
    "gov_safety ptr \<Rightarrow> gov_event \<Rightarrow> u32 \<Rightarrow> gov_safety ptr \<times> gov_state" where
  "gov_safety_step_ptr p ev now =
     with_ptr GOV_ST_FAULT_HALT
       (\<lambda>s. (gov_safety_step s ev now, s_state (gov_safety_step s ev now))) p"

definition gov_safety_actuation_allowed_ptr :: "gov_safety ptr \<Rightarrow> bool" where
  "gov_safety_actuation_allowed_ptr p = read_ptr False gov_safety_actuation_allowed p"

definition gov_safety_clamp_output_ptr :: "gov_safety ptr \<Rightarrow> i32 \<Rightarrow> i32" where
  "gov_safety_clamp_output_ptr p desired =
     read_ptr GOV_SAFE_OUTPUT (\<lambda>s. gov_safety_clamp_output s desired) p"

definition gov_safety_fault_flags_ptr :: "gov_safety ptr \<Rightarrow> u32" where
  "gov_safety_fault_flags_ptr p = read_ptr GOV_FAULT_INTERNAL gov_safety_fault_flags p"

definition gov_safety_state_ptr :: "gov_safety ptr \<Rightarrow> gov_state" where
  "gov_safety_state_ptr p = read_ptr GOV_ST_FAULT_HALT gov_safety_state p"

section \<open>Specification\<close>

subsection \<open>The invariant of an instance between two steps\<close>

text \<open>
  The flags that explain a state: a degraded machine has a recoverable cause raised, a stopped
  one a cause of stopping, a halted one the internal flag.
\<close>

definition state_flags :: "gov_state \<Rightarrow> u32" where
  "state_flags st =
     (case st of
        GOV_ST_DEGRADED \<Rightarrow> GOV_FAULT_SENSOR_ACTIVE OR GOV_FAULT_LINK OR GOV_FAULT_TIMING
      | GOV_ST_SAFE_STOP \<Rightarrow>
          GOV_FAULT_INIT OR GOV_FAULT_DIVERGE OR GOV_FAULT_ESCALATED OR GOV_FAULT_OPERATOR_STOP
      | GOV_ST_FAULT_HALT \<Rightarrow> GOV_FAULT_INTERNAL
      | _ \<Rightarrow> 0)"

definition flags_ok :: "gov_safety \<Rightarrow> bool" where
  "flags_ok s \<longleftrightarrow>
     bits_in (s_sticky s) GOV_FAULT_WATCHDOG \<and> bits_in (s_sticky s) (s_faults s) \<and>
     bits_in (s_faults s) GOV_FAULT_ALL \<and>
     (state_flags (s_state s) = 0 \<or> raised (state_flags (s_state s)) (s_faults s))"

definition timers_ok :: "gov_safety \<Rightarrow> bool" where
  "timers_ok s \<longleftrightarrow>
     s_state_since_ms s \<le> s_now_ms s \<and> s_init_start_ms s \<le> s_now_ms s \<and>
     s_cause_clear_ms s \<le> s_now_ms s \<and>
     (s_state s = GOV_ST_DEGRADED \<or> s_cause_clear_ms s = 0) \<and>
     (s_state s = GOV_ST_INIT \<longrightarrow> s_now_ms s - s_init_start_ms s < GOV_INIT_TIMEOUT_MS) \<and>
     (s_state s = GOV_ST_DEGRADED \<longrightarrow>
        s_now_ms s - s_state_since_ms s < GOV_DEGRADE_MAX_MS \<and>
        (s_cause_clear_ms s \<noteq> 0 \<longrightarrow> s_now_ms s - s_cause_clear_ms s < GOV_RECOVER_MS))"

text \<open>
  The event dispatch only has to keep the time stamps in the past; servicing the timers then
  establishes their bounds, whatever the dispatch did.
\<close>

definition stamps_ok :: "u32 \<Rightarrow> gov_safety \<Rightarrow> bool" where
  "stamps_ok now s \<longleftrightarrow>
     s_now_ms s = now \<and> s_state_since_ms s \<le> now \<and> s_init_start_ms s \<le> now \<and>
     s_cause_clear_ms s \<le> now \<and> (s_state s = GOV_ST_DEGRADED \<or> s_cause_clear_ms s = 0)"

definition safety_inv :: "gov_safety \<Rightarrow> bool" where
  "safety_inv s \<longleftrightarrow> s_state s \<noteq> GOV_ST_COUNT \<and> flags_ok s \<and> timers_ok s"

subsection \<open>The transition table\<close>

text \<open>
  The table of \<^verbatim>\<open>docs/SAFETY_SM.md\<close>, section 3, row by row as the document has it: from a state,
  by a trigger, to a state, raising a flag (0 for the rows that name none). A trigger is an event,
  an event with the side condition its row names (the self-test completing in time, the operator
  clear with the cause gone), or an elapsed timer. T0 is the power-on event of the machine a reset
  leaves in INIT; the operational states of T11 are the three that T8 lists.
\<close>

datatype sm_trigger =
  Ev gov_event | OkInTime | ClearedCause | InitTimeout | DegradeMax | RecoverDwell | TimeBackwards

inductive doc_row :: "gov_state \<Rightarrow> sm_trigger \<Rightarrow> gov_state \<Rightarrow> u32 \<Rightarrow> bool" where
  T0: "doc_row GOV_ST_INIT (Ev GOV_EV_POWER_ON) GOV_ST_INIT 0"
| T1: "doc_row GOV_ST_INIT OkInTime GOV_ST_RUN 0"
| T2: "doc_row GOV_ST_INIT (Ev GOV_EV_SELFTEST_FAIL) GOV_ST_SAFE_STOP GOV_FAULT_INIT"
| T2_timeout: "doc_row GOV_ST_INIT InitTimeout GOV_ST_SAFE_STOP GOV_FAULT_INIT"
| T3: "doc_row GOV_ST_RUN (Ev GOV_EV_SENSOR_FAULT) GOV_ST_DEGRADED GOV_FAULT_SENSOR_ACTIVE"
| T4: "doc_row GOV_ST_RUN (Ev GOV_EV_LINK_FAULT) GOV_ST_DEGRADED GOV_FAULT_LINK"
| T5: "doc_row GOV_ST_RUN (Ev GOV_EV_DIVERGE) GOV_ST_SAFE_STOP GOV_FAULT_DIVERGE"
| T6: "doc_row GOV_ST_DEGRADED RecoverDwell GOV_ST_RUN 0"
| T7: "doc_row GOV_ST_DEGRADED (Ev GOV_EV_SECOND_FAULT) GOV_ST_SAFE_STOP GOV_FAULT_ESCALATED"
| T7_timeout: "doc_row GOV_ST_DEGRADED DegradeMax GOV_ST_SAFE_STOP GOV_FAULT_ESCALATED"
| T8: "st = GOV_ST_INIT \<or> st = GOV_ST_RUN \<or> st = GOV_ST_DEGRADED \<Longrightarrow>
       doc_row st (Ev GOV_EV_OPERATOR_STOP) GOV_ST_SAFE_STOP GOV_FAULT_OPERATOR_STOP"
| T9: "doc_row GOV_ST_SAFE_STOP ClearedCause GOV_ST_INIT 0"
| T10: "st = GOV_ST_RUN \<or> st = GOV_ST_DEGRADED \<Longrightarrow>
        doc_row st (Ev GOV_EV_DEADLINE_MISS) GOV_ST_DEGRADED GOV_FAULT_TIMING"
| T11: "st = GOV_ST_INIT \<or> st = GOV_ST_RUN \<or> st = GOV_ST_DEGRADED \<Longrightarrow>
        doc_row st (Ev GOV_EV_WATCHDOG) GOV_ST_FAULT_HALT GOV_FAULT_WATCHDOG"
| T12: "ev = GOV_EV_INTERNAL_VIOLATION \<or> ev = GOV_EV_COUNT \<Longrightarrow>
        doc_row st (Ev ev) GOV_ST_FAULT_HALT GOV_FAULT_INTERNAL"
| T12_time: "doc_row st TimeBackwards GOV_ST_FAULT_HALT GOV_FAULT_INTERNAL"

inductive_simps doc_row_simps:
  "doc_row st (Ev ev) st' fl" "doc_row st OkInTime st' fl" "doc_row st ClearedCause st' fl"
  "doc_row st InitTimeout st' fl" "doc_row st DegradeMax st' fl"
  "doc_row st RecoverDwell st' fl" "doc_row st TimeBackwards st' fl"

text \<open>
  The paragraph below the table: an event with no row for the current state is counted, and one
  that reports a fault is treated as T12.
\<close>

definition reports_fault :: "gov_event \<Rightarrow> bool" where
  "reports_fault ev \<longleftrightarrow>
     ev \<in> {GOV_EV_SELFTEST_FAIL, GOV_EV_SENSOR_FAULT, GOV_EV_LINK_FAULT, GOV_EV_DIVERGE,
           GOV_EV_SECOND_FAULT, GOV_EV_DEADLINE_MISS, GOV_EV_WATCHDOG}"

inductive sm_row :: "gov_state \<Rightarrow> sm_trigger \<Rightarrow> gov_state \<Rightarrow> u32 \<Rightarrow> bool" where
  tabled: "doc_row st tr st' fl \<Longrightarrow> sm_row st tr st' fl"
| unmatched: "reports_fault ev \<Longrightarrow> \<forall>st' fl. \<not> doc_row st (Ev ev) st' fl \<Longrightarrow>
    sm_row st (Ev ev) GOV_ST_FAULT_HALT GOV_FAULT_INTERNAL"

text \<open>
  When a trigger is present in a step. \<open>gone\<close> says whether the cause of the stop reads clear; the
  machine itself has no input that tells it. The self-test timer runs from the last power-on,
  and the cause of a degradation is stable while no report of a fault comes in.
\<close>

fun triggered :: "bool \<Rightarrow> gov_safety \<Rightarrow> gov_event \<Rightarrow> u32 \<Rightarrow> sm_trigger \<Rightarrow> bool" where
  "triggered gone s ev now (Ev e) = (s_now_ms s \<le> now \<and> e = ev)"
| "triggered gone s ev now OkInTime =
     (s_now_ms s \<le> now \<and> ev = GOV_EV_SELFTEST_OK \<and>
      now - s_init_start_ms s < GOV_INIT_TIMEOUT_MS)"
| "triggered gone s ev now ClearedCause =
     (s_now_ms s \<le> now \<and> ev = GOV_EV_OPERATOR_CLEAR \<and> gone)"
| "triggered gone s ev now InitTimeout =
     (s_now_ms s \<le> now \<and> ev \<noteq> GOV_EV_POWER_ON \<and>
      now - s_init_start_ms s \<ge> GOV_INIT_TIMEOUT_MS)"
| "triggered gone s ev now DegradeMax =
     (s_now_ms s \<le> now \<and> now - s_state_since_ms s \<ge> GOV_DEGRADE_MAX_MS)"
| "triggered gone s ev now RecoverDwell =
     (s_now_ms s \<le> now \<and>
      ev \<notin> {GOV_EV_SENSOR_FAULT, GOV_EV_LINK_FAULT, GOV_EV_DEADLINE_MISS} \<and>
      s_cause_clear_ms s \<noteq> 0 \<and> now - s_cause_clear_ms s \<ge> GOV_RECOVER_MS)"
| "triggered gone s ev now TimeBackwards = (now < s_now_ms s)"

definition elapsed_timer :: "sm_trigger \<Rightarrow> bool" where
  "elapsed_timer tr \<longleftrightarrow> tr = InitTimeout \<or> tr = DegradeMax \<or> tr = RecoverDwell"

definition enabled ::
    "bool \<Rightarrow> gov_safety \<Rightarrow> gov_event \<Rightarrow> u32 \<Rightarrow> sm_trigger \<Rightarrow> gov_state \<Rightarrow> u32 \<Rightarrow> bool" where
  "enabled gone s ev now tr st fl \<longleftrightarrow> triggered gone s ev now tr \<and> sm_row (s_state s) tr st fl"

text \<open>
  What the document asks of a step from \<open>s\<close> to \<open>s'\<close>. The row of the event is taken and its flag
  raised. Where the event has no row that leaves the state, a row of an elapsed timer is taken,
  with its flag, or the state stays when no timer has elapsed. An event with no row of the table
  is counted; the tick is no event of the table, and in DEGRADED the report that the cause cleared
  is the first half of T6.
\<close>

definition event_row_taken :: "bool \<Rightarrow> gov_safety \<Rightarrow> gov_event \<Rightarrow> u32 \<Rightarrow> gov_safety \<Rightarrow> bool" where
  "event_row_taken gone s ev now s' \<longleftrightarrow>
     (\<forall>tr st fl. enabled gone s ev now tr st fl \<and> \<not> elapsed_timer tr \<longrightarrow>
        bits_in fl (s_faults s') \<and> (st \<noteq> s_state s \<longrightarrow> s_state s' = st))"

definition timer_row_taken :: "bool \<Rightarrow> gov_safety \<Rightarrow> gov_event \<Rightarrow> u32 \<Rightarrow> gov_safety \<Rightarrow> bool" where
  "timer_row_taken gone s ev now s' \<longleftrightarrow>
     (\<exists>tr fl. enabled gone s ev now tr (s_state s') fl \<and> elapsed_timer tr \<and>
        bits_in fl (s_faults s')) \<or>
     (\<forall>tr st fl. elapsed_timer tr \<longrightarrow> \<not> enabled gone s ev now tr st fl) \<and>
     s_state s' = s_state s"

definition event_counted :: "bool \<Rightarrow> gov_safety \<Rightarrow> gov_event \<Rightarrow> u32 \<Rightarrow> gov_safety \<Rightarrow> bool" where
  "event_counted gone s ev now s' \<longleftrightarrow>
     ev = GOV_EV_TICK \<or> ev = GOV_EV_CAUSE_CLEARED \<and> s_state s = GOV_ST_DEGRADED \<or>
     (\<exists>tr st fl. triggered gone s ev now tr \<and> doc_row (s_state s) tr st fl \<and>
        \<not> elapsed_timer tr) \<or>
     s_rejected_events s' = s_rejected_events s + 1"

definition conforms :: "bool \<Rightarrow> gov_safety \<Rightarrow> gov_event \<Rightarrow> u32 \<Rightarrow> gov_safety \<Rightarrow> bool" where
  "conforms gone s ev now s' \<longleftrightarrow>
     event_row_taken gone s ev now s' \<and> event_counted gone s ev now s' \<and>
     ((\<forall>tr st fl. enabled gone s ev now tr st fl \<and> \<not> elapsed_timer tr \<longrightarrow> st = s_state s) \<longrightarrow>
        timer_row_taken gone s ev now s')"

text \<open>
  The steps in which the code does something else: a self-test that completes late, an operator
  clear while the cause persists, a watchdog event, and, in a machine that is not halted, a fault
  event with no row or a value that is no event.
\<close>

definition escalation_due :: "gov_safety \<Rightarrow> gov_event \<Rightarrow> bool" where
  "escalation_due s ev \<longleftrightarrow>
     s_state s \<noteq> GOV_ST_FAULT_HALT \<and>
     (ev = GOV_EV_COUNT \<or> reports_fault ev \<and> (\<forall>st fl. \<not> doc_row (s_state s) (Ev ev) st fl))"

definition deviates :: "bool \<Rightarrow> gov_safety \<Rightarrow> gov_event \<Rightarrow> u32 \<Rightarrow> bool" where
  "deviates gone s ev now \<longleftrightarrow> s_now_ms s \<le> now \<and>
     (ev = GOV_EV_SELFTEST_OK \<and> s_state s = GOV_ST_INIT \<and>
        now - s_init_start_ms s \<ge> GOV_INIT_TIMEOUT_MS \<or>
      ev = GOV_EV_OPERATOR_CLEAR \<and> s_state s = GOV_ST_SAFE_STOP \<and> \<not> gone \<or>
      ev = GOV_EV_WATCHDOG \<or> escalation_due s ev)"

text \<open>The flag that a report of a recoverable fault raises.\<close>

definition report_flag :: "gov_event \<Rightarrow> u32" where
  "report_flag ev =
     (if ev = GOV_EV_LINK_FAULT then GOV_FAULT_LINK
      else if ev = GOV_EV_DEADLINE_MISS then GOV_FAULT_TIMING else GOV_FAULT_SENSOR_ACTIVE)"

text \<open>A sequence of stamped events, as the application posts them.\<close>

definition safety_event :: "gov_safety \<Rightarrow> gov_event \<times> u32 \<Rightarrow> gov_safety \<times> gov_state list" where
  "safety_event s e = (let s' = gov_safety_step s (fst e) (snd e) in (s', [s_state s']))"

section \<open>Basic facts\<close>

lemmas safety_consts [gov_defs] =
  GOV_INIT_TIMEOUT_MS_def GOV_RECOVER_MS_def GOV_DEGRADE_MAX_MS_def GOV_SAFE_OUTPUT_def
  GOV_DEGRADED_CLAMP_NUM_def GOV_DEGRADED_CLAMP_DEN_def

lemma enter_simps [simp]:
  "s_state (enter s st now) = st"
  "s_faults (enter s st now) = s_faults s"
  "s_sticky (enter s st now) = s_sticky s"
  "s_now_ms (enter s st now) = s_now_ms s"
  "s_state_since_ms (enter s st now) = now"
  "s_cause_clear_ms (enter s st now) = (if st = GOV_ST_DEGRADED then s_cause_clear_ms s else 0)"
  "s_init_start_ms (enter s st now) = s_init_start_ms s"
  "s_rejected_events (enter s st now) = s_rejected_events s"
  by (simp_all add: enter_def Let_def)

lemma to_safe_stop_simps [simp]:
  "s_state (to_safe_stop s fl now) = GOV_ST_SAFE_STOP"
  "s_faults (to_safe_stop s fl now) = s_faults s OR fl"
  "s_sticky (to_safe_stop s fl now) = s_sticky s"
  "s_now_ms (to_safe_stop s fl now) = s_now_ms s"
  "s_state_since_ms (to_safe_stop s fl now) = now"
  "s_cause_clear_ms (to_safe_stop s fl now) = 0"
  "s_init_start_ms (to_safe_stop s fl now) = s_init_start_ms s"
  "s_rejected_events (to_safe_stop s fl now) = s_rejected_events s"
  by (simp_all add: to_safe_stop_def)

lemma to_fault_halt_simps [simp]:
  "s_state (to_fault_halt s now) = GOV_ST_FAULT_HALT"
  "s_faults (to_fault_halt s now) = s_faults s OR GOV_FAULT_INTERNAL"
  "s_sticky (to_fault_halt s now) = s_sticky s"
  "s_now_ms (to_fault_halt s now) = s_now_ms s"
  "s_state_since_ms (to_fault_halt s now) = now"
  "s_cause_clear_ms (to_fault_halt s now) = 0"
  "s_init_start_ms (to_fault_halt s now) = s_init_start_ms s"
  "s_rejected_events (to_fault_halt s now) = s_rejected_events s"
  by (simp_all add: to_fault_halt_def)

lemma reject_simps [simp]:
  "s_state (reject s) = s_state s" "s_faults (reject s) = s_faults s"
  "s_sticky (reject s) = s_sticky s" "s_now_ms (reject s) = s_now_ms s"
  "s_state_since_ms (reject s) = s_state_since_ms s"
  "s_cause_clear_ms (reject s) = s_cause_clear_ms s"
  "s_init_start_ms (reject s) = s_init_start_ms s"
  "s_rejected_events (reject s) = s_rejected_events s + 1"
  by (simp_all add: reject_def)

lemmas dispatch_defs =
  gov_safety_step_def service_timers_def step_in_init_def step_in_run_def step_in_degraded_def
  step_in_safe_stop_def step_in_fault_halt_def

section \<open>The invariant is kept\<close>

lemma flag_bits_in_all [simp]:
  "bits_in GOV_FAULT_INIT GOV_FAULT_ALL" "bits_in GOV_FAULT_ESCALATED GOV_FAULT_ALL"
  "bits_in GOV_FAULT_DIVERGE GOV_FAULT_ALL" "bits_in GOV_FAULT_OPERATOR_STOP GOV_FAULT_ALL"
  "bits_in GOV_FAULT_INTERNAL GOV_FAULT_ALL" "bits_in GOV_FAULT_WATCHDOG GOV_FAULT_ALL"
  "bits_in GOV_FAULT_LINK GOV_FAULT_ALL" "bits_in GOV_FAULT_TIMING GOV_FAULT_ALL"
  "bits_in GOV_FAULT_SENSOR_ACTIVE GOV_FAULT_ALL"
  by (simp_all add: bits_in_def fault_values)

lemma flag_raised [simp]:
  "raised (state_flags GOV_ST_SAFE_STOP) GOV_FAULT_INIT"
  "raised (state_flags GOV_ST_SAFE_STOP) GOV_FAULT_DIVERGE"
  "raised (state_flags GOV_ST_SAFE_STOP) GOV_FAULT_ESCALATED"
  "raised (state_flags GOV_ST_SAFE_STOP) GOV_FAULT_OPERATOR_STOP"
  "raised (state_flags GOV_ST_FAULT_HALT) GOV_FAULT_INTERNAL"
  "raised (state_flags GOV_ST_DEGRADED) GOV_FAULT_SENSOR_ACTIVE"
  "raised (state_flags GOV_ST_DEGRADED) GOV_FAULT_LINK"
  "raised (state_flags GOV_ST_DEGRADED) GOV_FAULT_TIMING"
  by (simp_all add: raised_def state_flags_def fault_values)

lemma state_flags_quiet [simp]: "state_flags GOV_ST_INIT = 0" "state_flags GOV_ST_RUN = 0"
  by (simp_all add: state_flags_def)

lemmas flag_rules = flags_ok_def raised_OR bits_in_OR_left bits_in_OR_right bits_in_AND_left
  bits_in_AND_right

lemma stamps_ok_dispatch:
  assumes "stamps_ok now s"
  shows "s_state s \<noteq> GOV_ST_DEGRADED \<Longrightarrow> stamps_ok now (step_in_init s ev now)"
    and "s_state s \<noteq> GOV_ST_DEGRADED \<Longrightarrow> stamps_ok now (step_in_run s ev now)"
    and "s_state s = GOV_ST_DEGRADED \<Longrightarrow> stamps_ok now (step_in_degraded s ev now)"
    and "s_state s \<noteq> GOV_ST_DEGRADED \<Longrightarrow> stamps_ok now (step_in_safe_stop s ev now)"
    and "s_state s \<noteq> GOV_ST_DEGRADED \<Longrightarrow> stamps_ok now (step_in_fault_halt s ev)"
  using assms
  by (auto simp: stamps_ok_def step_in_init_def step_in_run_def step_in_degraded_def Let_def
      step_in_safe_stop_def step_in_fault_halt_def split: gov_event.split)

lemma timers_ok_service: "stamps_ok now s \<Longrightarrow> timers_ok (service_timers s now)"
  by (cases "s_state s") (auto simp: service_timers_def stamps_ok_def timers_ok_def not_le)

lemma timers_ok_quiet:
  assumes "stamps_ok now s" and "s_state s = GOV_ST_SAFE_STOP \<or> s_state s = GOV_ST_FAULT_HALT"
  shows "timers_ok s"
  using assms by (auto simp: stamps_ok_def timers_ok_def)

lemma timers_ok_step:
  assumes "timers_ok s" and "s_state s \<noteq> GOV_ST_COUNT"
  shows "timers_ok (gov_safety_step s ev now)"
proof (cases "now < s_now_ms s")
  case True
  with assms have "stamps_ok (s_now_ms s) (to_fault_halt s (s_now_ms s))"
    by (simp add: stamps_ok_def timers_ok_def)
  with True show ?thesis by (simp add: gov_safety_step_def timers_ok_quiet)
next
  case False
  let ?s = "s\<lparr>s_now_ms := now\<rparr>"
  have st: "stamps_ok now ?s"
    using False assms(1) by (auto simp: stamps_ok_def timers_ok_def)
  have halt: "timers_ok (to_fault_halt ?s now)"
    and stop: "timers_ok (to_safe_stop ?s fl now)" for fl
    using st by (auto simp: stamps_ok_def timers_ok_def)
  have wd: "timers_ok (enter (?s\<lparr>s_sticky := a, s_faults := b, s_init_start_ms := now\<rparr>)
      GOV_ST_INIT now)" for a b
    using st by (simp add: stamps_ok_def timers_ok_def safety_consts)
  show ?thesis
    using False assms(2) halt stop wd stamps_ok_dispatch [OF st]
    by (auto simp: gov_safety_step_def Let_def timers_ok_service split: gov_state.split)
qed

lemma flags_ok_service: "flags_ok s \<Longrightarrow> flags_ok (service_timers s now)"
  by (cases "s_state s") (auto simp: service_timers_def flag_rules elim: bits_in_trans)

lemma flags_ok_dispatch:
  assumes "flags_ok s"
  shows "flags_ok (step_in_init s ev now)" and "flags_ok (step_in_run s ev now)"
    and "flags_ok (step_in_degraded s ev now)" and "flags_ok (step_in_safe_stop s ev now)"
    and "flags_ok (step_in_fault_halt s ev)"
  using assms
  by (auto simp: flag_rules step_in_init_def step_in_run_def step_in_degraded_def Let_def
      step_in_safe_stop_def step_in_fault_halt_def elim: bits_in_trans split: gov_event.split)

lemma flags_ok_now: "flags_ok (s\<lparr>s_now_ms := now\<rparr>) = flags_ok s"
  by (simp add: flags_ok_def)

lemma flags_ok_step:
  assumes "flags_ok s"
  shows "flags_ok (gov_safety_step s ev now)"
proof -
  have s: "flags_ok (s\<lparr>s_now_ms := now\<rparr>)" using assms by (simp add: flags_ok_now)
  have halt: "flags_ok (to_fault_halt s' t)" if "flags_ok s'" for s' t
    using that by (auto simp: flag_rules)
  have stop: "flags_ok (to_safe_stop s' GOV_FAULT_OPERATOR_STOP t)" if "flags_ok s'" for s' t
    using that by (auto simp: flag_rules)
  have wd: "flags_ok (enter (s'\<lparr>s_sticky := s_sticky s' OR GOV_FAULT_WATCHDOG,
      s_faults := s_faults s' OR GOV_FAULT_WATCHDOG, s_init_start_ms := t\<rparr>) GOV_ST_INIT t)"
    if "flags_ok s'" for s' t
    using that by (auto simp: flag_rules) (simp_all add: bits_in_iff bit_simps)
  show ?thesis
    using assms halt [OF assms] halt [OF s] stop [OF s] flags_ok_dispatch [OF s] wd [OF s]
    by (auto simp: gov_safety_step_def Let_def flags_ok_service split: gov_state.split)
qed

lemma state_ok_step: "s_state (gov_safety_step s ev now) \<noteq> GOV_ST_COUNT"
  by (cases "s_state s"; cases ev) (auto simp: dispatch_defs Let_def)

lemma safety_inv_step: "safety_inv s \<Longrightarrow> safety_inv (gov_safety_step s ev now)"
  by (simp add: safety_inv_def flags_ok_step timers_ok_step state_ok_step)

lemma safety_inv_init_sticky: "safety_inv (gov_safety_init_sticky sticky)"
proof -
  have "bits_in (sticky AND GOV_FAULT_WATCHDOG) GOV_FAULT_ALL"
    by (metis bits_in_AND_right bits_in_refl bits_in_trans flag_bits_in_all(6))
  then show ?thesis
    by (simp add: safety_inv_def flags_ok_def timers_ok_def gov_safety_init_sticky_def Let_def
        safety_consts bits_in_iff bit_simps)
qed

lemma safety_event_simps [simp]:
  "fst (safety_event s (ev, t)) = gov_safety_step s ev t"
  "snd (safety_event s (ev, t)) = [s_state (gov_safety_step s ev t)]"
  by (simp_all add: safety_event_def Let_def)

interpretation safety: machine safety_event "\<lambda>_. True" safety_inv
  by unfold_locales (simp add: safety_event_def Let_def safety_inv_step)

section \<open>The step function and the transition table\<close>

lemma all_trigger:
  "(\<forall>tr. P tr) \<longleftrightarrow>
     (\<forall>e. P (Ev e)) \<and> P OkInTime \<and> P ClearedCause \<and> P InitTimeout \<and> P DegradeMax \<and>
     P RecoverDwell \<and> P TimeBackwards"
  by (metis sm_trigger.exhaust)

lemma ex_trigger:
  "(\<exists>tr. P tr) \<longleftrightarrow>
     (\<exists>e. P (Ev e)) \<or> P OkInTime \<or> P ClearedCause \<or> P InitTimeout \<or> P DegradeMax \<or>
     P RecoverDwell \<or> P TimeBackwards"
  by (metis sm_trigger.exhaust)

lemma bits_in_OR_self [simp]: "bits_in b (a OR b)" "bits_in a (a OR b)"
  by (simp_all add: bits_in_iff bit_simps)

lemma elapsed_timer_simps [simp]:
  "elapsed_timer InitTimeout" "elapsed_timer DegradeMax" "elapsed_timer RecoverDwell"
  "\<not> elapsed_timer (Ev e)" "\<not> elapsed_timer OkInTime" "\<not> elapsed_timer ClearedCause"
  "\<not> elapsed_timer TimeBackwards"
  by (simp_all add: elapsed_timer_def)

lemma sm_row_Ev:
  "sm_row st (Ev ev) st' fl \<longleftrightarrow> doc_row st (Ev ev) st' fl \<or>
     reports_fault ev \<and> (\<forall>st' fl. \<not> doc_row st (Ev ev) st' fl) \<and>
     st' = GOV_ST_FAULT_HALT \<and> fl = GOV_FAULT_INTERNAL"
  by (auto simp: sm_row.simps)

lemma sm_row_other:
  "sm_row st OkInTime st' fl = doc_row st OkInTime st' fl"
  "sm_row st ClearedCause st' fl = doc_row st ClearedCause st' fl"
  "sm_row st InitTimeout st' fl = doc_row st InitTimeout st' fl"
  "sm_row st DegradeMax st' fl = doc_row st DegradeMax st' fl"
  "sm_row st RecoverDwell st' fl = doc_row st RecoverDwell st' fl"
  "sm_row st TimeBackwards st' fl = doc_row st TimeBackwards st' fl"
  by (auto simp: sm_row.simps)

lemmas row_simps = enabled_def sm_row_Ev sm_row_other doc_row_simps reports_fault_def

lemma raised_bit:
  assumes "raised (push_bit n 1) (x :: u32)"
  shows "bits_in (push_bit n 1) x"
proof -
  have "x AND push_bit n 1 = 0" if "\<not> bit x n"
    by (rule bit_word_eqI) (use that in \<open>auto simp: bit_simps\<close>)
  with assms show ?thesis
    by (auto simp: raised_def bits_in_iff bit_simps and.commute)
qed

lemma internal_raised:
  assumes "safety_inv s" and "s_state s = GOV_ST_FAULT_HALT"
  shows "bits_in GOV_FAULT_INTERNAL (s_faults s)"
proof -
  have "raised GOV_FAULT_INTERNAL (s_faults s)"
    using assms by (auto simp: safety_inv_def flags_ok_def state_flags_def fault_values)
  then show ?thesis by (simp only: GOV_FAULT_INTERNAL_def raised_bit)
qed

lemma conforms_back:
  assumes "now < s_now_ms s"
  shows "conforms gone s ev now (gov_safety_step s ev now)"
proof -
  have s': "s_state (gov_safety_step s ev now) = GOV_ST_FAULT_HALT"
    "bits_in GOV_FAULT_INTERNAL (s_faults (gov_safety_step s ev now))"
    using assms by (simp_all add: gov_safety_step_def)
  with assms show ?thesis
    by (auto simp: conforms_def event_row_taken_def event_counted_def timer_row_taken_def
        row_simps all_trigger ex_trigger)
qed

lemmas conform_unfolds = conforms_def event_row_taken_def event_counted_def timer_row_taken_def
  enabled_def deviates_def escalation_due_def all_trigger ex_trigger sm_row_Ev sm_row_other
  doc_row_simps reports_fault_def

lemma conforms_iff:
  assumes "safety_inv s" and "s_now_ms s \<le> now"
  shows "conforms gone s ev now (gov_safety_step s ev now) \<longleftrightarrow> \<not> deviates gone s ev now"
proof -
  have n: "\<not> now < s_now_ms s" using assms(2) by simp
  note d = dispatch_defs safety_consts Let_def
  show ?thesis
  proof (cases "s_state s")
    case GOV_ST_INIT
    then show ?thesis using n unfolding conform_unfolds
      by (cases ev) (auto simp: d split: if_splits)
  next
    case GOV_ST_RUN
    moreover from this have "s_cause_clear_ms s = 0"
      using assms(1) by (auto simp: safety_inv_def timers_ok_def)
    ultimately show ?thesis using n unfolding conform_unfolds
      by (cases ev) (auto simp: d split: if_splits)
  next
    case GOV_ST_DEGRADED
    then show ?thesis using n unfolding conform_unfolds
      by (cases ev) (auto simp: d bits_in_OR_right split: if_splits)
  next
    case GOV_ST_SAFE_STOP
    then show ?thesis using n unfolding conform_unfolds
      by (cases ev) (auto simp: d split: if_splits)
  next
    case GOV_ST_FAULT_HALT
    then show ?thesis using n internal_raised [OF assms(1)] unfolding conform_unfolds
      by (cases ev) (auto simp: d split: if_splits)
  next
    case GOV_ST_COUNT
    then show ?thesis using assms by (simp add: safety_inv_def)
  qed
qed

text \<open>What the code does instead, for each kind of deviation.\<close>

lemma late_selftest:
  assumes "s_state s = GOV_ST_INIT" and "s_now_ms s \<le> now"
  shows "s_state (gov_safety_step s GOV_EV_SELFTEST_OK now) = GOV_ST_RUN"
  using assms by (auto simp: dispatch_defs Let_def)

lemma clear_restarts:
  assumes "s_state s = GOV_ST_SAFE_STOP" and "s_now_ms s \<le> now"
  shows "s_state (gov_safety_step s GOV_EV_OPERATOR_CLEAR now) = GOV_ST_INIT"
  using assms by (auto simp: dispatch_defs Let_def safety_consts)

lemma watchdog_restarts:
  assumes "s_now_ms s \<le> now"
  shows "s_state (gov_safety_step s GOV_EV_WATCHDOG now) = GOV_ST_INIT \<and>
    bits_in GOV_FAULT_WATCHDOG (s_sticky (gov_safety_step s GOV_EV_WATCHDOG now)) \<and>
    bits_in GOV_FAULT_WATCHDOG (s_faults (gov_safety_step s GOV_EV_WATCHDOG now))"
  using assms by (auto simp: gov_safety_step_def Let_def)

lemma diverge_degraded:
  assumes "s_state s = GOV_ST_DEGRADED" and "s_now_ms s \<le> now"
  shows "s_state (gov_safety_step s GOV_EV_DIVERGE now) = GOV_ST_SAFE_STOP \<and>
    bits_in GOV_FAULT_DIVERGE (s_faults (gov_safety_step s GOV_EV_DIVERGE now))"
  using assms by (auto simp: dispatch_defs Let_def)

lemma plain_step:
  assumes "s_now_ms s \<le> now"
    and "ev \<notin> {GOV_EV_INTERNAL_VIOLATION, GOV_EV_WATCHDOG, GOV_EV_OPERATOR_STOP}"
  shows "s_state s = GOV_ST_INIT \<Longrightarrow> gov_safety_step s ev now =
      service_timers (step_in_init (s\<lparr>s_now_ms := now\<rparr>) ev now) now"
    and "s_state s = GOV_ST_RUN \<Longrightarrow> gov_safety_step s ev now =
      service_timers (step_in_run (s\<lparr>s_now_ms := now\<rparr>) ev now) now"
    and "s_state s = GOV_ST_DEGRADED \<Longrightarrow> gov_safety_step s ev now =
      service_timers (step_in_degraded (s\<lparr>s_now_ms := now\<rparr>) ev now) now"
    and "s_state s = GOV_ST_SAFE_STOP \<Longrightarrow> gov_safety_step s ev now =
      service_timers (step_in_safe_stop (s\<lparr>s_now_ms := now\<rparr>) ev now) now"
  using assms by (simp_all add: gov_safety_step_def Let_def not_less)

lemma fault_again_degraded:
  assumes "s_state s = GOV_ST_DEGRADED" and "s_now_ms s \<le> now"
    and "ev \<in> {GOV_EV_SENSOR_FAULT, GOV_EV_LINK_FAULT, GOV_EV_DEADLINE_MISS}"
  shows "s_cause_clear_ms (gov_safety_step s ev now) = 0 \<and>
    bits_in (report_flag ev) (s_faults (gov_safety_step s ev now)) \<and>
    s_state (gov_safety_step s ev now) =
      (if now - s_state_since_ms s < GOV_DEGRADE_MAX_MS then GOV_ST_DEGRADED
       else GOV_ST_SAFE_STOP)"
proof -
  have d: "step_in_degraded (s\<lparr>s_now_ms := now\<rparr>) ev now =
      s\<lparr>s_now_ms := now, s_cause_clear_ms := 0, s_faults := s_faults s OR report_flag ev\<rparr>"
    using assms(3) by (auto simp: step_in_degraded_def report_flag_def)
  have e: "ev \<notin> {GOV_EV_INTERNAL_VIOLATION, GOV_EV_WATCHDOG, GOV_EV_OPERATOR_STOP}"
    using assms(3) by auto
  show ?thesis
    unfolding plain_step(3) [OF assms(2) e assms(1)] d
    using assms(1) by (auto simp: service_timers_def bits_in_OR_right)
qed

lemma service_reject: "service_timers (reject s) now = reject (service_timers s now)"
  by (cases "s_state s")
    (simp_all add: service_timers_def reject_def to_safe_stop_def enter_def Let_def)

lemma unhandled_dispatch:
  assumes "escalation_due s ev" and "ev \<noteq> GOV_EV_WATCHDOG"
  shows "s_state s = GOV_ST_INIT \<Longrightarrow> step_in_init s' ev now = reject s'"
    and "s_state s = GOV_ST_RUN \<Longrightarrow> step_in_run s' ev now = reject s'"
    and "s_state s = GOV_ST_SAFE_STOP \<Longrightarrow> step_in_safe_stop s' ev now = reject s'"
proof -
  have ev: "ev = GOV_EV_COUNT \<or> reports_fault ev"
    and none: "ev = GOV_EV_COUNT \<or> \<not> doc_row (s_state s) (Ev ev) st fl" for st fl
    using assms(1) by (auto simp: escalation_due_def)
  show "step_in_init s' ev now = reject s'" if "s_state s = GOV_ST_INIT"
    using ev none [of GOV_ST_SAFE_STOP GOV_FAULT_INIT] that T2
    by (cases ev) (simp_all add: step_in_init_def reports_fault_def)
  show "step_in_run s' ev now = reject s'" if "s_state s = GOV_ST_RUN"
    using ev none [of GOV_ST_DEGRADED "report_flag ev"] none [of GOV_ST_SAFE_STOP GOV_FAULT_DIVERGE]
      that T3 T4 T5 T10 [of GOV_ST_RUN]
    by (cases ev) (simp_all add: step_in_run_def reports_fault_def report_flag_def)
  show "step_in_safe_stop s' ev now = reject s'" if "s_state s = GOV_ST_SAFE_STOP"
    using ev by (cases ev) (simp_all add: step_in_safe_stop_def reports_fault_def)
qed

lemma unhandled_only_counted:
  assumes "escalation_due s ev" and "ev \<noteq> GOV_EV_WATCHDOG" and "s_now_ms s \<le> now"
    and "s_state s = GOV_ST_DEGRADED \<Longrightarrow> ev = GOV_EV_COUNT \<or> ev = GOV_EV_SELFTEST_FAIL"
    and "s_state s \<noteq> GOV_ST_COUNT"
  shows "gov_safety_step s ev now = reject (gov_safety_step s GOV_EV_TICK now)"
proof -
  have "ev = GOV_EV_COUNT \<or> reports_fault ev" and st: "s_state s \<noteq> GOV_ST_FAULT_HALT"
    using assms(1) unfolding escalation_due_def by blast+
  then have ev: "ev \<noteq> GOV_EV_INTERNAL_VIOLATION" "ev \<noteq> GOV_EV_OPERATOR_STOP"
    by (auto simp: reports_fault_def)
  have tick: "step_in_init s' GOV_EV_TICK now = s'" "step_in_run s' GOV_EV_TICK now = s'"
    "step_in_degraded s' GOV_EV_TICK now = s'" "step_in_safe_stop s' GOV_EV_TICK now = s'" for s'
    by (simp_all add: step_in_init_def step_in_run_def step_in_degraded_def step_in_safe_stop_def)
  have deg: "step_in_degraded s' ev now = reject s'" if "s_state s = GOV_ST_DEGRADED" for s'
    using assms(4) [OF that] by (elim disjE) (simp_all only: step_in_degraded_def gov_event.distinct
      if_False simp_thms)
  note step = plain_step [OF assms(3), of ev] plain_step [OF assms(3), of GOV_EV_TICK]
  show ?thesis
    using st assms(5)
    by (cases "s_state s")
      (simp_all only: step unhandled_dispatch [OF assms(1,2)] deg tick service_reject ev assms(2)
        insert_iff empty_iff gov_event.distinct gov_state.distinct simp_thms)
qed

lemma unhandled_counted:
  assumes "s_state s \<noteq> GOV_ST_COUNT" and "s_now_ms s \<le> now" and "escalation_due s ev"
    and "ev \<noteq> GOV_EV_WATCHDOG"
    and "\<not> (s_state s = GOV_ST_DEGRADED \<and>
          ev \<in> {GOV_EV_SENSOR_FAULT, GOV_EV_LINK_FAULT, GOV_EV_DIVERGE})"
  shows "gov_safety_step s ev now = reject (gov_safety_step s GOV_EV_TICK now)"
proof (rule unhandled_only_counted [OF assms(3,4,2) _ assms(1)])
  assume "s_state s = GOV_ST_DEGRADED"
  with assms(3,5) show "ev = GOV_EV_COUNT \<or> ev = GOV_EV_SELFTEST_FAIL"
    using assms(4) unfolding escalation_due_def reports_fault_def doc_row_simps by auto
qed

section \<open>Latching and actuation\<close>

lemma latched_step:
  assumes "s_state s = GOV_ST_SAFE_STOP \<or> s_state s = GOV_ST_FAULT_HALT"
    and "ev \<noteq> GOV_EV_OPERATOR_CLEAR" and "ev \<noteq> GOV_EV_WATCHDOG"
  shows "s_state (gov_safety_step s ev now) = GOV_ST_SAFE_STOP \<or>
    s_state (gov_safety_step s ev now) = GOV_ST_FAULT_HALT"
  using assms by (cases ev) (auto simp: dispatch_defs Let_def)

lemma halted_step:
  assumes "s_state s = GOV_ST_FAULT_HALT" and "ev \<noteq> GOV_EV_WATCHDOG"
  shows "s_state (gov_safety_step s ev now) = GOV_ST_FAULT_HALT"
  using assms by (cases ev) (auto simp: dispatch_defs Let_def)

interpretation latched: machine safety_event
  "\<lambda>e. fst e \<noteq> GOV_EV_OPERATOR_CLEAR \<and> fst e \<noteq> GOV_EV_WATCHDOG"
  "\<lambda>s. s_state s = GOV_ST_SAFE_STOP \<or> s_state s = GOV_ST_FAULT_HALT"
  by unfold_locales (simp add: safety_event_def Let_def latched_step)

interpretation halted: machine safety_event "\<lambda>e. fst e \<noteq> GOV_EV_WATCHDOG"
  "\<lambda>s. s_state s = GOV_ST_FAULT_HALT"
  by unfold_locales (simp add: safety_event_def Let_def halted_step)

lemma sint_i32_bounds: "- (2 ^ 31) \<le> sint (a :: i32)" "sint (a :: i32) < 2 ^ 31"
  using sint_range_size [of a] by (simp_all add: word_size)

lemma sdiv2_bounds: "- \<bar>k\<bar> \<le> k sdiv 2" "k sdiv 2 \<le> \<bar>k\<bar>" "2 * \<bar>k sdiv 2\<bar> \<le> \<bar>k :: int\<bar>"
  by (auto simp: signed_divide_int_def sgn_if abs_if)

lemma sint_of_small: "- (2 ^ 31) \<le> k \<Longrightarrow> k < 2 ^ 31 \<Longrightarrow> sint (word_of_int k :: i32) = k"
  by (simp add: signed_take_bit_int_eq_self_iff signed_of_int)

lemma sint_i32_div2: "sint (i32_div a 2) = sint a sdiv 2"
  using sint_i32_bounds [of a] sdiv2_bounds [of "sint a"]
  unfolding i32_div_def by (subst sint_of_small) (auto simp: abs_le_iff abs_if split: if_splits)

lemma clamp_degraded:
  "s_state s = GOV_ST_DEGRADED \<Longrightarrow> sint (gov_safety_clamp_output s d) = sint d sdiv 2"
  by (simp add: gov_safety_clamp_output_def safety_consts sint_i32_div2)

text \<open>
  What the application relies on: the safety machine is the only authority on the output. With
  actuation inhibited the output is the safe value; with actuation allowed it has the sign of
  the demand and is no larger.
\<close>

locale actuation_authority =
  fixes allowed :: "'s \<Rightarrow> bool" and clamp :: "'s \<Rightarrow> i32 \<Rightarrow> i32"
  assumes inhibited: "\<not> allowed s \<Longrightarrow> clamp s d = 0"
    and bounded: "\<bar>sint (clamp s d)\<bar> \<le> \<bar>sint d\<bar>"
    and same_sign: "0 \<le> sint d \<Longrightarrow> 0 \<le> sint (clamp s d)"
begin

lemma output_within:
  assumes "0 \<le> sint d" and "sint d \<le> m"
  shows "0 \<le> sint (clamp s d) \<and> sint (clamp s d) \<le> m"
  using assms bounded [of s d] same_sign [of d s] by auto

lemma actuates_only_if_allowed: "clamp s d \<noteq> 0 \<Longrightarrow> allowed s"
  using inhibited by blast

end

interpretation authority: actuation_authority gov_safety_actuation_allowed gov_safety_clamp_output
proof
  fix s d
  show "\<not> gov_safety_actuation_allowed s \<Longrightarrow> gov_safety_clamp_output s d = 0"
    by (cases "s_state s")
      (auto simp: gov_safety_actuation_allowed_def gov_safety_clamp_output_def safety_consts)
  have cases_st: "gov_safety_clamp_output s d = d \<or> gov_safety_clamp_output s d = 0 \<or>
      sint (gov_safety_clamp_output s d) = sint d sdiv 2"
    by (cases "s_state s = GOV_ST_DEGRADED"; cases "s_state s")
      (auto simp: clamp_degraded, auto simp: gov_safety_clamp_output_def safety_consts)
  then show "\<bar>sint (gov_safety_clamp_output s d)\<bar> \<le> \<bar>sint d\<bar>"
    using sdiv2_bounds [of "sint d"] by (auto simp: abs_le_iff)
  from cases_st show "0 \<le> sint (gov_safety_clamp_output s d)" if "0 \<le> sint d"
    using that by (auto simp: signed_divide_int_def sgn_if)
qed

section \<open>Bounded degradation and recovery\<close>

lemma degraded_ends:
  assumes "s_state s = GOV_ST_DEGRADED" and "s_now_ms s \<le> now"
    and "now - s_state_since_ms s \<ge> GOV_DEGRADE_MAX_MS"
  shows "\<not> gov_safety_actuation_allowed (gov_safety_step s ev now)"
  using assms
  by (cases ev) (auto simp: dispatch_defs Let_def not_less gov_safety_actuation_allowed_def)

text \<open>A degraded machine whose recovery dwell is running, seen at time \<open>t\<close>.\<close>

lemma dwell_tick:
  assumes "s_state s = GOV_ST_DEGRADED" and "s_cause_clear_ms s = t1" and "t1 \<noteq> 0"
    and "s_now_ms s \<le> t" and "t - s_state_since_ms s < GOV_DEGRADE_MAX_MS"
  shows "t - t1 < GOV_RECOVER_MS \<Longrightarrow> gov_safety_step s GOV_EV_TICK t = s\<lparr>s_now_ms := t\<rparr>"
    and "t - t1 \<ge> GOV_RECOVER_MS \<Longrightarrow>
      s_state (gov_safety_step s GOV_EV_TICK t) = GOV_ST_RUN \<and>
      bits_in (s_faults (gov_safety_step s GOV_EV_TICK t)) (GOV_FAULT_WATCHDOG OR s_sticky s)"
  using assms by (auto simp: dispatch_defs Let_def bits_in_iff bit_simps)

lemma dwell_ticks:
  assumes "s_state s = GOV_ST_DEGRADED" and "s_cause_clear_ms s = t1" and "t1 \<noteq> 0"
    and "s_state_since_ms s = t0" and "sorted (s_now_ms s # ts)"
    and "\<forall>t \<in> set ts. t - t1 < GOV_RECOVER_MS \<and> t - t0 < GOV_DEGRADE_MAX_MS"
  shows "fst (run safety_event s (map (Pair GOV_EV_TICK) ts)) =
    s\<lparr>s_now_ms := last (s_now_ms s # ts)\<rparr>"
  using assms
proof (induction ts arbitrary: s)
  case Nil
  then show ?case by simp
next
  case (Cons t ts)
  have st: "gov_safety_step s GOV_EV_TICK t = s\<lparr>s_now_ms := t\<rparr>"
    by (rule dwell_tick(1) [OF Cons.prems(1-3)]) (use Cons.prems(4-6) in auto)
  have "fst (run safety_event (s\<lparr>s_now_ms := t\<rparr>) (map (Pair GOV_EV_TICK) ts)) =
      s\<lparr>s_now_ms := t\<rparr>\<lparr>s_now_ms := last (t # ts)\<rparr>"
    using Cons.IH [of "s\<lparr>s_now_ms := t\<rparr>"] Cons.prems by simp
  then show ?case
    by (simp add: st)
qed

lemma cause_cleared_starts_dwell:
  assumes "s_state s = GOV_ST_DEGRADED" and "s_cause_clear_ms s = 0" and "s_now_ms s \<le> t1"
    and "t1 - s_state_since_ms s < GOV_DEGRADE_MAX_MS"
  shows "gov_safety_step s GOV_EV_CAUSE_CLEARED t1 = s\<lparr>s_now_ms := t1, s_cause_clear_ms := t1\<rparr>"
  using assms by (auto simp: dispatch_defs Let_def safety_consts)

lemma recovery_run:
  assumes "s_state s = GOV_ST_DEGRADED" and "s_cause_clear_ms s = 0" and "s_now_ms s \<le> t1"
    and "t1 \<noteq> 0" and "sorted (t1 # ts)"
    and "\<forall>t \<in> set ts. t - t1 < GOV_RECOVER_MS"
    and "\<forall>t \<in> set (t1 # ts @ [t2]). t - s_state_since_ms s < GOV_DEGRADE_MAX_MS"
    and "last (t1 # ts) \<le> t2" and "t2 - t1 \<ge> GOV_RECOVER_MS"
    and r: "r = run safety_event s ((GOV_EV_CAUSE_CLEARED, t1) # map (Pair GOV_EV_TICK) ts)"
  shows "s_state (fst r) = GOV_ST_DEGRADED"
    and "s_state (gov_safety_step (fst r) GOV_EV_TICK t2) = GOV_ST_RUN"
    and "bits_in (s_faults (gov_safety_step (fst r) GOV_EV_TICK t2))
           (GOV_FAULT_WATCHDOG OR s_sticky s)"
proof -
  let ?s1 = "s\<lparr>s_now_ms := t1, s_cause_clear_ms := t1\<rparr>"
  have c: "gov_safety_step s GOV_EV_CAUSE_CLEARED t1 = ?s1"
    by (rule cause_cleared_starts_dwell) (use assms in auto)
  have "fst (run safety_event ?s1 (map (Pair GOV_EV_TICK) ts)) =
      ?s1\<lparr>s_now_ms := last (t1 # ts)\<rparr>"
    using dwell_ticks [of ?s1 t1 "s_state_since_ms s" ts] assms by simp
  then have fin: "fst r = ?s1\<lparr>s_now_ms := last (t1 # ts)\<rparr>"
    by (simp add: r c)
  then show "s_state (fst r) = GOV_ST_DEGRADED" using assms(1) by simp
  show "s_state (gov_safety_step (fst r) GOV_EV_TICK t2) = GOV_ST_RUN"
    and "bits_in (s_faults (gov_safety_step (fst r) GOV_EV_TICK t2))
      (GOV_FAULT_WATCHDOG OR s_sticky s)"
    using dwell_tick(2) [of "fst r" t1 t2] assms fin by simp_all
qed

section \<open>Properties\<close>

text \<open>
  C2. Every state the safety machine can reach, from any boot (with or without the sticky
  watchdog bit) by any sequence of stamped events, is one of the five states of the design,
  carries the flag that explains it (no unflagged fault), and keeps the bounds of its timers:
  at most 2000 ms in INIT, at most 5000 ms in DEGRADED.
\<close>

theorem safety_reachable_invariant:
  "safety_inv (fst (run safety_event (gov_safety_init_sticky sticky) es))"
  by (rule safety.run_invar) (simp_all add: safety_inv_init_sticky)



text \<open>
  C4. SAFE_STOP and FAULT_HALT latch: whatever events arrive, at whatever times, without an
  operator clear and without a watchdog reset among them, the machine stays in one of the two
  after every step and the actuator output is the safe value. An operator clear does not leave
  FAULT_HALT.
\<close>

theorem safety_latches:
  assumes "s_state s = GOV_ST_SAFE_STOP \<or> s_state s = GOV_ST_FAULT_HALT"
    and "\<forall>e \<in> set es. fst e \<noteq> GOV_EV_OPERATOR_CLEAR \<and> fst e \<noteq> GOV_EV_WATCHDOG"
  shows "(\<forall>st \<in> set (snd (run safety_event s es)).
            st = GOV_ST_SAFE_STOP \<or> st = GOV_ST_FAULT_HALT) \<and>
         gov_safety_clamp_output (fst (run safety_event s es)) d = GOV_SAFE_OUTPUT \<and>
         (s_state s = GOV_ST_FAULT_HALT \<longrightarrow>
            s_state (gov_safety_step s GOV_EV_OPERATOR_CLEAR t) = GOV_ST_FAULT_HALT)"
proof (intro conjI impI)
  show "\<forall>st \<in> set (snd (run safety_event s es)). st = GOV_ST_SAFE_STOP \<or> st = GOV_ST_FAULT_HALT"
    by (rule latched.run_outputs [OF _ assms]) (auto simp: safety_event_def Let_def latched_step)
  have "s_state (fst (run safety_event s es)) = GOV_ST_SAFE_STOP \<or>
      s_state (fst (run safety_event s es)) = GOV_ST_FAULT_HALT"
    by (rule latched.run_invar [OF assms])
  then show "gov_safety_clamp_output (fst (run safety_event s es)) d = GOV_SAFE_OUTPUT"
    by (auto simp: gov_safety_clamp_output_def)
qed (simp add: halted_step)

theorem safety_latches_witness:
  "\<exists>s. s_state s = GOV_ST_SAFE_STOP \<and>
     gov_safety_clamp_output (fst (run safety_event s
        [(GOV_EV_SELFTEST_OK, 40), (GOV_EV_TICK, 9000), (GOV_EV_CAUSE_CLEARED, 9100)])) 80 = 0"
proof -
  let ?s = "to_safe_stop gov_safety_init GOV_FAULT_DIVERGE 30"
  have "s_state ?s = GOV_ST_SAFE_STOP \<or> s_state ?s = GOV_ST_FAULT_HALT" by simp
  from safety_latches [OF this, of "[(GOV_EV_SELFTEST_OK, 40), (GOV_EV_TICK, 9000),
      (GOV_EV_CAUSE_CLEARED, 9100)]" 80]
  show ?thesis by (intro exI [of _ ?s]) (simp add: GOV_SAFE_OUTPUT_def)
qed

text \<open>
  The output the machine lets through: nothing but the safe value outside RUN and DEGRADED,
  the full demand in RUN, and half of it, rounded towards zero, in DEGRADED. No demand
  overflows on the way.
\<close>

theorem safety_clamp_output_exact:
  "sint (gov_safety_clamp_output s d) =
     (if s_state s = GOV_ST_RUN then sint d
      else if s_state s = GOV_ST_DEGRADED then sint d sdiv 2
      else 0)"
  by (cases "s_state s = GOV_ST_DEGRADED"; cases "s_state s")
    (simp_all add: clamp_degraded, simp_all add: gov_safety_clamp_output_def safety_consts)

text \<open>
  Degradation is bounded: in a degraded machine every event at or after 5000 ms from the
  entry into DEGRADED leaves a machine that no longer allows actuation.
\<close>

theorem degraded_is_bounded:
  assumes "s_state s = GOV_ST_DEGRADED" and "s_now_ms s \<le> now"
    and "now - s_state_since_ms s \<ge> GOV_DEGRADE_MAX_MS"
  shows "\<not> gov_safety_actuation_allowed (gov_safety_step s ev now) \<and>
    gov_safety_clamp_output (gov_safety_step s ev now) d = GOV_SAFE_OUTPUT"
  using degraded_ends [OF assms] authority.inhibited by (simp add: GOV_SAFE_OUTPUT_def)

theorem degraded_is_bounded_witness:
  "\<not> gov_safety_actuation_allowed (gov_safety_step
      (gov_safety_step (gov_safety_step gov_safety_init GOV_EV_SELFTEST_OK 10)
         GOV_EV_SENSOR_FAULT 100) GOV_EV_CAUSE_CLEARED 5100)"
proof -
  let ?s = "gov_safety_step (gov_safety_step gov_safety_init GOV_EV_SELFTEST_OK 10)
    GOV_EV_SENSOR_FAULT 100"
  have "s_state ?s = GOV_ST_DEGRADED" and "s_now_ms ?s \<le> 5100"
    and "5100 - s_state_since_ms ?s \<ge> GOV_DEGRADE_MAX_MS"
    by (simp_all add: dispatch_defs Let_def gov_safety_init_def gov_safety_init_sticky_def
        safety_consts)
  from degraded_is_bounded [OF this] show ?thesis by blast
qed

text \<open>
  Recovery: a degraded machine whose cause clears at a time \<open>t1\<close> other than 0 stays
  degraded while ticks arrive within 500 ms of it, and returns to RUN, with every recoverable
  flag cleared, at the first tick at or after \<open>t1 + 500\<close>, as long as the 5000 ms bound has not
  been reached.
\<close>

theorem recovery_after_dwell:
  assumes "s_state s = GOV_ST_DEGRADED" and "s_cause_clear_ms s = 0" and "s_now_ms s \<le> t1"
    and "t1 \<noteq> 0" and "sorted (t1 # ts)"
    and "\<forall>t \<in> set ts. t - t1 < GOV_RECOVER_MS"
    and "\<forall>t \<in> set (t1 # ts @ [t2]). t - s_state_since_ms s < GOV_DEGRADE_MAX_MS"
    and "last (t1 # ts) \<le> t2" and "t2 - t1 \<ge> GOV_RECOVER_MS"
  shows "let s' = fst (run safety_event s
             ((GOV_EV_CAUSE_CLEARED, t1) # map (Pair GOV_EV_TICK) ts))
         in s_state s' = GOV_ST_DEGRADED \<and>
            s_state (gov_safety_step s' GOV_EV_TICK t2) = GOV_ST_RUN \<and>
            bits_in (s_faults (gov_safety_step s' GOV_EV_TICK t2))
              (GOV_FAULT_WATCHDOG OR s_sticky s)"
  using recovery_run [OF assms refl] by (simp add: Let_def)

theorem recovery_after_dwell_witness:
  "s_state (gov_safety_step (fst (run safety_event
      (gov_safety_step (gov_safety_step gov_safety_init GOV_EV_SELFTEST_OK 10)
         GOV_EV_LINK_FAULT 100)
      ((GOV_EV_CAUSE_CLEARED, 120) # map (Pair GOV_EV_TICK) [130, 600]))) GOV_EV_TICK 620)
   = GOV_ST_RUN"
proof -
  let ?s = "gov_safety_step (gov_safety_step gov_safety_init GOV_EV_SELFTEST_OK 10)
    GOV_EV_LINK_FAULT 100"
  have h: "s_state ?s = GOV_ST_DEGRADED" "s_cause_clear_ms ?s = 0" "s_now_ms ?s = 100"
    "s_state_since_ms ?s = 100"
    by (simp_all add: dispatch_defs Let_def gov_safety_init_def gov_safety_init_sticky_def
        safety_consts)
  show ?thesis
    using recovery_after_dwell [of ?s 120 "[130, 600]" 620] h
    by (simp add: Let_def safety_consts)
qed

text \<open>
  Time must not go backwards: a step stamped before the last one halts the machine from any
  state, with the internal flag raised. The stamp is the 32-bit uptime, so its wrap-around
  (every 49.7 days) does this to a healthy running node.
\<close>

theorem time_backwards_halts:
  assumes "now < s_now_ms s"
  shows "s_state (gov_safety_step s ev now) = GOV_ST_FAULT_HALT \<and>
    raised GOV_FAULT_INTERNAL (s_faults (gov_safety_step s ev now)) \<and>
    s_now_ms (gov_safety_step s ev now) = s_now_ms s"
  using assms by (simp add: gov_safety_step_def raised_OR raised_self fault_values)

theorem time_backwards_halts_witness:
  "s_state (gov_safety_step
      (gov_safety_step (gov_safety_step gov_safety_init GOV_EV_SELFTEST_OK 10)
         GOV_EV_TICK 0xFFFFFFFF) GOV_EV_TICK 0) = GOV_ST_FAULT_HALT"
proof -
  let ?s = "gov_safety_step (gov_safety_step gov_safety_init GOV_EV_SELFTEST_OK 10)
    GOV_EV_TICK 0xFFFFFFFF"
  have "0 < s_now_ms ?s"
    by (simp add: dispatch_defs Let_def gov_safety_init_def gov_safety_init_sticky_def
        safety_consts)
  from time_backwards_halts [OF this] show ?thesis by blast
qed

end
