(* ===== verification/Gov_Float.thy ===== *)
theory Gov_Float
  imports Complex_Main Gov_Prelude
begin

text \<open>
  The arithmetic of the C type \<^verbatim>\<open>float\<close> on the targets: IEEE binary32 with rounding to nearest,
  ties to even, every operation rounded on its own. A finite number is its exact rational value.
  The two zeros are one value: the control code only adds, subtracts, multiplies, compares,
  converts, and divides by values it knows to be positive, and none of these tells them apart.
  The payload of a NaN is not represented either.
\<close>

section \<open>Rounding\<close>

text \<open>The number of binary digits of a natural number.\<close>

function bits :: "int \<Rightarrow> nat" where
  "bits n = (if n \<le> 0 then 0 else Suc (bits (n div 2)))"
  by pat_completeness auto
termination
  by (relation "measure nat") auto

declare bits.simps [simp del]

text \<open>The nearest integer, the even one of two.\<close>

definition rne :: "rat \<Rightarrow> int" where
  "rne x = (let k = \<lfloor>x\<rfloor>; r = x - of_int k in
     if r < 1 / 2 \<or> (r = 1 / 2 \<and> even k) then k else k + 1)"

text \<open>
  The distance of the 24-bit numbers around a value: the smallest subnormal is \<open>2\<^sup>-\<^sup>1\<^sup>4\<^sup>9\<close>.
\<close>

definition f32_exp :: "rat \<Rightarrow> nat" where
  "f32_exp x = bits \<lfloor>\<bar>x\<bar> * 2 ^ 149\<rfloor> - 24"

definition f32_ulp :: "rat \<Rightarrow> rat" where
  "f32_ulp x = 2 ^ f32_exp x / 2 ^ 149"

definition f32_near :: "rat \<Rightarrow> rat" where
  "f32_near x = of_int (rne (x / f32_ulp x)) * f32_ulp x"

section \<open>Numbers\<close>

datatype f32 = NaN | PInf | NInf | Fin rat

definition f32_round :: "rat \<Rightarrow> f32" where
  "f32_round x =
     (let y = f32_near x in if 2 ^ 128 \<le> y then PInf else if y \<le> - (2 ^ 128) then NInf else Fin y)"

text \<open>The sign of a number that is not a NaN.\<close>

fun f32_sgn :: "f32 \<Rightarrow> rat" where
  "f32_sgn PInf = 1"
| "f32_sgn NInf = - 1"
| "f32_sgn (Fin x) = sgn x"
| "f32_sgn NaN = 0"

definition f32_inf :: "rat \<Rightarrow> f32" where
  "f32_inf s = (if s = 0 then NaN else if s > 0 then PInf else NInf)"

fun f32_neg :: "f32 \<Rightarrow> f32" where
  "f32_neg NaN = NaN"
| "f32_neg PInf = NInf"
| "f32_neg NInf = PInf"
| "f32_neg (Fin x) = Fin (- x)"

fun f32_add :: "f32 \<Rightarrow> f32 \<Rightarrow> f32" where
  "f32_add (Fin x) (Fin y) = f32_round (x + y)"
| "f32_add NaN y = NaN"
| "f32_add x NaN = NaN"
| "f32_add PInf y = (if y = NInf then NaN else PInf)"
| "f32_add NInf y = (if y = PInf then NaN else NInf)"
| "f32_add (Fin x) y = y"

definition f32_sub :: "f32 \<Rightarrow> f32 \<Rightarrow> f32" where
  "f32_sub x y = f32_add x (f32_neg y)"

fun f32_mul :: "f32 \<Rightarrow> f32 \<Rightarrow> f32" where
  "f32_mul (Fin x) (Fin y) = f32_round (x * y)"
| "f32_mul NaN y = NaN"
| "f32_mul x NaN = NaN"
| "f32_mul x y = f32_inf (f32_sgn x * f32_sgn y)"

text \<open>A zero divisor is taken for the positive zero.\<close>

fun f32_div :: "f32 \<Rightarrow> f32 \<Rightarrow> f32" where
  "f32_div (Fin x) (Fin y) = (if y = 0 then f32_inf (sgn x) else f32_round (x / y))"
| "f32_div NaN y = NaN"
| "f32_div x NaN = NaN"
| "f32_div (Fin x) y = Fin 0"
| "f32_div x (Fin y) = f32_inf (f32_sgn x * (if y = 0 then 1 else sgn y))"
| "f32_div x y = NaN"

fun f32_lt :: "f32 \<Rightarrow> f32 \<Rightarrow> bool" where
  "f32_lt (Fin x) (Fin y) \<longleftrightarrow> x < y"
| "f32_lt NaN y \<longleftrightarrow> False"
| "f32_lt x NaN \<longleftrightarrow> False"
| "f32_lt x PInf \<longleftrightarrow> x \<noteq> PInf"
| "f32_lt NInf y \<longleftrightarrow> y \<noteq> NInf"
| "f32_lt x y \<longleftrightarrow> False"

abbreviation f32_gt :: "f32 \<Rightarrow> f32 \<Rightarrow> bool" where
  "f32_gt x y \<equiv> f32_lt y x"

text \<open>A NaN differs from everything, itself included.\<close>

definition f32_ne :: "f32 \<Rightarrow> f32 \<Rightarrow> bool" where
  "f32_ne x y \<longleftrightarrow> x = NaN \<or> x \<noteq> y"

section \<open>Conversions\<close>

definition f32_of_int :: "int \<Rightarrow> f32" where
  "f32_of_int n = f32_round (of_int n)"

text \<open>A decimal literal \<open>n / d\<close>.\<close>

definition f32_lit :: "int \<Rightarrow> int \<Rightarrow> f32" where
  "f32_lit n d = f32_round (of_int n / of_int d)"

definition trunc :: "rat \<Rightarrow> int" where
  "trunc x = (if 0 \<le> x then \<lfloor>x\<rfloor> else \<lceil>x\<rceil>)"

text \<open>The conversion to \<^verbatim>\<open>int32_t\<close> truncates; where the value does not fit, C leaves it undefined.\<close>

fun f32_to_i32 :: "f32 \<Rightarrow> i32 option" where
  "f32_to_i32 (Fin x) =
     (if - (2 ^ 31) \<le> trunc x \<and> trunc x < 2 ^ 31 then Some (word_of_int (trunc x)) else None)"
| "f32_to_i32 x = None"

fun is_fin :: "f32 \<Rightarrow> bool" where
  "is_fin (Fin x) = True"
| "is_fin x = False"

text \<open>The value lies in the closed interval; false for a NaN.\<close>

definition f32_in :: "f32 \<Rightarrow> rat \<Rightarrow> rat \<Rightarrow> bool" where
  "f32_in x a b \<longleftrightarrow> (case x of Fin v \<Rightarrow> a \<le> v \<and> v \<le> b | _ \<Rightarrow> False)"

section \<open>The nearest integer\<close>

lemma rne_le: "x \<le> of_int k \<Longrightarrow> rne x \<le> k"
proof -
  assume a: "x \<le> of_int k"
  show ?thesis
  proof (cases "\<lfloor>x\<rfloor> = k")
    case True
    with a have "x = of_int k" using of_int_floor_le [of x] by simp
    then show ?thesis by (simp add: rne_def)
  next
    case False
    with a have "\<lfloor>x\<rfloor> < k" using floor_mono [OF a] by simp
    then show ?thesis by (simp add: rne_def Let_def)
  qed
qed

lemma rne_unique:
  assumes "of_int k \<le> x" and "x < of_int k + 1"
  shows "rne x = (if x - of_int k < 1 / 2 \<or> (x - of_int k = 1 / 2 \<and> even k) then k else k + 1)"
proof -
  have "\<lfloor>x\<rfloor> = k" using assms by (simp add: floor_unique)
  then show ?thesis by (simp add: rne_def)
qed

lemma rne_minus: "rne (- x) = - rne x"
proof (cases "x = of_int \<lfloor>x\<rfloor>")
  case True
  then obtain k where x: "x = of_int k" by blast
  have "rne (of_int (- k)) = - k" "rne (of_int k) = k" unfolding rne_def Let_def floor_of_int by simp_all
  then show ?thesis unfolding x by simp
next
  case False
  obtain k where k: "of_int k \<le> x" "x < of_int k + 1" "x \<noteq> of_int k"
    using False floor_correct [of x] by (metis of_int_add of_int_1)
  then have "of_int (- k - 1) \<le> - x" "- x < of_int (- k - 1) + 1" by simp_all
  from rne_unique [OF this] rne_unique [OF k(1,2)] show ?thesis by auto
qed

lemma rne_ge: "of_int k \<le> x \<Longrightarrow> k \<le> rne x"
  using rne_le [of "- x" "- k"] by (simp add: rne_minus)

lemma rne_of_int [simp]: "rne (of_int k) = k"
  by (simp add: rne_def)

lemma rne_twice: "0 \<le> x \<Longrightarrow> of_int (rne x) \<le> 2 * x"
proof -
  assume a: "0 \<le> x"
  have f: "of_int \<lfloor>x\<rfloor> \<le> x" "0 \<le> \<lfloor>x\<rfloor>" using a by simp_all
  then have g: "(0 :: rat) \<le> of_int \<lfloor>x\<rfloor>" by simp
  show ?thesis
  proof (cases "rne x = \<lfloor>x\<rfloor>")
    case True
    then show ?thesis using f(1) a by linarith
  next
    case False
    then have r: "rne x = \<lfloor>x\<rfloor> + 1" and "\<not> (x - of_int \<lfloor>x\<rfloor> < 1 / 2)"
      by (auto simp: rne_def Let_def split: if_splits)
    then have "1 / 2 \<le> x - of_int \<lfloor>x\<rfloor>" by simp
    with g show ?thesis unfolding r of_int_add by linarith
  qed
qed

section \<open>Rounding keeps bounds\<close>

lemma bits_0 [simp]: "n \<le> 0 \<Longrightarrow> bits n = 0"
  by (simp add: bits.simps)

lemma bits_pos: "0 < n \<Longrightarrow> bits n = Suc (bits (n div 2))"
  by (simp add: bits.simps [of n])

lemma bits_mono: "m \<le> n \<Longrightarrow> bits m \<le> bits n"
proof (induction n arbitrary: m rule: bits.induct)
  case (1 n)
  show ?case
  proof (cases "m \<le> 0")
    case False
    with "1.prems" have "bits (m div 2) \<le> bits (n div 2)" by (intro "1.IH" zdiv_mono1) simp_all
    with False "1.prems" show ?thesis by (simp add: bits_pos)
  qed simp
qed

lemma bits_pow2: "bits (2 ^ k) = Suc k"
  by (induction k) (simp_all add: bits_pos)

lemma bits_le: "n < 2 ^ k \<Longrightarrow> bits n \<le> k"
proof (induction k arbitrary: n)
  case 0
  then show ?case by simp
next
  case (Suc k)
  then have "n div 2 < 2 ^ k" by (simp add: div_less_iff_less_mult)
  with Suc.IH show ?case by (cases "n \<le> 0") (simp_all add: bits_pos)
qed

lemma f32_exp_mono: "\<bar>x\<bar> \<le> \<bar>y\<bar> \<Longrightarrow> f32_exp x \<le> f32_exp y"
  unfolding f32_exp_def by (intro diff_le_mono bits_mono floor_mono mult_right_mono) simp_all

lemma f32_ulp_pos [simp]: "0 < f32_ulp x"
  by (simp add: f32_ulp_def)

lemma f32_ulp_minus [simp]: "f32_ulp (- x) = f32_ulp x"
  by (simp add: f32_ulp_def f32_exp_def)

lemma f32_near_minus: "f32_near (- x) = - f32_near x"
  by (simp add: f32_near_def rne_minus)

text \<open>A value that is itself a number of the format.\<close>

definition representable :: "rat \<Rightarrow> bool" where
  "representable b \<longleftrightarrow> (\<exists>j. b = of_int j * f32_ulp b)"

lemma f32_near_le:
  assumes "0 \<le> x" and "x \<le> b" and "representable b"
  shows "f32_near x \<le> b"
proof -
  obtain j where j: "b = of_int j * f32_ulp b" using assms(3) unfolding representable_def by blast
  have "f32_exp x \<le> f32_exp b" using assms(1,2) by (intro f32_exp_mono) simp
  then obtain d where "f32_exp b = f32_exp x + d" by (metis le_Suc_ex)
  then have "f32_ulp b = of_int (2 ^ d) * f32_ulp x" by (simp add: f32_ulp_def power_add)
  with j have b: "b = of_int (j * 2 ^ d) * f32_ulp x" by (metis mult.assoc of_int_mult)
  then have "x / f32_ulp x \<le> of_int (j * 2 ^ d)"
    using assms(2) by (subst pos_divide_le_eq) simp_all
  then have "of_int (rne (x / f32_ulp x)) \<le> (of_int (j * 2 ^ d) :: rat)"
    unfolding of_int_le_iff by (rule rne_le)
  then show ?thesis unfolding f32_near_def
    by (subst b) (intro mult_right_mono less_imp_le [OF f32_ulp_pos])
qed

lemma f32_near_nonneg: "0 \<le> x \<Longrightarrow> 0 \<le> f32_near x"
  unfolding f32_near_def using rne_ge [of 0 "x / f32_ulp x"] f32_ulp_pos [of x]
  by (simp add: less_imp_le zero_le_mult_iff)

lemma f32_near_0 [simp]: "f32_near 0 = 0"
  using rne_of_int [of 0] by (simp add: f32_near_def del: rne_of_int)

lemma f32_near_abs: "\<bar>f32_near x\<bar> = f32_near \<bar>x\<bar>"
  using f32_near_nonneg [of x] f32_near_nonneg [of "- x"] by (cases "0 \<le> x") (simp_all add: f32_near_minus abs_if)

lemma f32_near_abs_le: "\<bar>x\<bar> \<le> b \<Longrightarrow> representable b \<Longrightarrow> \<bar>f32_near x\<bar> \<le> b"
  unfolding f32_near_abs by (rule f32_near_le) simp_all

lemma f32_near_twice: "\<bar>f32_near x\<bar> \<le> 2 * \<bar>x\<bar>"
proof -
  let ?y = "\<bar>x\<bar>"
  have "of_int (rne (?y / f32_ulp ?y)) * f32_ulp ?y \<le> (2 * (?y / f32_ulp ?y)) * f32_ulp ?y"
    using less_imp_le [OF f32_ulp_pos [of ?y]] by (intro mult_right_mono rne_twice divide_nonneg_nonneg) simp_all
  then show ?thesis unfolding f32_near_abs unfolding f32_near_def using f32_ulp_pos [of ?y] by simp
qed

lemma representable_pow2: "representable (2 ^ k)"
proof -
  have "\<bar>2 ^ k :: rat\<bar> * 2 ^ 149 = of_int (2 ^ (k + 149))" by (simp add: power_add)
  then have e: "f32_exp (2 ^ k) = k + 126" by (simp only: f32_exp_def floor_of_int bits_pow2)
  have "(2 ^ k :: rat) = of_int (2 ^ 23) * f32_ulp (2 ^ k)"
    unfolding f32_ulp_def e by (simp add: power_add)
  then show ?thesis unfolding representable_def by blast
qed

lemma f32_near_representable: "representable b \<Longrightarrow> f32_near b = b"
  unfolding representable_def f32_near_def
  by (metis f32_ulp_pos less_irrefl nonzero_mult_div_cancel_right rne_of_int)

text \<open>Integers of up to 24 bits are numbers of the format.\<close>

lemma representable_int:
  assumes "\<bar>n\<bar> < 2 ^ 24"
  shows "representable (of_int n)"
proof -
  have "\<bar>of_int n :: rat\<bar> * 2 ^ 149 = of_int (\<bar>n\<bar> * 2 ^ 149)" by simp
  moreover have "\<bar>n\<bar> * 2 ^ 149 < 2 ^ 24 * 2 ^ 149" using assms by (intro mult_strict_right_mono) simp_all
  then have "bits (\<bar>n\<bar> * 2 ^ 149) \<le> 173" by (intro bits_le) simp
  ultimately have e: "f32_exp (of_int n) \<le> 149"
    unfolding f32_exp_def using diff_le_mono [of "bits (\<bar>n\<bar> * 2 ^ 149)" 173 24] by (simp only: floor_of_int)
  then have "(2 :: rat) ^ 149 = 2 ^ (149 - f32_exp (of_int n)) * 2 ^ f32_exp (of_int n)"
    by (metis le_add_diff_inverse2 power_add)
  then have "of_int n = of_int (n * 2 ^ (149 - f32_exp (of_int n))) * f32_ulp (of_int n)"
    unfolding f32_ulp_def by simp
  then show ?thesis unfolding representable_def by blast
qed

text \<open>The rounded value is within half a unit of the last place.\<close>

lemma f32_near_error: "\<bar>f32_near x - x\<bar> \<le> f32_ulp x / 2"
proof -
  define t where "t = x / f32_ulp x"
  have "\<bar>of_int (rne t) - t\<bar> \<le> 1 / 2"
    using floor_correct [of t] by (auto simp: rne_def Let_def abs_le_iff)
  then have "\<bar>of_int (rne t) - t\<bar> * f32_ulp x \<le> 1 / 2 * f32_ulp x"
    by (rule mult_right_mono) (simp add: less_imp_le)
  moreover have "f32_near x - x = (of_int (rne t) - t) * f32_ulp x"
    using f32_ulp_pos [of x] by (simp add: t_def f32_near_def left_diff_distrib less_imp_neq [symmetric])
  ultimately show ?thesis by (simp add: abs_mult less_imp_le)
qed

section \<open>Operations on bounded numbers\<close>

lemma f32_round_in:
  assumes "\<bar>x\<bar> \<le> b" and "representable b" and "b < 2 ^ 128"
  shows "f32_round x = Fin (f32_near x)" "\<bar>f32_near x\<bar> \<le> b"
proof -
  show n: "\<bar>f32_near x\<bar> \<le> b" by (rule f32_near_abs_le [OF assms(1,2)])
  then show "f32_round x = Fin (f32_near x)" using assms(3) by (auto simp: f32_round_def Let_def abs_le_iff)
qed

text \<open>Magnitudes as powers of two.\<close>

definition mag :: "f32 \<Rightarrow> nat \<Rightarrow> bool" where
  "mag x k \<longleftrightarrow> f32_in x (- (2 ^ k)) (2 ^ k)"

lemma mag_Fin: "mag (Fin v) k \<longleftrightarrow> \<bar>v\<bar> \<le> 2 ^ k"
  by (auto simp: mag_def f32_in_def abs_le_iff)

lemma magE: "mag x k \<Longrightarrow> (\<And>v. x = Fin v \<Longrightarrow> \<bar>v\<bar> \<le> 2 ^ k \<Longrightarrow> thesis) \<Longrightarrow> thesis"
  by (cases x) (auto simp: mag_Fin, auto simp: mag_def f32_in_def)

lemma mag_mono: "mag x k \<Longrightarrow> k \<le> l \<Longrightarrow> mag x l"
  by (erule magE) (simp add: mag_Fin, meson order_trans power_increasing one_le_numeral)

lemma mag_round:
  assumes "\<bar>x\<bar> \<le> 2 ^ k" and "k < 128"
  shows "mag (f32_round x) k"
proof -
  have "(2 :: rat) ^ k < 2 ^ 128" using assms(2) by (rule power_strict_increasing) simp
  from f32_round_in [OF assms(1) representable_pow2 this] show ?thesis by (simp add: mag_Fin)
qed

lemma mag_neg: "mag x k \<Longrightarrow> mag (f32_neg x) k"
  by (erule magE) (simp add: mag_Fin)

lemma mag_add: "mag x k \<Longrightarrow> mag y k \<Longrightarrow> k < 127 \<Longrightarrow> mag (f32_add x y) (Suc k)"
  by (erule magE, erule magE) (simp, rule mag_round, auto simp: abs_le_iff)

lemma mag_sub: "mag x k \<Longrightarrow> mag y k \<Longrightarrow> k < 127 \<Longrightarrow> mag (f32_sub x y) (Suc k)"
  unfolding f32_sub_def by (intro mag_add mag_neg)

lemma mag_mul: "mag x k \<Longrightarrow> mag y l \<Longrightarrow> k + l < 128 \<Longrightarrow> mag (f32_mul x y) (k + l)"
  by (erule magE, erule magE) (simp, rule mag_round, auto simp: abs_mult power_add intro: mult_mono)

lemma mag_div:
  assumes "mag x k" and "1 / 2 ^ l \<le> d" and "k + l < 128"
  shows "mag (f32_div x (Fin d)) (k + l)"
proof -
  obtain v where v: "x = Fin v" "\<bar>v\<bar> \<le> 2 ^ k" using assms(1) by (rule magE)
  have d: "0 < d" using assms(2) by (meson less_le_trans zero_less_divide_1_iff zero_less_numeral zero_less_power)
  have "1 \<le> d * 2 ^ l" using assms(2) by (simp add: divide_le_eq)
  then have "2 ^ k * 1 \<le> 2 ^ k * (d * 2 ^ l)" by (intro mult_left_mono) simp_all
  also have "\<dots> = 2 ^ (k + l) * d" by (simp add: power_add)
  finally have "\<bar>v\<bar> \<le> 2 ^ (k + l) * d" using v(2) by simp
  with d have "\<bar>v / d\<bar> \<le> 2 ^ (k + l)" by (simp add: abs_divide divide_le_eq)
  from mag_round [OF this assms(3)] d show ?thesis by (simp add: v(1))
qed

lemma f32_of_int_exact: "\<bar>n\<bar> < 2 ^ 24 \<Longrightarrow> f32_of_int n = Fin (of_int n)"
proof -
  assume a: "\<bar>n\<bar> < 2 ^ 24"
  have "\<bar>of_int n :: rat\<bar> < 2 ^ 24" using a by (metis of_int_abs of_int_less_iff of_int_numeral of_int_power)
  then show ?thesis
    using f32_near_representable [OF representable_int [OF a]] unfolding f32_of_int_def f32_round_def Let_def
    by (simp add: abs_less_iff)
qed

lemma trunc_of_int [simp]: "trunc (of_int n) = n"
  by (simp add: trunc_def)

lemma trunc_bounds: "of_int a \<le> x \<Longrightarrow> x \<le> of_int b \<Longrightarrow> 0 \<le> a \<Longrightarrow> a \<le> trunc x \<and> trunc x \<le> b"
proof -
  assume a: "of_int a \<le> x" "x \<le> of_int b" "0 \<le> a"
  then have "0 \<le> x" by (meson of_int_0_le_iff order_trans)
  then show ?thesis using a floor_mono [OF a(2)] by (simp add: trunc_def le_floor_iff)
qed

text \<open>The facts that evaluate the arithmetic on literals.\<close>

lemma floor_rat:
  "\<lfloor>numeral a / numeral b :: rat\<rfloor> = numeral a div numeral b"
  "\<lfloor>1 / numeral b :: rat\<rfloor> = 1 div numeral b"
  "\<lfloor>- (numeral a / numeral b) :: rat\<rfloor> = (- numeral a) div numeral b"
  "\<lfloor>- (1 / numeral b) :: rat\<rfloor> = (- 1) div numeral b"
  by (metis floor_divide_of_int_eq of_int_numeral of_int_1 of_int_minus minus_divide_left)+

lemmas f32_eval = floor_rat f32_lit_def f32_of_int_def f32_sub_def f32_round_def f32_near_def f32_ulp_def f32_exp_def
  bits_pos rne_def trunc_def

lemma f32_0_1: "f32_lit 1 10 = Fin (13421773 / 134217728)"
  by (simp add: f32_eval)

end
