(* ===== verification/Gov_Control.thy ===== *)
theory Gov_Control
  imports Gov_Float
begin

text \<open>
  The controller and the simulated plant, \<^verbatim>\<open>lib/control/control_config.h\<close>, \<^verbatim>\<open>pid.h\<close>, \<^verbatim>\<open>pid.c\<close>,
  \<^verbatim>\<open>plant.h\<close> and \<^verbatim>\<open>plant.c\<close>, over the binary32 arithmetic of \<^verbatim>\<open>Gov_Float\<close>; every operation is
  written in the order in which the C expression evaluates it.
\<close>

section \<open>Constants\<close>

definition GOV_CTRL_PERIOD_MS :: u32 where [gov_defs]: "GOV_CTRL_PERIOD_MS = 10"
definition GOV_CTRL_JITTER_MS :: u32 where [gov_defs]: "GOV_CTRL_JITTER_MS = 1"
definition GOV_DIVERGE_LIMIT :: f32 where "GOV_DIVERGE_LIMIT = f32_lit 150 1"
definition GOV_DIVERGE_MS :: u32 where [gov_defs]: "GOV_DIVERGE_MS = 200"
definition GOV_CTRL_SAFE_OUTPUT :: int where [gov_defs]: "GOV_CTRL_SAFE_OUTPUT = 0"
definition GOV_DEGRADED_CLAMP_PCT :: int where [gov_defs]: "GOV_DEGRADED_CLAMP_PCT = 50"
definition GOV_CTRL_OUT_MIN :: f32 where "GOV_CTRL_OUT_MIN = f32_lit 0 1"
definition GOV_CTRL_OUT_MAX :: f32 where "GOV_CTRL_OUT_MAX = f32_lit 100 1"

definition gov_ctrl_degraded_clamp :: "f32 \<Rightarrow> f32" where
  "gov_ctrl_degraded_clamp desired =
     (let safe = f32_of_int GOV_CTRL_SAFE_OUTPUT;
          span = f32_sub GOV_CTRL_OUT_MAX GOV_CTRL_OUT_MIN;
          half = f32_mul (f32_div (f32_of_int GOV_DEGRADED_CLAMP_PCT) (f32_lit 100 1)) span;
          lo = (if f32_lt (f32_sub safe half) GOV_CTRL_OUT_MIN then GOV_CTRL_OUT_MIN else f32_sub safe half);
          hi = (if f32_gt (f32_add safe half) GOV_CTRL_OUT_MAX then GOV_CTRL_OUT_MAX else f32_add safe half)
      in if f32_lt desired lo then lo else if f32_gt desired hi then hi else desired)"

section \<open>The controller\<close>

record gov_pid_cfg =
  pc_kp :: f32
  pc_ki :: f32
  pc_kd :: f32
  pc_out_min :: f32
  pc_out_max :: f32
  pc_integ_min :: f32
  pc_integ_max :: f32
  pc_diverge_limit :: f32
  pc_diverge_ms :: u32

record gov_pid =
  pd_cfg :: gov_pid_cfg
  pd_integ :: f32
  pd_prev_meas :: f32
  pd_has_prev :: bool
  pd_saturated :: bool
  pd_div_accum_ms :: u32
  pd_diverging :: bool

definition gov_fabsf :: "f32 \<Rightarrow> f32" where
  "gov_fabsf x = (if f32_lt x (Fin 0) then f32_neg x else x)"

definition gov_clampf :: "f32 \<Rightarrow> f32 \<Rightarrow> f32 \<Rightarrow> f32" where
  "gov_clampf x lo hi = (if f32_lt x lo then lo else if f32_gt x hi then hi else x)"

definition gov_pid_reset :: "gov_pid \<Rightarrow> gov_pid" where
  "gov_pid_reset p = p\<lparr> pd_integ := Fin 0, pd_prev_meas := Fin 0, pd_has_prev := False,
     pd_saturated := False, pd_div_accum_ms := 0, pd_diverging := False \<rparr>"

definition gov_pid_init :: "gov_pid \<Rightarrow> gov_pid_cfg \<Rightarrow> gov_pid" where
  "gov_pid_init p cfg = gov_pid_reset (p\<lparr> pd_cfg := cfg \<rparr>)"

text \<open>The derivative term, the candidate of the integrator and the divergence report of a step.\<close>

definition pid_d_term :: "gov_pid \<Rightarrow> f32 \<Rightarrow> f32 \<Rightarrow> f32" where
  "pid_d_term p measurement dt =
     (if pd_has_prev p \<and> f32_gt dt (Fin 0)
      then let d_meas = f32_div (f32_sub measurement (pd_prev_meas p)) dt
           in f32_mul (f32_neg (pc_kd (pd_cfg p))) d_meas
      else Fin 0)"

definition pid_integ_candidate :: "gov_pid \<Rightarrow> f32 \<Rightarrow> f32 \<Rightarrow> f32" where
  "pid_integ_candidate p error dt =
     gov_clampf (f32_add (pd_integ p) (f32_mul (f32_mul (pc_ki (pd_cfg p)) error) dt))
       (pc_integ_min (pd_cfg p)) (pc_integ_max (pd_cfg p))"

definition pid_divergence :: "gov_pid \<Rightarrow> f32 \<Rightarrow> u32 \<Rightarrow> gov_pid" where
  "pid_divergence p error dt_ms =
     (if f32_gt (gov_fabsf error) (pc_diverge_limit (pd_cfg p))
      then let p1 = p\<lparr> pd_div_accum_ms := pd_div_accum_ms p + dt_ms \<rparr>
           in if pd_div_accum_ms p1 \<ge> pc_diverge_ms (pd_cfg p1) then p1\<lparr> pd_diverging := True \<rparr> else p1
      else p\<lparr> pd_div_accum_ms := 0, pd_diverging := False \<rparr>)"

definition gov_pid_step :: "gov_pid \<Rightarrow> f32 \<Rightarrow> f32 \<Rightarrow> u32 \<Rightarrow> gov_pid \<times> f32" where
  "gov_pid_step p setpoint measurement dt_ms =
     (let cfg = pd_cfg p;
          dt = f32_div (f32_of_int (uint dt_ms)) (f32_lit 1000 1);
          error = f32_sub setpoint measurement;
          p_term = f32_mul (pc_kp cfg) error;
          d_term = pid_d_term p measurement dt;
          integ_candidate = pid_integ_candidate p error dt;
          out_unsat0 = f32_add (f32_add p_term integ_candidate) d_term;
          commit_integ =
            (if f32_gt out_unsat0 (pc_out_max cfg) \<and> f32_gt error (Fin 0) then False
             else if f32_lt out_unsat0 (pc_out_min cfg) \<and> f32_lt error (Fin 0) then False
             else True);
          p1 = (if commit_integ then p\<lparr> pd_integ := integ_candidate \<rparr> else p);
          out_unsat = (if commit_integ then out_unsat0
                       else f32_add (f32_add p_term (pd_integ p1)) d_term);
          out = gov_clampf out_unsat (pc_out_min cfg) (pc_out_max cfg);
          p2 = p1\<lparr> pd_saturated := f32_ne out out_unsat \<rparr>;
          p3 = pid_divergence p2 error dt_ms;
          p4 = p3\<lparr> pd_prev_meas := measurement, pd_has_prev := True \<rparr>
      in (p4, out))"

definition gov_pid_saturated :: "gov_pid \<Rightarrow> bool" where
  "gov_pid_saturated p = pd_saturated p"

definition gov_pid_diverging :: "gov_pid \<Rightarrow> bool" where
  "gov_pid_diverging p = pd_diverging p"

section \<open>The plant\<close>

record gov_plant_cfg =
  lc_tau_s :: f32
  lc_gain :: f32
  lc_y0 :: f32

record gov_plant =
  pl_cfg :: gov_plant_cfg
  pl_y :: f32
  pl_disturbance :: f32

definition gov_plant_reset :: "gov_plant \<Rightarrow> gov_plant" where
  "gov_plant_reset pl = pl\<lparr> pl_y := lc_y0 (pl_cfg pl), pl_disturbance := Fin 0 \<rparr>"

definition gov_plant_init :: "gov_plant \<Rightarrow> gov_plant_cfg \<Rightarrow> gov_plant" where
  "gov_plant_init pl cfg = gov_plant_reset (pl\<lparr> pl_cfg := cfg \<rparr>)"

definition gov_plant_step :: "gov_plant \<Rightarrow> f32 \<Rightarrow> u32 \<Rightarrow> gov_plant \<times> f32" where
  "gov_plant_step pl u dt_ms =
     (let dt = f32_div (f32_of_int (uint dt_ms)) (f32_lit 1000 1);
          pl1 = (if f32_gt (lc_tau_s (pl_cfg pl)) (Fin 0)
                 then let drive = f32_sub (f32_mul (lc_gain (pl_cfg pl)) u) (pl_y pl)
                      in pl\<lparr> pl_y := f32_add (pl_y pl) (f32_mul (f32_div dt (lc_tau_s (pl_cfg pl))) drive) \<rparr>
                 else pl);
          pl2 = pl1\<lparr> pl_y := f32_add (pl_y pl1) (pl_disturbance pl1) \<rparr>
      in (pl2, pl_y pl2))"

definition gov_plant_output :: "gov_plant \<Rightarrow> f32" where
  "gov_plant_output pl = pl_y pl"

definition gov_plant_set_disturbance :: "gov_plant \<Rightarrow> f32 \<Rightarrow> gov_plant" where
  "gov_plant_set_disturbance pl d = pl\<lparr> pl_disturbance := d \<rparr>"

section \<open>Constants of a period\<close>

definition dt10 :: rat where "dt10 = 10737418 / 1073741824"

lemma dt10_eq: "f32_div (f32_of_int (uint GOV_CTRL_PERIOD_MS)) (f32_lit 1000 1) = Fin dt10"
  by (simp add: GOV_CTRL_PERIOD_MS_def dt10_def f32_eval)

section \<open>The clamp\<close>

lemma gov_clampf_in: "x \<noteq> NaN \<Longrightarrow> a \<le> b \<Longrightarrow> f32_in (gov_clampf x (Fin a) (Fin b)) a b"
  by (cases x) (auto simp: gov_clampf_def f32_in_def)

lemma gov_clampf_id: "f32_in x a b \<Longrightarrow> gov_clampf x (Fin a) (Fin b) = x"
  by (cases x) (auto simp: gov_clampf_def f32_in_def)

lemma mag_not_NaN: "mag x k \<Longrightarrow> x \<noteq> NaN"
  by (auto simp: mag_def f32_in_def)

text \<open>The reference helper limits to the window from 0 to 50.\<close>

lemma degraded_clamp_window: "gov_ctrl_degraded_clamp x = gov_clampf x (Fin 0) (Fin 50)"
proof -
  have c: "GOV_CTRL_OUT_MAX = Fin 100" "GOV_CTRL_OUT_MIN = Fin 0"
    by (simp_all add: GOV_CTRL_OUT_MAX_def GOV_CTRL_OUT_MIN_def f32_eval)
  have "f32_mul (f32_div (f32_of_int GOV_DEGRADED_CLAMP_PCT) (f32_lit 100 1)) (f32_sub (Fin 100) (Fin 0)) = Fin 50"
    "f32_of_int GOV_CTRL_SAFE_OUTPUT = Fin 0" "f32_sub (Fin 0) (Fin 50) = Fin (- 50)" "f32_add (Fin 0) (Fin 50) = Fin 50"
    by (simp_all add: GOV_DEGRADED_CLAMP_PCT_def GOV_CTRL_SAFE_OUTPUT_def f32_eval)
  then show ?thesis unfolding gov_ctrl_degraded_clamp_def c gov_clampf_def Let_def by simp
qed

section \<open>Bounds of the controller\<close>

text \<open>
  Gains up to 128, finite limits in order, an integrator window around zero: with measurements
  and setpoints in the range of 32-bit integers no operation of a step overflows.
\<close>

definition pid_cfg_ok :: "gov_pid_cfg \<Rightarrow> rat \<Rightarrow> rat \<Rightarrow> rat \<Rightarrow> rat \<Rightarrow> bool" where
  "pid_cfg_ok cfg a b c d \<longleftrightarrow>
     mag (pc_kp cfg) 7 \<and> mag (pc_ki cfg) 7 \<and> mag (pc_kd cfg) 7 \<and>
     pc_out_min cfg = Fin a \<and> pc_out_max cfg = Fin b \<and> a \<le> b \<and>
     pc_integ_min cfg = Fin c \<and> pc_integ_max cfg = Fin d \<and> c \<le> 0 \<and> 0 \<le> d \<and> - (2 ^ 30) \<le> c \<and> d \<le> 2 ^ 30"

definition pid_ok :: "gov_pid_cfg \<Rightarrow> rat \<Rightarrow> rat \<Rightarrow> gov_pid \<Rightarrow> bool" where
  "pid_ok cfg c d p \<longleftrightarrow> pd_cfg p = cfg \<and> f32_in (pd_integ p) c d \<and> mag (pd_prev_meas p) 31"

lemma pid_divergence_keeps [simp]:
  "pd_cfg (pid_divergence p e dt) = pd_cfg p" "pd_integ (pid_divergence p e dt) = pd_integ p"
  "pd_prev_meas (pid_divergence p e dt) = pd_prev_meas p" "pd_has_prev (pid_divergence p e dt) = pd_has_prev p"
  "pd_saturated (pid_divergence p e dt) = pd_saturated p"
  by (simp_all add: pid_divergence_def Let_def)

lemma in_mag: "f32_in x c d \<Longrightarrow> - (2 ^ k) \<le> c \<Longrightarrow> d \<le> 2 ^ k \<Longrightarrow> mag x k"
  by (cases x) (auto simp: f32_in_def mag_def)

text \<open>The sum before the clamp, with either value of the integrator.\<close>

lemma pid_terms_bounded:
  assumes "mag sp 31" and "mag m 31" and "pid_cfg_ok cfg a b c d" and "pid_ok cfg c d p"
  shows "mag (pid_d_term p m (Fin dt10)) 46"
    and "f32_in (pid_integ_candidate p (f32_sub sp m) (Fin dt10)) c d"
    and "f32_in i c d \<Longrightarrow>
      mag (f32_add (f32_add (f32_mul (pc_kp cfg) (f32_sub sp m)) i) (pid_d_term p m (Fin dt10))) 47"
proof -
  have cfg: "pd_cfg p = cfg" and integ: "f32_in (pd_integ p) c d" and prev: "mag (pd_prev_meas p) 31"
    using assms(4) by (simp_all add: pid_ok_def)
  have k: "mag (pc_kp cfg) 7" "mag (pc_ki cfg) 7" "mag (pc_kd cfg) 7"
    and w: "pc_integ_min cfg = Fin c" "pc_integ_max cfg = Fin d" "c \<le> d" "- (2 ^ 30) \<le> c" "d \<le> 2 ^ 30"
    using assms(3) by (simp_all add: pid_cfg_ok_def)
  have dt: "mag (Fin dt10) 0" "1 / 2 ^ 7 \<le> dt10" by (simp_all add: mag_Fin dt10_def)
  have e: "mag (f32_sub sp m) 32" using mag_sub [OF assms(1,2)] by simp
  have "mag (f32_div (f32_sub m (pd_prev_meas p)) (Fin dt10)) 39"
    using mag_div [OF mag_sub [OF assms(2) prev], of 7 dt10] dt(2) by simp
  from mag_mul [OF mag_neg [OF k(3)] this] show dterm: "mag (pid_d_term p m (Fin dt10)) 46"
    by (simp add: pid_d_term_def cfg mag_Fin)
  have "mag (f32_mul (f32_mul (pc_ki cfg) (f32_sub sp m)) (Fin dt10)) 39"
    using mag_mul [OF mag_mul [OF k(2) e] dt(1)] by simp
  moreover have "mag (pd_integ p) 39" using mag_mono [OF in_mag [OF integ w(4,5)]] by simp
  ultimately have "mag (f32_add (pd_integ p) (f32_mul (f32_mul (pc_ki cfg) (f32_sub sp m)) (Fin dt10))) 40"
    using mag_add by fastforce
  from gov_clampf_in [OF mag_not_NaN [OF this] w(3)]
  show "f32_in (pid_integ_candidate p (f32_sub sp m) (Fin dt10)) c d"
    by (simp add: pid_integ_candidate_def cfg w)
  assume "f32_in i c d"
  then have "mag i 39" using mag_mono [OF in_mag [OF _ w(4,5)]] by simp
  with mag_mul [OF k(1) e] have "mag (f32_add (f32_mul (pc_kp cfg) (f32_sub sp m)) i) 40"
    using mag_add by fastforce
  then have "mag (f32_add (f32_mul (pc_kp cfg) (f32_sub sp m)) i) 46" by (rule mag_mono) simp
  from mag_add [OF this dterm]
  show "mag (f32_add (f32_add (f32_mul (pc_kp cfg) (f32_sub sp m)) i) (pid_d_term p m (Fin dt10))) 47" by simp
qed

lemma pid_step_bounded:
  assumes "mag sp 31" and "mag m 31" and "pid_cfg_ok cfg a b c d" and "pid_ok cfg c d p"
    and "gov_pid_step p sp m GOV_CTRL_PERIOD_MS = (p', out)"
  shows "pid_ok cfg c d p' \<and> f32_in out a b"
proof -
  have cfg: "pd_cfg p = cfg" and integ: "f32_in (pd_integ p) c d"
    using assms(4) by (simp_all add: pid_ok_def)
  have o: "pc_out_min cfg = Fin a" "pc_out_max cfg = Fin b" "a \<le> b"
    using assms(3) by (simp_all add: pid_cfg_ok_def)
  note t = pid_terms_bounded [OF assms(1-4)]
  note n = mag_not_NaN [OF t(3) [OF t(2)]] mag_not_NaN [OF t(3) [OF integ]]
  show ?thesis
    using assms(2,5) t(2) integ gov_clampf_in [OF n(1) o(3)] gov_clampf_in [OF n(2) o(3)]
    by (auto simp: gov_pid_step_def Let_def dt10_eq cfg o pid_ok_def split: if_splits)
qed

section \<open>Divergence\<close>

text \<open>One call of the step: setpoint, measurement, milliseconds.\<close>

type_synonym pid_event = "f32 \<times> f32 \<times> u32"

definition pid_event :: "gov_pid \<Rightarrow> pid_event \<Rightarrow> gov_pid \<times> f32 list" where
  "pid_event p e = (case e of (sp, m, dt) \<Rightarrow> let (p', out) = gov_pid_step p sp m dt in (p', [out]))"

definition out_of_band :: "gov_pid_cfg \<Rightarrow> pid_event \<Rightarrow> bool" where
  "out_of_band cfg e = (case e of (sp, m, dt) \<Rightarrow> f32_gt (gov_fabsf (f32_sub sp m)) (pc_diverge_limit cfg))"

text \<open>The milliseconds of the steps since the error was last in band.\<close>

definition streak :: "gov_pid_cfg \<Rightarrow> pid_event list \<Rightarrow> pid_event list" where
  "streak cfg es = takeWhile (out_of_band cfg) (rev es)"

definition streak_ms :: "gov_pid_cfg \<Rightarrow> pid_event list \<Rightarrow> nat" where
  "streak_ms cfg es = (\<Sum>(sp, m, dt) \<leftarrow> streak cfg es. unat dt)"

lemma streak_snoc: "streak cfg (es @ [e]) = (if out_of_band cfg e then e # streak cfg es else [])"
  by (simp add: streak_def)

lemma pid_step_divergence:
  "\<exists>q. pd_cfg q = pd_cfg p \<and> pd_div_accum_ms q = pd_div_accum_ms p \<and> pd_diverging q = pd_diverging p \<and>
    fst (gov_pid_step p sp m dt) = pid_divergence q (f32_sub sp m) dt\<lparr> pd_prev_meas := m, pd_has_prev := True \<rparr>"
  unfolding gov_pid_step_def Let_def fst_conv by (rule exI, intro conjI) (simp_all split: if_split)

lemma pid_event_divergence:
  assumes "pid_event p e = (p', outs)" and "e = (sp, m, dt)"
  shows "pd_cfg p' = pd_cfg p"
    and "pd_div_accum_ms p' = (if out_of_band (pd_cfg p) e then pd_div_accum_ms p + dt else 0)"
    and "pd_diverging p' = (out_of_band (pd_cfg p) e \<and>
      (pd_diverging p \<or> pc_diverge_ms (pd_cfg p) \<le> pd_div_accum_ms p + dt))"
proof -
  obtain q where q: "pd_cfg q = pd_cfg p" "pd_div_accum_ms q = pd_div_accum_ms p" "pd_diverging q = pd_diverging p"
    and "p' = pid_divergence q (f32_sub sp m) dt\<lparr> pd_prev_meas := m, pd_has_prev := True \<rparr>"
    using assms pid_step_divergence [of p sp m dt] by (auto simp: pid_event_def case_prod_beta Let_def)
  then show "pd_cfg p' = pd_cfg p"
    and "pd_div_accum_ms p' = (if out_of_band (pd_cfg p) e then pd_div_accum_ms p + dt else 0)"
    and "pd_diverging p' = (out_of_band (pd_cfg p) e \<and>
      (pd_diverging p \<or> pc_diverge_ms (pd_cfg p) \<le> pd_div_accum_ms p + dt))"
    by (simp_all add: pid_divergence_def out_of_band_def Let_def assms(2))
qed

definition diverge_inv :: "gov_pid_cfg \<Rightarrow> pid_event list \<Rightarrow> gov_pid \<Rightarrow> bool" where
  "diverge_inv cfg es p \<longleftrightarrow> pd_cfg p = cfg \<and>
     (pd_diverging p \<longleftrightarrow> streak cfg es \<noteq> [] \<and> unat (pc_diverge_ms cfg) \<le> streak_ms cfg es) \<and>
     (\<not> pd_diverging p \<longrightarrow> unat (pd_div_accum_ms p) = streak_ms cfg es)"

lemma diverge_inv_step:
  assumes "diverge_inv cfg es p" and e: "e = (sp, m, dt)" and "unat dt + unat (pc_diverge_ms cfg) \<le> 2 ^ 32"
  shows "diverge_inv cfg (es @ [e]) (fst (pid_event p e))"
proof -
  obtain p' outs where s: "pid_event p e = (p', outs)" by fastforce
  note d = pid_event_divergence [OF s e]
  have cfg: "pd_cfg p = cfg" using assms(1) by (simp add: diverge_inv_def)
  show ?thesis
  proof (cases "out_of_band cfg e")
    case False
    then show ?thesis using d by (simp add: s cfg diverge_inv_def streak_snoc streak_ms_def)
  next
    case True
    then have ms: "streak_ms cfg (es @ [e]) = unat dt + streak_ms cfg es"
      by (simp add: streak_ms_def streak_snoc e)
    show ?thesis
    proof (cases "pd_diverging p")
      case True
      then show ?thesis using d assms(1) \<open>out_of_band cfg e\<close>
        by (simp add: s cfg diverge_inv_def ms) (simp add: streak_snoc)
    next
      case False
      then have acc: "unat (pd_div_accum_ms p) = streak_ms cfg es" using assms(1) by (simp add: diverge_inv_def)
      have "streak cfg es = [] \<or> streak_ms cfg es < unat (pc_diverge_ms cfg)"
        using False assms(1) by (auto simp: diverge_inv_def)
      then have "streak_ms cfg es + unat dt < 2 ^ 32"
        using assms(3) unsigned_less [where 'a = nat, of dt] by (auto simp: streak_ms_def)
      then have "unat (pd_div_accum_ms p + dt) = streak_ms cfg es + unat dt"
        by (simp add: unat_word_ariths(1) acc)
      then show ?thesis using d False \<open>out_of_band cfg e\<close>
        by (simp add: s cfg diverge_inv_def ms word_le_nat_alt add.commute) (simp add: streak_snoc)
    qed
  qed
qed

lemma diverge_inv_run:
  assumes "diverge_inv cfg es p" and "\<forall>e \<in> set es'. unat (snd (snd e)) + unat (pc_diverge_ms cfg) \<le> 2 ^ 32"
  shows "diverge_inv cfg (es @ es') (fst (run pid_event p es'))"
  using assms
proof (induction es' arbitrary: es p)
  case Nil
  then show ?case by simp
next
  case (Cons e es')
  obtain sp m dt where "e = (sp, m, dt)" by (metis prod_cases3)
  with diverge_inv_step [OF Cons.prems(1), of e sp m dt] Cons.prems(2)
  have "diverge_inv cfg (es @ [e]) (fst (pid_event p e))" by simp
  from Cons.IH [OF this] Cons.prems(2) show ?case by simp
qed

section \<open>The plant\<close>

text \<open>
  With unit gain and a step of at most an eighth of the time constant the output moves towards the
  input and never past it, so it stays in the envelope of the inputs.
\<close>

definition plant_ok :: "gov_plant_cfg \<Rightarrow> gov_plant \<Rightarrow> bool" where
  "plant_ok cfg pl \<longleftrightarrow> pl_cfg pl = cfg \<and> pl_disturbance pl = Fin 0 \<and> f32_in (pl_y pl) 0 100"

lemma near_100: "0 \<le> x \<Longrightarrow> x \<le> 100 \<Longrightarrow> f32_round x = Fin (f32_near x) \<and> 0 \<le> f32_near x \<and> f32_near x \<le> 100"
proof -
  assume a: "0 \<le> x" "x \<le> 100"
  have r: "representable 100" using representable_int [of 100] by simp
  show ?thesis using f32_round_in [of x 100, OF _ r] f32_near_nonneg [OF a(1)] a by simp
qed

lemma between:
  assumes "0 \<le> v" "v \<le> 100" "0 \<le> w" "w \<le> (100 :: rat)" and "0 \<le> c" "c \<le> 1 / 8"
  shows "0 \<le> v + f32_near (c * f32_near (w - v)) \<and> v + f32_near (c * f32_near (w - v)) \<le> 100"
proof -
  let ?d = "f32_near (w - v)"
  let ?p = "f32_near (c * ?d)"
  have "\<bar>?p\<bar> \<le> 2 * \<bar>c * ?d\<bar>" by (rule f32_near_twice)
  also have "\<dots> = (2 * c) * \<bar>?d\<bar>" using assms(5) by (simp add: abs_mult)
  also have "\<dots> \<le> (1 / 4) * (2 * \<bar>w - v\<bar>)" using assms(5,6) by (intro mult_mono f32_near_twice) simp_all
  finally have p: "\<bar>?p\<bar> \<le> \<bar>w - v\<bar>" by simp
  show ?thesis
  proof (cases "v \<le> w")
    case True
    then have "0 \<le> ?p" using assms(5) by (intro f32_near_nonneg mult_nonneg_nonneg) simp_all
    with p True assms show ?thesis by simp
  next
    case False
    then have "0 \<le> f32_near (c * f32_near (v - w))" using assms(5) by (intro f32_near_nonneg mult_nonneg_nonneg) simp_all
    moreover have "f32_near (v - w) = - ?d" using f32_near_minus [of "w - v"] by simp
    ultimately have "?p \<le> 0" using f32_near_minus [of "c * ?d"] by simp
    with p False assms show ?thesis by simp
  qed
qed

lemma plant_step_ok:
  assumes "plant_ok cfg pl" and "lc_gain cfg = Fin 1" and "f32_gt (lc_tau_s cfg) (Fin 0)"
    and "f32_div (f32_div (f32_of_int (uint dt)) (f32_lit 1000 1)) (lc_tau_s cfg) = Fin c"
    and "0 \<le> c" "c \<le> 1 / 8" and "0 \<le> n" "n \<le> 100"
    and "gov_plant_step pl (Fin (of_int n)) dt = (pl', y)"
  shows "plant_ok cfg pl' \<and> y = pl_y pl'"
proof -
  obtain v where v: "pl_y pl = Fin v" "0 \<le> v" "v \<le> 100"
    using assms(1) by (cases "pl_y pl") (auto simp: plant_ok_def f32_in_def)
  have n: "(0 :: rat) \<le> of_int n" "of_int n \<le> (100 :: rat)" using assms(7,8) by simp_all
  have g: "f32_round (of_int n) = Fin (of_int n)" using f32_of_int_exact [of n] assms(7,8) by (simp add: f32_of_int_def)
  let ?d = "f32_near (of_int n - v)"
  have r: "representable 100" using representable_int [of 100] by simp
  have d: "f32_round (of_int n - v) = Fin ?d" "\<bar>?d\<bar> \<le> 100"
    using f32_round_in [of "of_int n - v" 100, OF _ r] v n by (simp_all add: abs_le_iff)
  have "\<bar>c * ?d\<bar> \<le> 1 * 100" unfolding abs_mult using assms(5,6) d(2) by (intro mult_mono) simp_all
  then have p: "f32_round (c * ?d) = Fin (f32_near (c * ?d))" using f32_round_in [of "c * ?d" 100, OF _ r] by simp
  from near_100 between [OF v(2,3) n assms(5,6)]
  have y: "f32_round (v + f32_near (c * ?d)) = Fin (f32_near (v + f32_near (c * ?d)))"
    "0 \<le> f32_near (v + f32_near (c * ?d))" "f32_near (v + f32_near (c * ?d)) \<le> 100" by blast+
  show ?thesis
    using assms(1-4,9) near_100 [OF y(2,3)]
    by (auto simp: gov_plant_step_def Let_def plant_ok_def v(1) f32_sub_def g d p y f32_in_def)
qed

section \<open>Properties\<close>

lemma diverge_inv_init: "diverge_inv cfg [] (gov_pid_init p cfg)"
  by (simp add: diverge_inv_def gov_pid_init_def gov_pid_reset_def streak_def streak_ms_def)

text \<open>
  C34. From a reset controller, for any setpoints and measurements, NaNs and infinities included,
  and steps too short to wrap the counter past the threshold, the controller reports divergence
  exactly when the steps since the error was last in band add up to at least \<open>diverge_ms\<close>.
\<close>

theorem divergence_exact:
  assumes "\<forall>e \<in> set es. unat (snd (snd e)) + unat (pc_diverge_ms cfg) \<le> 2 ^ 32"
  shows "gov_pid_diverging (fst (run pid_event (gov_pid_init p cfg) es)) \<longleftrightarrow>
    streak cfg es \<noteq> [] \<and> unat (pc_diverge_ms cfg) \<le> streak_ms cfg es"
  using diverge_inv_run [OF diverge_inv_init assms] by (simp add: diverge_inv_def gov_pid_diverging_def)

text \<open>Twenty periods at 200 below the setpoint are reported, nineteen are not.\<close>

definition demo_pid_cfg :: gov_pid_cfg where
  "demo_pid_cfg = \<lparr> pc_kp = Fin 1, pc_ki = Fin 0, pc_kd = Fin 0, pc_out_min = GOV_CTRL_OUT_MIN,
     pc_out_max = GOV_CTRL_OUT_MAX, pc_integ_min = Fin 0, pc_integ_max = Fin 0,
     pc_diverge_limit = GOV_DIVERGE_LIMIT, pc_diverge_ms = GOV_DIVERGE_MS \<rparr>"

lemma demo_out_of_band: "out_of_band demo_pid_cfg (Fin 200, Fin 0, dt)"
  by (simp add: out_of_band_def demo_pid_cfg_def gov_fabsf_def GOV_DIVERGE_LIMIT_def f32_eval)

lemma demo_diverge_ms: "pc_diverge_ms demo_pid_cfg = 200"
  by (simp add: demo_pid_cfg_def GOV_DIVERGE_MS_def)

definition demo_pid :: gov_pid where
  "demo_pid = gov_pid_init \<lparr> pd_cfg = demo_pid_cfg, pd_integ = Fin 0, pd_prev_meas = Fin 0, pd_has_prev = False,
     pd_saturated = False, pd_div_accum_ms = 0, pd_diverging = False \<rparr> demo_pid_cfg"

lemma demo_streak: "streak demo_pid_cfg (replicate n (Fin 200, Fin 0, dt)) = replicate n (Fin 200, Fin 0, dt)"
  by (simp add: streak_def demo_out_of_band)

theorem divergence_exact_witness:
  "gov_pid_diverging (fst (run pid_event (gov_pid_init demo_pid demo_pid_cfg) (replicate 20 (Fin 200, Fin 0, 10)))) \<and>
   \<not> gov_pid_diverging (fst (run pid_event (gov_pid_init demo_pid demo_pid_cfg) (replicate 19 (Fin 200, Fin 0, 10))))"
  using divergence_exact [of "replicate 20 (Fin 200, Fin 0, 10)" demo_pid_cfg demo_pid]
    divergence_exact [of "replicate 19 (Fin 200, Fin 0, 10)" demo_pid_cfg demo_pid]
  by (simp add: demo_streak streak_ms_def sum_list_replicate demo_diverge_ms)

end
