(* ===== verification/Gov_Node.thy ===== *)
theory Gov_Node
  imports Gov_Safety Gov_Telem Gov_Control
begin

text \<open>
  The coordinator of a node, \<^verbatim>\<open>app/node_core.h\<close> and \<^verbatim>\<open>app/node_core.c\<close>: controller, safety state
  machine and plant composed into one step, the edge logic that turns reports of health into
  events of the state machine, and the snapshots for telemetry. A conversion of a \<^verbatim>\<open>float\<close> that
  does not fit its integer is undefined in C; the operations that convert return \<open>None\<close> there.
\<close>

section \<open>Configuration\<close>

definition PID_CFG :: gov_pid_cfg where
  "PID_CFG = \<lparr> pc_kp = f32_lit 35 10, pc_ki = f32_lit 18 1, pc_kd = f32_lit 6 100,
     pc_out_min = GOV_CTRL_OUT_MIN, pc_out_max = GOV_CTRL_OUT_MAX,
     pc_integ_min = f32_neg (f32_lit 100 1), pc_integ_max = f32_lit 100 1,
     pc_diverge_limit = GOV_DIVERGE_LIMIT, pc_diverge_ms = GOV_DIVERGE_MS \<rparr>"

definition PLANT_CFG :: gov_plant_cfg where
  "PLANT_CFG = \<lparr> lc_tau_s = f32_lit 1 10, lc_gain = f32_lit 1 1, lc_y0 = f32_lit 0 1 \<rparr>"

section \<open>The node\<close>

record gov_node =
  n_safety :: gov_safety
  n_pid :: gov_pid
  n_plant :: gov_plant
  n_setpoint :: f32
  n_tick_ms :: u32
  n_seq :: u32
  n_last_output :: f32
  n_last_measurement :: f32
  n_driver_faults :: u32
  n_active_causes :: u32

definition GOV_CAUSE_SENSOR :: u32 where "GOV_CAUSE_SENSOR = push_bit 0 1"
definition GOV_CAUSE_LINK :: u32 where "GOV_CAUSE_LINK = push_bit 1 1"
definition GOV_CAUSE_TIMING :: u32 where "GOV_CAUSE_TIMING = push_bit 2 1"

definition gov_node_init :: "gov_node \<Rightarrow> f32 \<Rightarrow> gov_node" where
  "gov_node_init n setpoint =
     n\<lparr> n_safety := gov_safety_init, n_pid := gov_pid_init (n_pid n) PID_CFG,
        n_plant := gov_plant_init (n_plant n) PLANT_CFG, n_setpoint := setpoint, n_tick_ms := 0, n_seq := 0,
        n_last_output := Fin 0, n_last_measurement := Fin 0, n_driver_faults := 0, n_active_causes := 0 \<rparr>"

definition resync_shadow :: "gov_node \<Rightarrow> gov_node" where
  "resync_shadow n =
     (if gov_safety_state (n_safety n) = GOV_ST_INIT
      then n\<lparr> n_active_causes := 0, n_driver_faults := 0 \<rparr> else n)"

definition safety_call :: "gov_node \<Rightarrow> gov_event \<Rightarrow> u32 \<Rightarrow> gov_node" where
  "safety_call n ev now = n\<lparr> n_safety := gov_safety_step (n_safety n) ev now \<rparr>"

definition note_cause :: "gov_node \<Rightarrow> u32 \<Rightarrow> gov_event \<Rightarrow> bool \<Rightarrow> u32 \<Rightarrow> gov_node" where
  "note_cause n cause fault_ev healthy now =
     (let n1 =
        (if \<not> healthy then
           let rising = (n_active_causes n AND cause = 0);
               other_active = (n_active_causes n AND NOT cause \<noteq> 0);
               n0 = n\<lparr> n_active_causes := n_active_causes n OR cause \<rparr>
           in if rising \<and> other_active then safety_call n0 GOV_EV_SECOND_FAULT now
              else safety_call n0 fault_ev now
         else if n_active_causes n AND cause \<noteq> 0 then
           let n0 = n\<lparr> n_active_causes := n_active_causes n AND NOT cause \<rparr>
           in if n_active_causes n0 = 0 then safety_call n0 GOV_EV_CAUSE_CLEARED now else n0
         else n)
      in resync_shadow n1)"

definition gov_node_note_sensor :: "gov_node \<Rightarrow> u32 \<Rightarrow> bool \<Rightarrow> u32 \<Rightarrow> gov_node" where
  "gov_node_note_sensor n sflags healthy now =
     (let n1 = (if \<not> healthy then n\<lparr> n_driver_faults := n_driver_faults n OR sflags \<rparr>
                else if gov_safety_actuation_allowed (n_safety n)
                then n\<lparr> n_driver_faults := n_driver_faults n AND NOT GOV_FAULT_SENSOR_ANY_DRIVER \<rparr>
                else n)
      in note_cause n1 GOV_CAUSE_SENSOR GOV_EV_SENSOR_FAULT healthy now)"

definition gov_node_note_link :: "gov_node \<Rightarrow> bool \<Rightarrow> u32 \<Rightarrow> gov_node" where
  "gov_node_note_link n healthy now = note_cause n GOV_CAUSE_LINK GOV_EV_LINK_FAULT healthy now"

definition gov_node_note_timing :: "gov_node \<Rightarrow> bool \<Rightarrow> u32 \<Rightarrow> gov_node" where
  "gov_node_note_timing n healthy now = note_cause n GOV_CAUSE_TIMING GOV_EV_DEADLINE_MISS healthy now"

definition gov_node_selftest_ok :: "gov_node \<Rightarrow> u32 \<Rightarrow> gov_node" where
  "gov_node_selftest_ok n now = safety_call n GOV_EV_SELFTEST_OK now"

definition gov_node_control_step :: "gov_node \<Rightarrow> f32 \<Rightarrow> u32 \<Rightarrow> (gov_node \<times> f32) option" where
  "gov_node_control_step n measurement now =
     (let n1 = n\<lparr> n_tick_ms := now, n_last_measurement := measurement \<rparr>;
          (pid', desired) = gov_pid_step (n_pid n1) (n_setpoint n1) measurement GOV_CTRL_PERIOD_MS;
          n2 = n1\<lparr> n_pid := pid' \<rparr>;
          n3 = (if gov_pid_diverging (n_pid n2) then safety_call n2 GOV_EV_DIVERGE now
                else safety_call n2 GOV_EV_TICK now);
          n4 = resync_shadow n3
      in case f32_to_i32 desired of None \<Rightarrow> None
         | Some d \<Rightarrow>
           let applied_i = gov_safety_clamp_output (n_safety n4) d;
               applied = f32_of_int (sint applied_i);
               (plant', y) = gov_plant_step (n_plant n4) applied GOV_CTRL_PERIOD_MS;
               n5 = n4\<lparr> n_plant := plant', n_last_output := applied \<rparr>
           in Some (n5, applied))"

definition gov_node_post_event :: "gov_node \<Rightarrow> gov_event \<Rightarrow> u32 \<Rightarrow> gov_node" where
  "gov_node_post_event n ev now = resync_shadow (safety_call n ev now)"

definition gov_node_faults :: "gov_node \<Rightarrow> u32" where
  "gov_node_faults n = gov_safety_fault_flags (n_safety n) OR n_driver_faults n"

definition gov_node_state :: "gov_node \<Rightarrow> gov_state" where
  "gov_node_state n = gov_safety_state (n_safety n)"

definition gov_node_fill_telemetry :: "gov_node \<Rightarrow> gov_telem_record option" where
  "gov_node_fill_telemetry n =
     (case (f32_to_i32 (n_setpoint n), f32_to_i32 (n_last_measurement n), f32_to_i32 (n_last_output n)) of
        (Some sp, Some m, Some u) \<Rightarrow>
          Some \<lparr> t_tick = n_tick_ms n, t_setpoint = sp, t_measurement = m, t_output = u,
                 t_state = of_nat (gov_state_code (gov_safety_state (n_safety n))),
                 t_fault_flags = gov_safety_fault_flags (n_safety n) OR n_driver_faults n \<rparr>
      | _ \<Rightarrow> None)"

definition gov_node_fill_heartbeat :: "gov_node \<Rightarrow> gov_heartbeat" where
  "gov_node_fill_heartbeat n =
     \<lparr> hb_state = of_nat (gov_state_code (gov_safety_state (n_safety n))),
       hb_fault_flags = gov_safety_fault_flags (n_safety n) OR n_driver_faults n,
       hb_uptime_count = n_tick_ms n \<rparr>"

subsection \<open>Null pointers\<close>

definition gov_node_init_ptr :: "gov_node ptr \<Rightarrow> f32 \<Rightarrow> gov_node ptr" where
  "gov_node_init_ptr p setpoint = map_option (\<lambda>n. gov_node_init n setpoint) p"

definition gov_node_note_sensor_ptr :: "gov_node ptr \<Rightarrow> u32 \<Rightarrow> bool \<Rightarrow> u32 \<Rightarrow> gov_node ptr" where
  "gov_node_note_sensor_ptr p sflags healthy now = map_option (\<lambda>n. gov_node_note_sensor n sflags healthy now) p"

definition gov_node_note_link_ptr :: "gov_node ptr \<Rightarrow> bool \<Rightarrow> u32 \<Rightarrow> gov_node ptr" where
  "gov_node_note_link_ptr p healthy now = map_option (\<lambda>n. gov_node_note_link n healthy now) p"

definition gov_node_note_timing_ptr :: "gov_node ptr \<Rightarrow> bool \<Rightarrow> u32 \<Rightarrow> gov_node ptr" where
  "gov_node_note_timing_ptr p healthy now = map_option (\<lambda>n. gov_node_note_timing n healthy now) p"

definition gov_node_selftest_ok_ptr :: "gov_node ptr \<Rightarrow> u32 \<Rightarrow> gov_node ptr" where
  "gov_node_selftest_ok_ptr p now = map_option (\<lambda>n. gov_node_selftest_ok n now) p"

definition gov_node_control_step_ptr :: "gov_node ptr \<Rightarrow> f32 \<Rightarrow> u32 \<Rightarrow> (gov_node ptr \<times> f32) option" where
  "gov_node_control_step_ptr p measurement now =
     (case p of None \<Rightarrow> Some (None, f32_of_int (sint GOV_SAFE_OUTPUT))
      | Some n \<Rightarrow> map_option (\<lambda>(n', u). (Some n', u)) (gov_node_control_step n measurement now))"

definition gov_node_post_event_ptr :: "gov_node ptr \<Rightarrow> gov_event \<Rightarrow> u32 \<Rightarrow> gov_node ptr" where
  "gov_node_post_event_ptr p ev now = map_option (\<lambda>n. gov_node_post_event n ev now) p"

definition gov_node_state_ptr :: "gov_node ptr \<Rightarrow> gov_state" where
  "gov_node_state_ptr p = read_ptr GOV_ST_FAULT_HALT gov_node_state p"

definition gov_node_faults_ptr :: "gov_node ptr \<Rightarrow> u32" where
  "gov_node_faults_ptr p = read_ptr GOV_FAULT_INTERNAL gov_node_faults p"

text \<open>With a null pointer on either side the record is left as it was.\<close>

definition gov_node_fill_telemetry_ptr ::
  "gov_node ptr \<Rightarrow> gov_telem_record ptr \<Rightarrow> gov_telem_record ptr option" where
  "gov_node_fill_telemetry_ptr p rec =
     (case (p, rec) of (Some n, Some r) \<Rightarrow> map_option Some (gov_node_fill_telemetry n) | _ \<Rightarrow> Some rec)"

definition gov_node_fill_heartbeat_ptr :: "gov_node ptr \<Rightarrow> gov_heartbeat ptr \<Rightarrow> gov_heartbeat ptr" where
  "gov_node_fill_heartbeat_ptr p hb =
     (case (p, hb) of (Some n, Some h) \<Rightarrow> Some (gov_node_fill_heartbeat n) | _ \<Rightarrow> hb)"

section \<open>Calls and the invariant\<close>

text \<open>The calls the application makes, each with its time stamp; the control step also returns its output.\<close>

datatype node_call = NoteSensor u32 bool | NoteLink bool | NoteTiming bool | SelftestOk
  | ControlStep f32 | PostEvent gov_event

fun node_step :: "gov_node \<Rightarrow> node_call \<Rightarrow> u32 \<Rightarrow> (gov_node \<times> f32 list) option" where
  "node_step n (NoteSensor sf h) now = Some (gov_node_note_sensor n sf h now, [])"
| "node_step n (NoteLink h) now = Some (gov_node_note_link n h now, [])"
| "node_step n (NoteTiming h) now = Some (gov_node_note_timing n h now, [])"
| "node_step n SelftestOk now = Some (gov_node_selftest_ok n now, [])"
| "node_step n (ControlStep m) now = map_option (\<lambda>(n', u). (n', [u])) (gov_node_control_step n m now)"
| "node_step n (PostEvent ev) now = Some (gov_node_post_event n ev now, [])"

definition node_calls :: "gov_node \<Rightarrow> (node_call \<times> u32) list \<Rightarrow> (gov_node \<times> f32 list) option" where
  "node_calls = run_opt (\<lambda>n (c, now). node_step n c now)"

text \<open>
  What the application passes: the driver's flags, measurements in the range of 32-bit integers,
  and events other than the one the coordinator posts itself.
\<close>

fun call_ok :: "node_call \<Rightarrow> bool" where
  "call_ok (NoteSensor sf h) = bits_in sf GOV_FAULT_SENSOR_ANY_DRIVER"
| "call_ok (ControlStep m) = mag m 31"
| "call_ok (PostEvent ev) = (ev \<noteq> GOV_EV_CAUSE_CLEARED)"
| "call_ok c = True"

definition causes_all :: u32 where
  "causes_all = GOV_CAUSE_SENSOR OR GOV_CAUSE_LINK OR GOV_CAUSE_TIMING"

text \<open>
  The shadow of the faults agrees with the state machine: nothing is active in INIT and RUN, nor
  while the dwell before recovery runs, and the driver's bits outlive the sensor cause only in
  the latched states.
\<close>

definition shadow_ok :: "gov_node \<Rightarrow> bool" where
  "shadow_ok n \<longleftrightarrow>
     (s_state (n_safety n) = GOV_ST_INIT \<or> s_state (n_safety n) = GOV_ST_RUN \<longrightarrow>
        n_active_causes n = 0 \<and> n_driver_faults n = 0) \<and>
     (s_state (n_safety n) = GOV_ST_DEGRADED \<and> s_cause_clear_ms (n_safety n) \<noteq> 0 \<longrightarrow> n_active_causes n = 0) \<and>
     (s_state (n_safety n) = GOV_ST_DEGRADED \<and> n_active_causes n AND GOV_CAUSE_SENSOR = 0 \<longrightarrow> n_driver_faults n = 0) \<and>
     bits_in (n_active_causes n) causes_all \<and> bits_in (n_driver_faults n) GOV_FAULT_SENSOR_ANY_DRIVER"

definition node_inv :: "gov_node \<Rightarrow> bool" where
  "node_inv n \<longleftrightarrow>
     safety_inv (n_safety n) \<and> shadow_ok n \<and>
     pid_ok PID_CFG (- 100) 100 (n_pid n) \<and> plant_ok PLANT_CFG (n_plant n) \<and>
     mag (n_setpoint n) 31 \<and> mag (n_last_measurement n) 31 \<and>
     (\<exists>k. 0 \<le> k \<and> k \<le> 100 \<and> n_last_output n = Fin (of_int k))"

section \<open>The state machine under the coordinator\<close>

definition fault_event :: "gov_event \<Rightarrow> bool" where
  "fault_event ev \<longleftrightarrow> ev = GOV_EV_SENSOR_FAULT \<or> ev = GOV_EV_LINK_FAULT \<or> ev = GOV_EV_DEADLINE_MISS"

lemma step_to_run:
  assumes "s_state (gov_safety_step s ev now) = GOV_ST_RUN" and "timers_ok s"
  shows "\<not> fault_event ev \<and> (s_state s = GOV_ST_RUN \<or> s_state s = GOV_ST_INIT \<or>
    s_state s = GOV_ST_DEGRADED \<and> ev \<noteq> GOV_EV_SECOND_FAULT \<and> (s_cause_clear_ms s \<noteq> 0 \<or> ev = GOV_EV_CAUSE_CLEARED))"
  using assms
  by (cases "s_state s"; cases ev) (auto simp: dispatch_defs Let_def fault_event_def timers_ok_def split: if_splits)

lemma step_to_degraded:
  assumes "s_state (gov_safety_step s ev now) = GOV_ST_DEGRADED"
  shows "ev \<noteq> GOV_EV_SECOND_FAULT \<and> (s_state s = GOV_ST_DEGRADED \<or> s_state s = GOV_ST_RUN \<and> fault_event ev)"
  using assms by (cases "s_state s"; cases ev) (auto simp: dispatch_defs Let_def fault_event_def split: if_splits)

lemma step_in_dwell:
  assumes "s_state (gov_safety_step s ev now) = GOV_ST_DEGRADED"
    and "s_cause_clear_ms (gov_safety_step s ev now) \<noteq> 0" and "timers_ok s"
  shows "s_state s = GOV_ST_DEGRADED \<and> \<not> fault_event ev \<and> (s_cause_clear_ms s \<noteq> 0 \<or> ev = GOV_EV_CAUSE_CLEARED)"
  using assms
  by (cases "s_state s"; cases ev) (auto simp: dispatch_defs Let_def fault_event_def timers_ok_def split: if_splits)

lemma step_second_fault:
  assumes "s_state s = GOV_ST_DEGRADED" and "s_now_ms s \<le> now"
  shows "s_state (gov_safety_step s GOV_EV_SECOND_FAULT now) = GOV_ST_SAFE_STOP"
    and "bits_in GOV_FAULT_ESCALATED (s_faults (gov_safety_step s GOV_EV_SECOND_FAULT now))"
  using assms by (auto simp: dispatch_defs Let_def bits_in_iff bit_or_iff)

lemma step_first_fault:
  assumes "s_state s = GOV_ST_RUN" and "s_now_ms s \<le> now" and "fault_event ev" and "timers_ok s"
  shows "s_state (gov_safety_step s ev now) = GOV_ST_DEGRADED"
  using assms by (auto simp: fault_event_def dispatch_defs Let_def timers_ok_def GOV_DEGRADE_MAX_MS_def)

section \<open>The shadow agrees with the state machine\<close>

lemma safety_call_simps [simp]:
  "n_safety (safety_call n ev now) = gov_safety_step (n_safety n) ev now"
  "n_active_causes (safety_call n ev now) = n_active_causes n"
  "n_driver_faults (safety_call n ev now) = n_driver_faults n"
  by (simp_all add: safety_call_def)

lemma resync_shadow_simps [simp]:
  "n_safety (resync_shadow n) = n_safety n"
  "n_active_causes (resync_shadow n) = (if s_state (n_safety n) = GOV_ST_INIT then 0 else n_active_causes n)"
  "n_driver_faults (resync_shadow n) = (if s_state (n_safety n) = GOV_ST_INIT then 0 else n_driver_faults n)"
  by (simp_all add: resync_shadow_def gov_safety_state_def)

lemma bits_in_0 [simp]: "bits_in 0 m"
  by (simp add: bits_in_def)

lemma shadow_call:
  assumes "timers_ok (n_safety n)"
    and "s_state (n_safety n) = GOV_ST_INIT \<or> s_state (n_safety n) = GOV_ST_RUN \<Longrightarrow> \<not> fault_event ev \<Longrightarrow>
      n_active_causes n = 0 \<and> n_driver_faults n = 0"
    and "s_state (n_safety n) = GOV_ST_DEGRADED \<Longrightarrow> \<not> fault_event ev \<Longrightarrow>
      s_cause_clear_ms (n_safety n) \<noteq> 0 \<or> ev = GOV_EV_CAUSE_CLEARED \<Longrightarrow> n_active_causes n = 0"
    and "s_state (n_safety n) = GOV_ST_DEGRADED \<or> s_state (n_safety n) = GOV_ST_RUN \<Longrightarrow> ev \<noteq> GOV_EV_SECOND_FAULT \<Longrightarrow>
      n_active_causes n AND GOV_CAUSE_SENSOR = 0 \<Longrightarrow> n_driver_faults n = 0"
    and "bits_in (n_active_causes n) causes_all" and "bits_in (n_driver_faults n) GOV_FAULT_SENSOR_ANY_DRIVER"
  shows "shadow_ok (resync_shadow (safety_call n ev now))"
proof (cases "s_state (gov_safety_step (n_safety n) ev now)")
  case GOV_ST_RUN
  with step_to_run [OF this assms(1)] assms(2-4) have "n_active_causes n = 0" by auto
  moreover from step_to_run [OF GOV_ST_RUN assms(1)] assms(2-4) have "n_driver_faults n = 0" by auto
  ultimately show ?thesis using GOV_ST_RUN by (simp add: shadow_ok_def)
next
  case GOV_ST_DEGRADED
  with step_to_degraded [OF this] step_in_dwell [OF this _ assms(1)] assms(3-6) show ?thesis
    by (auto simp: shadow_ok_def)
qed (use assms(5,6) in \<open>simp_all add: shadow_ok_def\<close>)

text \<open>A source is one bit of the mask.\<close>

lemma and_cause: "(x :: u32) AND push_bit k 1 = 0 \<longleftrightarrow> \<not> bit x k"
  by (metis bit_iff_and_push_bit_not_eq_0)

lemma bit_cause: "k < 32 \<Longrightarrow> bit (push_bit k 1 :: u32) j \<longleftrightarrow> j = k"
  by (auto simp: bit_simps)

lemma cause_ops:
  fixes x :: u32
  assumes "k < 32"
  shows "bit (x OR push_bit k 1) j \<longleftrightarrow> bit x j \<or> j = k"
    and "bit (x AND NOT (push_bit k 1)) j \<longleftrightarrow> bit x j \<and> j \<noteq> k"
  using assms by (auto simp: bit_simps dest: bit_imp_le_length)

lemma causes_bits: "GOV_CAUSE_SENSOR = push_bit 0 1" "GOV_CAUSE_LINK = push_bit 1 1" "GOV_CAUSE_TIMING = push_bit 2 1"
  by (simp_all add: GOV_CAUSE_SENSOR_def GOV_CAUSE_LINK_def GOV_CAUSE_TIMING_def)

lemma bits_in_causes: "bits_in x causes_all \<longleftrightarrow> (\<forall>j. bit x j \<longrightarrow> j < 3)"
proof -
  have b: "bit (push_bit 0 1 :: u32) j \<longleftrightarrow> j = 0" "bit (push_bit 1 1 :: u32) j \<longleftrightarrow> j = 1"
    "bit (push_bit 2 1 :: u32) j \<longleftrightarrow> j = 2" for j
    by (rule bit_cause, simp)+
  have "bit causes_all j \<longleftrightarrow> j < 3" for j
    unfolding causes_all_def causes_bits bit_or_iff b by auto
  then show ?thesis by (simp add: bits_in_iff)
qed

lemma no_sensor_cause: "x AND GOV_CAUSE_SENSOR = 0 \<longleftrightarrow> \<not> bit x 0"
  unfolding causes_bits by (rule and_cause)

lemma note_fault_shadow:
  assumes m: "shadow_ok m" and t: "timers_ok (n_safety m)" and n: "n = m\<lparr> n_driver_faults := d \<rparr>"
    and d: "bits_in d GOV_FAULT_SENSOR_ANY_DRIVER" "k \<noteq> 0 \<Longrightarrow> d = n_driver_faults m"
    and k: "k < 3" and ev: "fault_event ev"
  shows "shadow_ok (note_cause n (push_bit k 1) ev False now)"
proof -
  let ?n0 = "n\<lparr> n_active_causes := n_active_causes n OR push_bit k 1 \<rparr>"
  have k32: "k < 32" using k by simp
  have a: "bits_in (n_active_causes ?n0) causes_all"
    using m k cause_ops(1) [OF k32, of "n_active_causes m"] by (auto simp: n shadow_ok_def bits_in_causes)
  have first: "shadow_ok (resync_shadow (safety_call ?n0 ev now))"
  proof (rule shadow_call)
    show "n_driver_faults ?n0 = 0"
      if "s_state (n_safety ?n0) = GOV_ST_DEGRADED \<or> s_state (n_safety ?n0) = GOV_ST_RUN"
        "n_active_causes ?n0 AND GOV_CAUSE_SENSOR = 0"
    proof -
      have "\<not> bit (n_active_causes m) 0" "k \<noteq> 0"
        using that(2) cause_ops(1) [OF k32, of "n_active_causes m" 0] by (auto simp: n no_sensor_cause)
      with that(1) m d(2) show ?thesis by (auto simp: n shadow_ok_def no_sensor_cause)
    qed
  qed (use t ev a d in \<open>auto simp: n fault_event_def\<close>)
  have second: "shadow_ok (resync_shadow (safety_call ?n0 GOV_EV_SECOND_FAULT now))"
    if "n_active_causes n AND NOT (push_bit k 1) \<noteq> 0"
  proof (rule shadow_call)
    have "n_active_causes m \<noteq> 0" using that by (auto simp: n)
    then show "n_active_causes ?n0 = 0 \<and> n_driver_faults ?n0 = 0"
      if "s_state (n_safety ?n0) = GOV_ST_INIT \<or> s_state (n_safety ?n0) = GOV_ST_RUN"
      using that m by (auto simp: n shadow_ok_def)
    show "n_active_causes ?n0 = 0"
      if "s_state (n_safety ?n0) = GOV_ST_DEGRADED"
        "s_cause_clear_ms (n_safety ?n0) \<noteq> 0 \<or> GOV_EV_SECOND_FAULT = GOV_EV_CAUSE_CLEARED"
      using that m \<open>n_active_causes m \<noteq> 0\<close> by (auto simp: n shadow_ok_def)
  qed (use t a d in \<open>auto simp: n\<close>)
  show ?thesis using first second by (simp add: note_cause_def Let_def)
qed

lemma note_healthy_shadow:
  assumes m: "shadow_ok m" and t: "timers_ok (n_safety m)" and n: "n = m\<lparr> n_driver_faults := d \<rparr>"
    and d: "d = n_driver_faults m \<or> d = 0"
    and k0: "k = 0 \<Longrightarrow> s_state (n_safety m) = GOV_ST_DEGRADED \<Longrightarrow> d = 0" and k: "k < 3"
  shows "shadow_ok (note_cause n (push_bit k 1) ev True now)"
proof -
  let ?n0 = "n\<lparr> n_active_causes := n_active_causes n AND NOT (push_bit k 1) \<rparr>"
  have k32: "k < 32" using k by simp
  have a: "bits_in (n_active_causes ?n0) causes_all" and db: "bits_in d GOV_FAULT_SENSOR_ANY_DRIVER"
    using m d cause_ops(2) [OF k32, of "n_active_causes m"] by (auto simp: n shadow_ok_def bits_in_causes)
  have c: "n_driver_faults ?n0 = 0"
    if "s_state (n_safety ?n0) = GOV_ST_DEGRADED" "n_active_causes ?n0 AND GOV_CAUSE_SENSOR = 0"
  proof (cases "k = 0")
    case True
    with that k0 show ?thesis by (simp add: n)
  next
    case False
    with that(2) cause_ops(2) [OF k32, of "n_active_causes m" 0] have "\<not> bit (n_active_causes m) 0"
      by (auto simp: n no_sensor_cause)
    with that(1) m d show ?thesis by (auto simp: n shadow_ok_def no_sensor_cause)
  qed
  have idle: "shadow_ok n"
    using m d k0 c db by (auto simp: n shadow_ok_def)
  show ?thesis
  proof (cases "n_active_causes n AND push_bit k 1 = 0")
    case True
    have "shadow_ok (resync_shadow n)" using idle by (auto simp: shadow_ok_def)
    with True show ?thesis by (simp add: note_cause_def)
  next
    case False
    then have act: "n_active_causes m \<noteq> 0" by (auto simp: n)
    then have st: "s_state (n_safety m) \<noteq> GOV_ST_INIT" "s_state (n_safety m) \<noteq> GOV_ST_RUN"
      "s_state (n_safety m) = GOV_ST_DEGRADED \<Longrightarrow> s_cause_clear_ms (n_safety m) = 0"
      using m by (auto simp: shadow_ok_def)
    have rest: "shadow_ok (resync_shadow ?n0)"
      using st c a db by (auto simp: shadow_ok_def n)
    have last: "shadow_ok (resync_shadow (safety_call ?n0 GOV_EV_CAUSE_CLEARED now))" if "n_active_causes ?n0 = 0"
      using st c a db t that by (intro shadow_call) (auto simp: n)
    show ?thesis using False rest last by (simp add: note_cause_def Let_def)
  qed
qed

lemma post_shadow:
  assumes "shadow_ok n" and "timers_ok (n_safety n)" and "ev \<noteq> GOV_EV_CAUSE_CLEARED"
  shows "shadow_ok (resync_shadow (safety_call n ev now))"
  using assms by (intro shadow_call) (auto simp: shadow_ok_def)

section \<open>The control step\<close>

lemma pid_cfg_values: "pid_cfg_ok PID_CFG 0 100 (- 100) 100"
proof -
  have k: "f32_lit 35 10 = Fin (7 / 2)" "f32_lit 18 1 = Fin 18" "f32_lit 6 100 = Fin (16106127 / 268435456)"
    "f32_lit 100 1 = Fin 100" "f32_lit 0 1 = Fin 0"
    by (simp_all add: f32_eval)
  show ?thesis
    by (simp add: pid_cfg_ok_def PID_CFG_def GOV_CTRL_OUT_MIN_def GOV_CTRL_OUT_MAX_def k mag_Fin)
qed

lemma plant_cfg_values:
  "lc_gain PLANT_CFG = Fin 1" "f32_gt (lc_tau_s PLANT_CFG) (Fin 0)" "lc_y0 PLANT_CFG = Fin 0"
  "\<exists>c. f32_div (f32_div (f32_of_int (uint GOV_CTRL_PERIOD_MS)) (f32_lit 1000 1)) (lc_tau_s PLANT_CFG) = Fin c \<and>
    0 \<le> c \<and> c \<le> 1 / 8"
proof -
  have k: "f32_lit 1 1 = Fin 1" "f32_lit 0 1 = Fin 0" by (simp_all add: f32_eval)
  show "lc_gain PLANT_CFG = Fin 1" "f32_gt (lc_tau_s PLANT_CFG) (Fin 0)" "lc_y0 PLANT_CFG = Fin 0"
    by (simp_all add: PLANT_CFG_def k f32_0_1)
  show "\<exists>c. f32_div (f32_div (f32_of_int (uint GOV_CTRL_PERIOD_MS)) (f32_lit 1000 1)) (lc_tau_s PLANT_CFG) = Fin c \<and>
      0 \<le> c \<and> c \<le> 1 / 8"
    unfolding dt10_eq
    by (intro exI [of _ "3355443 / 33554432"]) (simp add: PLANT_CFG_def f32_0_1 dt10_def f32_eval)
qed

lemma to_i32_percent:
  assumes "f32_in x 0 100"
  shows "\<exists>t. f32_to_i32 x = Some (word_of_int t) \<and> 0 \<le> t \<and> t \<le> 100"
proof (cases x)
  case (Fin v)
  with assms trunc_bounds [of 0 v 100] have "0 \<le> trunc v \<and> trunc v \<le> 100" by (simp add: f32_in_def)
  then show ?thesis by (auto simp: Fin)
qed (use assms in \<open>auto simp: f32_in_def\<close>)

text \<open>What the state lets through of a command between 0 and 100.\<close>

definition let_through :: "gov_state \<Rightarrow> int \<Rightarrow> int" where
  "let_through st t = (case st of GOV_ST_RUN \<Rightarrow> t | GOV_ST_DEGRADED \<Rightarrow> t div 2 | _ \<Rightarrow> 0)"

lemma clamp_percent:
  assumes "0 \<le> t" "t \<le> 100"
  shows "sint (gov_safety_clamp_output s (word_of_int t)) = let_through (s_state s) t"
proof -
  have t: "sint (word_of_int t :: i32) = t" using assms by (intro sint_of_small) auto
  show ?thesis
  proof (cases "s_state s = GOV_ST_DEGRADED")
    case True
    with assms t show ?thesis
      by (cases "t = 0") (simp_all add: clamp_degraded let_through_def signed_divide_int_def)
  next
    case False
    then show ?thesis using t
      by (cases "s_state s") (simp_all add: gov_safety_clamp_output_def safety_consts let_through_def)
  qed
qed

lemma let_through_bounds: "0 \<le> t \<Longrightarrow> t \<le> 100 \<Longrightarrow> 0 \<le> let_through st t \<and> let_through st t \<le> 100"
  by (cases st) (auto simp: let_through_def)

lemma control_step_ok:
  assumes inv: "node_inv n" and m: "mag m 31"
  shows "\<exists>n' t. gov_node_control_step n m now = Some (n', Fin (of_int (let_through (gov_node_state n') t))) \<and>
    0 \<le> t \<and> t \<le> 100 \<and> node_inv n' \<and> n_tick_ms n' = now \<and> n_last_measurement n' = m \<and> n_setpoint n' = n_setpoint n \<and>
    n_last_output n' = Fin (of_int (let_through (gov_node_state n') t)) \<and>
    n_safety n' = gov_safety_step (n_safety n)
      (if gov_pid_diverging (n_pid n') then GOV_EV_DIVERGE else GOV_EV_TICK) now"
proof -
  obtain pid' desired where p: "gov_pid_step (n_pid n) (n_setpoint n) m GOV_CTRL_PERIOD_MS = (pid', desired)"
    by fastforce
  have pid: "pid_ok PID_CFG (- 100) 100 pid'" and des: "f32_in desired 0 100"
    using pid_step_bounded [OF _ m pid_cfg_values _ p] inv by (auto simp: node_inv_def)
  obtain t where t: "f32_to_i32 desired = Some (word_of_int t)" "0 \<le> t" "t \<le> 100"
    using to_i32_percent [OF des] by blast
  define ev where "ev = (if gov_pid_diverging pid' then GOV_EV_DIVERGE else GOV_EV_TICK)"
  define n4 where "n4 = resync_shadow (safety_call (n\<lparr> n_tick_ms := now, n_last_measurement := m, n_pid := pid' \<rparr>) ev now)"
  have st: "n_safety n4 = gov_safety_step (n_safety n) ev now" "n_plant n4 = n_plant n"
    "n_pid n4 = pid'" "n_setpoint n4 = n_setpoint n" "n_tick_ms n4 = now" "n_last_measurement n4 = m"
    by (simp_all add: n4_def safety_call_def resync_shadow_def)
  let ?k = "let_through (s_state (n_safety n4)) t"
  have k: "0 \<le> ?k" "?k \<le> 100" using let_through_bounds [OF t(2,3)] by auto
  have u: "f32_of_int (sint (gov_safety_clamp_output (n_safety n4) (word_of_int t))) = Fin (of_int ?k)"
    unfolding clamp_percent [OF t(2,3)] using k by (intro f32_of_int_exact) simp
  obtain plant' y where pl: "gov_plant_step (n_plant n) (Fin (of_int ?k)) GOV_CTRL_PERIOD_MS = (plant', y)"
    by fastforce
  have plant: "plant_ok PLANT_CFG plant'"
    using plant_step_ok [OF _ plant_cfg_values(1,2) _ _ _ k pl] plant_cfg_values(4) inv by (auto simp: node_inv_def)
  let ?n' = "n4\<lparr> n_plant := plant', n_last_output := Fin (of_int ?k) \<rparr>"
  have "gov_node_control_step n m now =
      (let u = f32_of_int (sint (gov_safety_clamp_output (n_safety n4) (word_of_int t)));
           (plant', y) = gov_plant_step (n_plant n4) u GOV_CTRL_PERIOD_MS
       in Some (n4\<lparr> n_plant := plant', n_last_output := u \<rparr>, u))"
    unfolding n4_def ev_def
    by (simp add: gov_node_control_step_def p t(1) Let_def del: resync_shadow_simps safety_call_simps split: if_split)
  then have step: "gov_node_control_step n m now = Some (?n', Fin (of_int ?k))"
    by (simp add: u st(2) pl Let_def)
  have "shadow_ok n4"
    unfolding n4_def using inv
    by (intro post_shadow) (auto simp: node_inv_def shadow_ok_def safety_inv_def ev_def)
  then have "shadow_ok ?n'" by (simp add: shadow_ok_def)
  then have "node_inv ?n'"
    using inv m pid plant k by (auto simp: node_inv_def st safety_inv_step intro!: exI [of _ ?k])
  then show ?thesis using step t(2,3)
    by (intro exI [of _ ?n'] exI [of _ t]) (simp add: gov_node_state_def gov_safety_state_def st p ev_def)
qed

section \<open>Every call keeps the invariant\<close>

lemma note_cause_keeps [simp]:
  "n_pid (note_cause n c ev h now) = n_pid n" "n_plant (note_cause n c ev h now) = n_plant n"
  "n_setpoint (note_cause n c ev h now) = n_setpoint n"
  "n_last_measurement (note_cause n c ev h now) = n_last_measurement n"
  "n_last_output (note_cause n c ev h now) = n_last_output n"
  by (simp_all add: note_cause_def resync_shadow_def safety_call_def Let_def)

lemma note_cause_safety:
  "safety_inv (n_safety n) \<Longrightarrow> safety_inv (n_safety (note_cause n c ev h now))"
  by (simp add: note_cause_def Let_def safety_inv_step)

lemma note_sensor_keeps:
  "safety_inv (n_safety n) \<Longrightarrow> safety_inv (n_safety (gov_node_note_sensor n sf h now))"
  "n_pid (gov_node_note_sensor n sf h now) = n_pid n" "n_plant (gov_node_note_sensor n sf h now) = n_plant n"
  "n_setpoint (gov_node_note_sensor n sf h now) = n_setpoint n"
  "n_last_measurement (gov_node_note_sensor n sf h now) = n_last_measurement n"
  "n_last_output (gov_node_note_sensor n sf h now) = n_last_output n"
  by (simp_all add: gov_node_note_sensor_def Let_def note_cause_safety)

lemma post_event_keeps:
  "n_pid (gov_node_post_event n ev now) = n_pid n" "n_plant (gov_node_post_event n ev now) = n_plant n"
  "n_setpoint (gov_node_post_event n ev now) = n_setpoint n"
  "n_last_measurement (gov_node_post_event n ev now) = n_last_measurement n"
  "n_last_output (gov_node_post_event n ev now) = n_last_output n"
  by (simp_all add: gov_node_post_event_def resync_shadow_def safety_call_def)

lemma driver_cleared: "bits_in x GOV_FAULT_SENSOR_ANY_DRIVER \<Longrightarrow> x AND NOT GOV_FAULT_SENSOR_ANY_DRIVER = 0"
  by (simp add: bits_in_def)

lemma note_sensor_shadow:
  assumes "shadow_ok n" and "timers_ok (n_safety n)" and "bits_in sf GOV_FAULT_SENSOR_ANY_DRIVER"
  shows "shadow_ok (gov_node_note_sensor n sf h now)"
proof -
  have drv: "bits_in (n_driver_faults n) GOV_FAULT_SENSOR_ANY_DRIVER" using assms(1) by (simp add: shadow_ok_def)
  have same: "n = n\<lparr> n_driver_faults := n_driver_faults n \<rparr>" by simp
  note fault = note_fault_shadow [OF assms(1,2) refl _ _ _, of "n_driver_faults n OR sf" 0 GOV_EV_SENSOR_FAULT now]
  note clear = note_healthy_shadow [OF assms(1,2) refl _ _ _, of 0 0 GOV_EV_SENSOR_FAULT now]
  note keep = note_healthy_shadow [OF assms(1,2) same _ _ _, of 0 GOV_EV_SENSOR_FAULT now]
  show ?thesis
    using fault clear keep drv assms(3) driver_cleared [OF drv]
    by (auto simp: gov_node_note_sensor_def causes_bits Let_def fault_event_def bits_in_OR_left
        gov_safety_actuation_allowed_def)
qed

lemma note_other_shadow:
  assumes "shadow_ok n" and "timers_ok (n_safety n)"
  shows "shadow_ok (gov_node_note_link n h now)" and "shadow_ok (gov_node_note_timing n h now)"
proof -
  have same: "n = n\<lparr> n_driver_faults := n_driver_faults n \<rparr>" by simp
  have drv: "bits_in (n_driver_faults n) GOV_FAULT_SENSOR_ANY_DRIVER" using assms(1) by (simp add: shadow_ok_def)
  have "shadow_ok (note_cause n (push_bit k 1) ev h now)" if "fault_event ev" "k < 3" "k \<noteq> 0" for k ev
    using note_fault_shadow [OF assms same drv _ that(2,1)] note_healthy_shadow [OF assms same _ _ that(2)] that
    by (cases h) auto
  from this [of GOV_EV_LINK_FAULT 1] this [of GOV_EV_DEADLINE_MISS 2]
  show "shadow_ok (gov_node_note_link n h now)" "shadow_ok (gov_node_note_timing n h now)"
    by (simp_all add: gov_node_note_link_def gov_node_note_timing_def causes_bits fault_event_def)
qed

lemma selftest_shadow:
  assumes "shadow_ok n" and "timers_ok (n_safety n)"
  shows "shadow_ok (gov_node_selftest_ok n now)"
proof -
  let ?n = "safety_call n GOV_EV_SELFTEST_OK now"
  have "s_state (n_safety ?n) = GOV_ST_INIT \<Longrightarrow> s_state (n_safety n) = GOV_ST_INIT"
    by (cases "s_state (n_safety n)") (auto simp: dispatch_defs Let_def split: if_splits)
  with assms have "s_state (n_safety ?n) = GOV_ST_INIT \<Longrightarrow> resync_shadow ?n = ?n"
    by (simp add: resync_shadow_def shadow_ok_def safety_call_def gov_safety_state_def)
  then have "resync_shadow ?n = ?n" by (cases "s_state (n_safety ?n) = GOV_ST_INIT")
    (simp_all add: resync_shadow_def gov_safety_state_def)
  with post_shadow [OF assms, of GOV_EV_SELFTEST_OK now] show ?thesis by (simp add: gov_node_selftest_ok_def)
qed

lemma node_inv_frame:
  assumes "node_inv n" and "safety_inv (n_safety n')" and "shadow_ok n'"
    and "n_pid n' = n_pid n" "n_plant n' = n_plant n" "n_setpoint n' = n_setpoint n"
    "n_last_measurement n' = n_last_measurement n" "n_last_output n' = n_last_output n"
  shows "node_inv n'"
  using assms by (simp add: node_inv_def)

lemma node_step_inv:
  assumes "node_inv n" and "call_ok c"
  shows "\<exists>n' us. node_step n c now = Some (n', us) \<and> node_inv n' \<and>
    (\<forall>u \<in> set us. \<exists>k. u = Fin (of_int k) \<and> 0 \<le> k \<and> k \<le> 100)"
proof -
  have sh: "shadow_ok n" "timers_ok (n_safety n)" and s: "safety_inv (n_safety n)"
    using assms(1) by (auto simp: node_inv_def safety_inv_def)
  show ?thesis
  proof (cases c)
    case (NoteSensor sf h)
    then have "shadow_ok (gov_node_note_sensor n sf h now)" using note_sensor_shadow [OF sh] assms(2) by simp
    with NoteSensor show ?thesis
      using node_inv_frame [OF assms(1) note_sensor_keeps(1) [OF s] _ note_sensor_keeps(2-6)] by simp
  next
    case (ControlStep m)
    then obtain n' t where "gov_node_control_step n m now = Some (n', Fin (of_int (let_through (gov_node_state n') t)))"
      "0 \<le> t" "t \<le> 100" "node_inv n'"
      using control_step_ok [OF assms(1), of m now] assms(2) by auto
    with ControlStep let_through_bounds show ?thesis by auto
  next
    case SelftestOk
    with selftest_shadow [OF sh] safety_inv_step [OF s] show ?thesis
      by (auto intro!: node_inv_frame [OF assms(1)] simp: gov_node_selftest_ok_def safety_call_def)
  next
    case (PostEvent ev)
    then have "shadow_ok (gov_node_post_event n ev now)"
      using post_shadow [OF sh] assms(2) by (simp add: gov_node_post_event_def)
    moreover have "safety_inv (n_safety (gov_node_post_event n ev now))"
      using safety_inv_step [OF s] by (simp add: gov_node_post_event_def)
    ultimately show ?thesis using PostEvent node_inv_frame [OF assms(1) _ _ post_event_keeps] by simp
  qed (use note_other_shadow [OF sh] note_cause_safety s in
      \<open>auto intro!: node_inv_frame [OF assms(1)] simp: gov_node_note_link_def gov_node_note_timing_def\<close>)
qed

text \<open>A whole number from 0 to 100.\<close>

definition percent :: "f32 \<Rightarrow> bool" where
  "percent u \<longleftrightarrow> (\<exists>k. u = Fin (of_int k) \<and> 0 \<le> k \<and> k \<le> 100)"

interpretation node: partial_machine "\<lambda>n (c, now). node_step n c now" "\<lambda>c. call_ok (fst c)" node_inv percent
proof
  fix n and e :: "node_call \<times> u32"
  assume "node_inv n" "call_ok (fst e)"
  then show "\<exists>n' out. (case e of (c, now) \<Rightarrow> node_step n c now) = Some (n', out) \<and> node_inv n' \<and> (\<forall>x \<in> set out. percent x)"
    using node_step_inv [of n "fst e" "snd e"] by (simp add: case_prod_beta percent_def)
qed

lemma node_inv_init:
  assumes "mag sp 31"
  shows "node_inv (gov_node_init n sp)"
proof -
  have "0 \<le> (0 :: int)" by simp
  moreover have "safety_inv gov_safety_init" by (simp add: gov_safety_init_def safety_inv_init_sticky)
  ultimately show ?thesis
    using assms plant_cfg_values(3)
    by (auto simp: node_inv_def gov_node_init_def shadow_ok_def pid_ok_def plant_ok_def gov_pid_init_def
        gov_pid_reset_def gov_plant_init_def gov_plant_reset_def f32_in_def mag_Fin intro!: exI [of _ "0 :: int"])
qed

section \<open>Reports of ill health\<close>

fun cause_of :: "node_call \<Rightarrow> u32" where
  "cause_of (NoteSensor sf h) = GOV_CAUSE_SENSOR"
| "cause_of (NoteLink h) = GOV_CAUSE_LINK"
| "cause_of (NoteTiming h) = GOV_CAUSE_TIMING"
| "cause_of c = 0"

fun unhealthy :: "node_call \<Rightarrow> bool" where
  "unhealthy (NoteSensor sf h) = (\<not> h)"
| "unhealthy (NoteLink h) = (\<not> h)"
| "unhealthy (NoteTiming h) = (\<not> h)"
| "unhealthy c = False"

text \<open>The flag of the state machine that stands for a source.\<close>

fun cause_flag :: "node_call \<Rightarrow> u32" where
  "cause_flag (NoteSensor sf h) = GOV_FAULT_SENSOR_ACTIVE"
| "cause_flag (NoteLink h) = GOV_FAULT_LINK"
| "cause_flag (NoteTiming h) = GOV_FAULT_TIMING"
| "cause_flag c = 0"

lemma unhealthy_step:
  assumes "unhealthy c"
  shows "\<exists>d ev. node_step n c now = Some (note_cause (n\<lparr> n_driver_faults := d \<rparr>) (cause_of c) ev False now, []) \<and>
    fault_event ev \<and> report_flag ev = cause_flag c"
proof (cases c)
  case (NoteSensor sf h)
  with assms show ?thesis
    by (intro exI [of _ "n_driver_faults n OR sf"] exI [of _ GOV_EV_SENSOR_FAULT])
      (simp add: gov_node_note_sensor_def fault_event_def report_flag_def)
next
  case (NoteLink h)
  with assms show ?thesis
    by (intro exI [of _ "n_driver_faults n"] exI [of _ GOV_EV_LINK_FAULT]) (simp add: gov_node_note_link_def fault_event_def report_flag_def)
next
  case (NoteTiming h)
  with assms show ?thesis
    by (intro exI [of _ "n_driver_faults n"] exI [of _ GOV_EV_DEADLINE_MISS])
      (simp add: gov_node_note_timing_def fault_event_def report_flag_def)
qed (use assms in auto)

lemma and_split: "(x :: u32) = (x AND c) OR (x AND NOT c)"
  by (auto simp: bit_eq_iff bit_simps)

lemma step_first_flag:
  assumes "s_state s = GOV_ST_RUN" and "s_now_ms s \<le> now" and "fault_event ev" and "timers_ok s"
  shows "bits_in (report_flag ev) (s_faults (gov_safety_step s ev now))"
proof -
  have "s_cause_clear_ms s = 0" using assms(1,4) by (auto simp: timers_ok_def)
  then show ?thesis
    using assms(1-3)
    by (auto simp: fault_event_def report_flag_def dispatch_defs Let_def bits_in_OR_right)
qed

lemma step_again:
  assumes "s_state s = GOV_ST_DEGRADED" and "s_now_ms s \<le> now" and "fault_event ev"
  shows "s_cause_clear_ms (gov_safety_step s ev now) = 0 \<and>
    bits_in (report_flag ev) (s_faults (gov_safety_step s ev now)) \<and>
    s_state (gov_safety_step s ev now) =
      (if now - s_state_since_ms s < GOV_DEGRADE_MAX_MS then GOV_ST_DEGRADED else GOV_ST_SAFE_STOP)"
  by (rule fault_again_degraded [OF assms(1,2)]) (use assms(3) in \<open>auto simp: fault_event_def\<close>)

text \<open>Outside RUN and DEGRADED a report of a fault changes nothing in the state machine but its counter.\<close>

lemma step_report_counted:
  assumes "s_now_ms s \<le> now" and "fault_event ev \<or> ev = GOV_EV_SECOND_FAULT"
    and "s_state s = GOV_ST_INIT \<and> now - s_init_start_ms s < GOV_INIT_TIMEOUT_MS \<or>
      s_state s = GOV_ST_SAFE_STOP \<or> s_state s = GOV_ST_FAULT_HALT"
  shows "gov_safety_step s ev now = s\<lparr>s_now_ms := now, s_rejected_events := s_rejected_events s + 1\<rparr>"
proof -
  have "\<not> now < s_now_ms s" using assms(1) by simp
  then show ?thesis
    using assms(2,3) by (auto simp: fault_event_def dispatch_defs Let_def reject_def)
qed

text \<open>The report, as it reaches the state machine from each state.\<close>

lemmas node_view = gov_node_state_def gov_safety_state_def gov_node_faults_def gov_safety_fault_flags_def

lemma report_in_run:
  assumes "node_inv n" and "s_now_ms (n_safety n) \<le> now" and "fault_event ev" and "gov_node_state n = GOV_ST_RUN"
    and n': "n' = note_cause (n\<lparr> n_driver_faults := d \<rparr>) cause ev False now"
  shows "gov_node_state n' = GOV_ST_DEGRADED \<and> n_active_causes n' = cause \<and>
    bits_in (report_flag ev) (gov_node_faults n')"
proof -
  have t: "timers_ok (n_safety n)" and sh: "n_active_causes n = 0" and st: "s_state (n_safety n) = GOV_ST_RUN"
    using assms(1,4) by (auto simp: node_inv_def safety_inv_def shadow_ok_def node_view)
  show ?thesis
    using step_first_fault [OF st assms(2,3) t] step_first_flag [OF st assms(2,3) t]
    by (simp add: n' note_cause_def Let_def node_view sh bits_in_OR_right)
qed

lemma report_second:
  assumes "s_now_ms (n_safety n) \<le> now" and "gov_node_state n = GOV_ST_DEGRADED"
    and "n_active_causes n AND cause = 0" and "n_active_causes n \<noteq> 0"
    and n': "n' = note_cause (n\<lparr> n_driver_faults := d \<rparr>) cause ev False now"
  shows "gov_node_state n' = GOV_ST_SAFE_STOP \<and> bits_in GOV_FAULT_ESCALATED (gov_node_faults n')"
proof -
  have "n_active_causes n AND NOT cause \<noteq> 0"
    using assms(3,4) and_split [of "n_active_causes n" cause] by auto
  moreover have "s_state (n_safety n) = GOV_ST_DEGRADED" using assms(2) by (simp add: node_view)
  ultimately show ?thesis
    using step_second_fault [of "n_safety n", OF _ assms(1)] assms(3)
    by (simp add: n' note_cause_def Let_def node_view bits_in_OR_right)
qed

lemma report_again:
  assumes "s_now_ms (n_safety n) \<le> now" and "fault_event ev" and "gov_node_state n = GOV_ST_DEGRADED"
    and "n_active_causes n AND cause \<noteq> 0 \<or> n_active_causes n = 0"
    and n': "n' = note_cause (n\<lparr> n_driver_faults := d \<rparr>) cause ev False now"
  shows "s_cause_clear_ms (n_safety n') = 0 \<and> n_active_causes n' = n_active_causes n OR cause \<and>
    bits_in (report_flag ev) (gov_node_faults n') \<and>
    gov_node_state n' = (if now - s_state_since_ms (n_safety n) < GOV_DEGRADE_MAX_MS
                         then GOV_ST_DEGRADED else GOV_ST_SAFE_STOP)"
proof -
  have e: "n' = resync_shadow (safety_call
      (n\<lparr> n_driver_faults := d, n_active_causes := n_active_causes n OR cause \<rparr>) ev now)"
    using assms(4) by (auto simp: n' note_cause_def Let_def)
  have "s_state (n_safety n) = GOV_ST_DEGRADED" using assms(3) by (simp add: node_view)
  from step_again [OF this assms(1,2)] show ?thesis
    by (simp add: e node_view bits_in_OR_right)
qed

lemma report_in_init:
  assumes "node_inv n" and "s_now_ms (n_safety n) \<le> now" and "fault_event ev" and "gov_node_state n = GOV_ST_INIT"
    and "now - s_init_start_ms (n_safety n) < GOV_INIT_TIMEOUT_MS"
    and n': "n' = note_cause (n\<lparr> n_driver_faults := d \<rparr>) cause ev False now"
  shows "gov_node_state n' = GOV_ST_INIT \<and> gov_node_faults n' = gov_node_faults n \<and> n_active_causes n' = 0 \<and>
    s_rejected_events (n_safety n') = s_rejected_events (n_safety n) + 1"
proof -
  have sh: "n_active_causes n = 0" "n_driver_faults n = 0" and st: "s_state (n_safety n) = GOV_ST_INIT"
    using assms(1,4) by (auto simp: node_inv_def shadow_ok_def node_view)
  have "gov_safety_step (n_safety n) ev now = (n_safety n)
      \<lparr>s_now_ms := now, s_rejected_events := s_rejected_events (n_safety n) + 1\<rparr>"
    by (rule step_report_counted [OF assms(2)]) (use assms(3,5) st in simp_all)
  then show ?thesis by (simp add: n' note_cause_def Let_def node_view sh st)
qed

lemma report_latched:
  assumes "s_now_ms (n_safety n) \<le> now" and "fault_event ev"
    and "gov_node_state n = GOV_ST_SAFE_STOP \<or> gov_node_state n = GOV_ST_FAULT_HALT"
    and n': "n' = note_cause (n\<lparr> n_driver_faults := d \<rparr>) cause ev False now"
  shows "gov_node_state n' = gov_node_state n \<and> s_faults (n_safety n') = s_faults (n_safety n) \<and>
    s_rejected_events (n_safety n') = s_rejected_events (n_safety n) + 1"
proof -
  define ev' where "ev' = (if n_active_causes n AND cause = 0 \<and> n_active_causes n AND NOT cause \<noteq> 0
    then GOV_EV_SECOND_FAULT else ev)"
  have ev': "fault_event ev' \<or> ev' = GOV_EV_SECOND_FAULT"
    using assms(2) by (simp add: ev'_def)
  have e: "n_safety n' = gov_safety_step (n_safety n) ev' now"
    by (simp add: n' note_cause_def Let_def ev'_def)
  have "gov_safety_step (n_safety n) ev' now = (n_safety n)
      \<lparr>s_now_ms := now, s_rejected_events := s_rejected_events (n_safety n) + 1\<rparr>"
    by (rule step_report_counted [OF assms(1) ev']) (use assms(3) in \<open>simp add: node_view\<close>)
  then show ?thesis by (simp add: e node_view)
qed

section \<open>Properties\<close>

text \<open>
  From an initialised node, with any setpoint in the range of 32-bit integers, after any
  sequence of calls at any time stamps: no conversion was undefined, every output is a whole
  number from 0 to 100, and the invariant holds: the invariant of the safety state machine, the
  integrator within its limits and the plant within 0 to 100, and a shadow of the faults that
  agrees with the state machine (nothing is recorded in INIT and RUN, or while the dwell before
  recovery runs).
\<close>

theorem node_reachable_invariant:
  assumes "mag sp 31" and "\<forall>c \<in> set cs. call_ok (fst c)"
  shows "\<exists>n' us. node_calls (gov_node_init n sp) cs = Some (n', us) \<and> node_inv n' \<and> (\<forall>u \<in> set us. percent u)"
  unfolding node_calls_def by (rule node.run_defined [OF node_inv_init [OF assms(1)] assms(2)])

definition demo_node :: gov_node where
  "demo_node = \<lparr> n_safety = gov_safety_init, n_pid = demo_pid,
     n_plant = \<lparr> pl_cfg = PLANT_CFG, pl_y = Fin 0, pl_disturbance = Fin 0 \<rparr>, n_setpoint = Fin 0, n_tick_ms = 0,
     n_seq = 0, n_last_output = Fin 0, n_last_measurement = Fin 0, n_driver_faults = 0, n_active_causes = 0 \<rparr>"

definition demo_calls :: "(node_call \<times> u32) list" where
  "demo_calls = [(SelftestOk, 5), (ControlStep (Fin 20), 10), (NoteSensor GOV_FAULT_BUS_NAK False, 12),
     (ControlStep (Fin 20), 20), (NoteLink False, 21), (ControlStep (Fin 30), 30)]"

lemma demo_calls_ok: "\<forall>c \<in> set demo_calls. call_ok (fst c)"
proof -
  have "bits_in GOV_FAULT_BUS_NAK GOV_FAULT_SENSOR_ANY_DRIVER" by (simp add: bits_in_def fault_values)
  then show ?thesis by (simp add: demo_calls_def mag_Fin)
qed

theorem node_reachable_invariant_witness:
  "mag (Fin 50) 31 \<and> (\<exists>n' us. node_calls (gov_node_init demo_node (Fin 50)) demo_calls = Some (n', us) \<and> node_inv n' \<and>
    (\<forall>u \<in> set us. percent u))"
  using node_reachable_invariant [OF _ demo_calls_ok, of "Fin 50" demo_node] by (simp add: mag_Fin)


text \<open>The node right after its self-test.\<close>

definition demo_run :: gov_node where
  "demo_run = gov_node_selftest_ok (gov_node_init demo_node (Fin 50)) 5"

lemma demo_run_state: "gov_node_state demo_run = GOV_ST_RUN" "s_now_ms (n_safety demo_run) = 5"
  by (simp_all add: demo_run_def gov_node_selftest_ok_def gov_node_init_def gov_node_state_def gov_safety_state_def
      gov_safety_init_def gov_safety_init_sticky_def dispatch_defs Let_def)

lemma demo_run_inv: "node_inv demo_run"
  using node_step_inv [OF node_inv_init, of "Fin 50" SelftestOk demo_node 5]
  by (simp add: demo_run_def mag_Fin)

text \<open>The same node after a link fault that has healed: degraded, the dwell before recovery running.\<close>

definition demo_dwell :: gov_node where
  "demo_dwell = gov_node_note_link (gov_node_note_link demo_run False 12) True 20"

lemma demo_dwell_inv: "node_inv demo_dwell"
proof -
  have "node_inv (gov_node_note_link demo_run False 12)"
    using node_step_inv [OF demo_run_inv, of "NoteLink False" 12] by simp
  from node_step_inv [OF this, of "NoteLink True" 20] show ?thesis by (simp add: demo_dwell_def)
qed

lemma demo_dwell_state:
  "gov_node_state demo_dwell = GOV_ST_DEGRADED" "n_active_causes demo_dwell = 0"
  "s_cause_clear_ms (n_safety demo_dwell) = 20" "s_now_ms (n_safety demo_dwell) = 20"
  "s_state_since_ms (n_safety demo_dwell) = 12"
  by (simp_all add: demo_dwell_def demo_run_def gov_node_selftest_ok_def gov_node_init_def gov_node_state_def
      gov_safety_state_def gov_safety_init_def gov_safety_init_sticky_def gov_node_note_link_def note_cause_def
      GOV_CAUSE_LINK_def resync_shadow_def safety_call_def dispatch_defs Let_def safety_consts)


definition output_limit :: "gov_state \<Rightarrow> int" where
  "output_limit st = (case st of GOV_ST_RUN \<Rightarrow> 100 | GOV_ST_DEGRADED \<Rightarrow> 50 | _ \<Rightarrow> 0)"

lemma step_diverge: "\<not> (s_state (gov_safety_step s GOV_EV_DIVERGE now) = GOV_ST_RUN \<or>
    s_state (gov_safety_step s GOV_EV_DIVERGE now) = GOV_ST_DEGRADED)"
  by (cases "s_state s") (auto simp: dispatch_defs Let_def)

text \<open>
  C10. A control step of a node that keeps the invariant, with a measurement in the range of
  32-bit integers, is defined and outputs a whole number that the state after the step permits:
  at most 100 in RUN, at most 50 in DEGRADED, exactly 0 in every other state and whenever the
  controller reports divergence. The output is what drives the plant, which stays within 0
  to 100.
\<close>

theorem control_step_authority:
  assumes "node_inv n" and "mag m 31"
  shows "\<exists>n' k. gov_node_control_step n m now = Some (n', Fin (of_int k)) \<and>
    0 \<le> k \<and> k \<le> output_limit (gov_node_state n') \<and>
    (gov_pid_diverging (n_pid n') \<longrightarrow> k = 0) \<and> n_last_output n' = Fin (of_int k) \<and>
    f32_in (gov_plant_output (n_plant n')) 0 100 \<and> node_inv n'"
proof -
  obtain n' t where n': "gov_node_control_step n m now = Some (n', Fin (of_int (let_through (gov_node_state n') t)))"
    "0 \<le> t" "t \<le> 100" "node_inv n'" "n_last_output n' = Fin (of_int (let_through (gov_node_state n') t))"
    "n_safety n' = gov_safety_step (n_safety n) (if gov_pid_diverging (n_pid n') then GOV_EV_DIVERGE else GOV_EV_TICK) now"
    using control_step_ok [OF assms, of now] by blast
  let ?k = "let_through (gov_node_state n') t"
  have "0 \<le> ?k" "?k \<le> output_limit (gov_node_state n')"
    using n'(2,3) by (cases "gov_node_state n'"; simp add: let_through_def output_limit_def)+
  moreover have "?k = 0" if "gov_pid_diverging (n_pid n')"
    using that n'(6) step_diverge [of "n_safety n" now]
    by (cases "gov_node_state n'") (auto simp: let_through_def gov_node_state_def gov_safety_state_def)
  moreover have "f32_in (gov_plant_output (n_plant n')) 0 100"
    using n'(4) by (simp add: node_inv_def plant_ok_def gov_plant_output_def)
  ultimately show ?thesis using n'(1,4,5) by blast
qed

theorem control_step_authority_witness:
  "\<exists>n' k. gov_node_control_step demo_run (Fin 20) 10 = Some (n', Fin (of_int k)) \<and>
    0 \<le> k \<and> k \<le> output_limit (gov_node_state n') \<and> f32_in (gov_plant_output (n_plant n')) 0 100"
  using control_step_authority [OF demo_run_inv, of "Fin 20" 10] by (auto simp: mag_Fin)

definition below_2_31 :: "f32 \<Rightarrow> bool" where
  "below_2_31 x \<longleftrightarrow> (case x of Fin v \<Rightarrow> \<bar>v\<bar> < 2 ^ 31 | _ \<Rightarrow> False)"

lemma to_i32_below:
  assumes "below_2_31 x"
  shows "\<exists>v w. x = Fin v \<and> f32_to_i32 x = Some w \<and> sint w = trunc v"
proof -
  obtain v where v: "x = Fin v" "\<bar>v\<bar> < 2 ^ 31" using assms by (cases x) (auto simp: below_2_31_def)
  then have "v < of_int (2 ^ 31)" "of_int (- (2 ^ 31)) < v" by (auto simp: abs_less_iff)
  then have "\<lfloor>v\<rfloor> < 2 ^ 31" "- (2 ^ 31) < \<lceil>v\<rceil>" "0 \<le> v \<Longrightarrow> 0 \<le> \<lfloor>v\<rfloor>" "v < 0 \<Longrightarrow> \<lceil>v\<rceil> \<le> 0"
    unfolding floor_less_iff less_ceiling_iff by simp_all
  then have "- (2 ^ 31) \<le> trunc v" "trunc v < 2 ^ 31" by (auto simp: trunc_def)
  then show ?thesis using v(1) by (intro exI [of _ v] exI [of _ "word_of_int (trunc v)"]) (simp add: sint_of_small)
qed

text \<open>
  C35. The telemetry snapshot of a node that keeps the invariant, with a setpoint and a last
  measurement below \<open>2\<^sup>3\<^sup>1\<close>, is defined: the state byte is one of the five codes, the flags are
  defined flags and are what \<^verbatim>\<open>gov_node_faults\<close> reports, the output is between 0 and 100 and equal
  to the last output, the setpoint and measurement are the truncated values, and in RUN no
  driver flag is reported.
\<close>

theorem telemetry_well_formed:
  assumes "node_inv n" and "below_2_31 (n_setpoint n)" and "below_2_31 (n_last_measurement n)"
  shows "\<exists>rec sp m k. gov_node_fill_telemetry n = Some rec \<and>
    unat (t_state rec) = gov_state_code (gov_node_state n) \<and> unat (t_state rec) < 5 \<and>
    t_fault_flags rec = gov_node_faults n \<and> bits_in (t_fault_flags rec) GOV_FAULT_ALL \<and>
    n_setpoint n = Fin sp \<and> sint (t_setpoint rec) = trunc sp \<and>
    n_last_measurement n = Fin m \<and> sint (t_measurement rec) = trunc m \<and>
    n_last_output n = Fin (of_int k) \<and> sint (t_output rec) = k \<and> 0 \<le> k \<and> k \<le> 100 \<and>
    t_tick rec = n_tick_ms n \<and>
    (gov_node_state n = GOV_ST_RUN \<longrightarrow> \<not> raised GOV_FAULT_SENSOR_ANY_DRIVER (n_driver_faults n))"
proof -
  obtain sp w1 where sp: "n_setpoint n = Fin sp" "f32_to_i32 (n_setpoint n) = Some w1" "sint w1 = trunc sp"
    using to_i32_below [OF assms(2)] by blast
  obtain m w2 where m: "n_last_measurement n = Fin m" "f32_to_i32 (n_last_measurement n) = Some w2" "sint w2 = trunc m"
    using to_i32_below [OF assms(3)] by blast
  obtain k where k: "0 \<le> k" "k \<le> 100" "n_last_output n = Fin (of_int k)" using assms(1) by (auto simp: node_inv_def)
  then have "\<bar>of_int k :: rat\<bar> < 2 ^ 31" by simp
  then obtain w3 where w3: "f32_to_i32 (n_last_output n) = Some w3" "sint w3 = k"
    using to_i32_below [of "n_last_output n"] k(3) by (auto simp: below_2_31_def)
  have st: "gov_state_code (gov_node_state n) < 5"
    using assms(1) by (cases "s_state (n_safety n)")
      (auto simp: node_inv_def safety_inv_def gov_node_state_def gov_safety_state_def gov_state_code_def)
  have "bits_in GOV_FAULT_SENSOR_ANY_DRIVER GOV_FAULT_ALL" by (simp add: bits_in_def fault_values)
  then have "bits_in (gov_node_faults n) GOV_FAULT_ALL"
    using assms(1) bits_in_trans unfolding gov_node_faults_def gov_safety_fault_flags_def bits_in_OR_left
    by (auto simp: node_inv_def safety_inv_def flags_ok_def shadow_ok_def)
  moreover have "gov_node_state n = GOV_ST_RUN \<longrightarrow> \<not> raised GOV_FAULT_SENSOR_ANY_DRIVER (n_driver_faults n)"
    using assms(1) by (auto simp: node_inv_def shadow_ok_def gov_node_state_def gov_safety_state_def raised_def)
  ultimately show ?thesis
    using sp m k w3 st
    by (auto simp: gov_node_fill_telemetry_def gov_node_faults_def gov_node_state_def unat_of_nat)
qed

theorem telemetry_well_formed_witness:
  "\<exists>rec. gov_node_fill_telemetry demo_run = Some rec \<and> unat (t_state rec) = 1 \<and> sint (t_setpoint rec) = 50"
proof -
  have "n_setpoint demo_run = Fin 50" "n_last_measurement demo_run = Fin 0"
    by (simp_all add: demo_run_def gov_node_selftest_ok_def gov_node_init_def safety_call_def)
  then show ?thesis
    using telemetry_well_formed [OF demo_run_inv] demo_run_state(1)
    by (auto simp: below_2_31_def gov_state_code_def trunc_def)
qed

end
