(* ===== verification/Gov_Runtime.thy ===== *)
theory Gov_Runtime
  imports Gov_Node
begin

text \<open>
  The node over time, \<^verbatim>\<open>app/node_core.c\<close>: what sequences of calls with their time stamps do to a node
  that runs. Without a fault it keeps running; a fault that heals leads back to full authority
  after the dwell; a fault that persists ends in a latched stop within the bound on degraded
  operation, whatever else is reported.
\<close>

section \<open>Calls without a fault\<close>

definition in_band :: "f32 \<Rightarrow> f32 \<Rightarrow> bool" where
  "in_band sp m \<longleftrightarrow> \<not> f32_gt (gov_fabsf (f32_sub sp m)) (pc_diverge_limit PID_CFG)"

text \<open>Reports of good health, control steps with the error in band, and events that RUN rejects.\<close>

fun quiet :: "f32 \<Rightarrow> node_call \<Rightarrow> bool" where
  "quiet sp (NoteSensor sf h) = h"
| "quiet sp (NoteLink h) = h"
| "quiet sp (NoteTiming h) = h"
| "quiet sp SelftestOk = True"
| "quiet sp (ControlStep m) = in_band sp m"
| "quiet sp (PostEvent ev) = (ev = GOV_EV_OPERATOR_CLEAR)"

lemma in_band_step:
  assumes "in_band sp m" and "pd_cfg p = PID_CFG"
  shows "\<not> gov_pid_diverging (fst (gov_pid_step p sp m dt))"
  using assms by (auto simp: gov_pid_step_def pid_divergence_def in_band_def gov_pid_diverging_def Let_def)

text \<open>An event that neither starts nor clears a fault.\<close>

definition idle_event :: "gov_event \<Rightarrow> bool" where
  "idle_event ev \<longleftrightarrow> ev = GOV_EV_TICK \<or> ev = GOV_EV_SELFTEST_OK \<or> ev = GOV_EV_OPERATOR_CLEAR"

lemma idle_run:
  assumes "s_state s = GOV_ST_RUN" and "s_now_ms s \<le> now" and "idle_event ev"
  shows "s_state (gov_safety_step s ev now) = GOV_ST_RUN" "s_faults (gov_safety_step s ev now) = s_faults s"
    "s_now_ms (gov_safety_step s ev now) = now"
  using assms by (auto simp: idle_event_def dispatch_defs Let_def reject_def)

lemma idle_degraded:
  assumes "s_state s = GOV_ST_DEGRADED" and "s_now_ms s \<le> now" and "idle_event ev" and "s_cause_clear_ms s \<noteq> 0"
    and "now - s_state_since_ms s < GOV_DEGRADE_MAX_MS"
  shows "now - s_cause_clear_ms s < GOV_RECOVER_MS \<Longrightarrow>
      s_state (gov_safety_step s ev now) = GOV_ST_DEGRADED \<and>
      s_cause_clear_ms (gov_safety_step s ev now) = s_cause_clear_ms s \<and>
      s_state_since_ms (gov_safety_step s ev now) = s_state_since_ms s \<and> s_now_ms (gov_safety_step s ev now) = now"
    and "\<not> now - s_cause_clear_ms s < GOV_RECOVER_MS \<Longrightarrow>
      s_state (gov_safety_step s ev now) = GOV_ST_RUN \<and>
      s_faults (gov_safety_step s ev now) = s_faults s AND (GOV_FAULT_WATCHDOG OR s_sticky s) \<and>
      s_now_ms (gov_safety_step s ev now) = now"
  using assms by (auto simp: idle_event_def dispatch_defs Let_def reject_def not_le not_less enter_def)

lemma setpoint_kept [simp]:
  "n_setpoint (resync_shadow n) = n_setpoint n" "n_setpoint (safety_call n ev now) = n_setpoint n"
  by (simp_all add: resync_shadow_def safety_call_def)

lemma control_fields:
  assumes "gov_node_control_step n m now = Some (n', u)"
  shows "n_pid n' = fst (gov_pid_step (n_pid n) (n_setpoint n) m GOV_CTRL_PERIOD_MS)"
    and "n_active_causes n' = 0 \<or> n_active_causes n' = n_active_causes n"
    and "n_driver_faults n' = 0 \<or> n_driver_faults n' = n_driver_faults n"
    and "gov_node_state n' \<noteq> GOV_ST_INIT \<Longrightarrow> n_active_causes n' = n_active_causes n"
  using assms
  by (auto simp: gov_node_control_step_def Let_def case_prod_beta resync_shadow_def safety_call_def gov_node_state_def
      split: option.splits if_splits)

text \<open>A quiet call is at most one idle event for the state machine, when no cause is recorded.\<close>

lemma quiet_step:
  assumes "node_inv n" and "call_ok c" and "quiet (n_setpoint n) c" and "n_active_causes n = 0" and "n_driver_faults n = 0"
  shows "\<exists>n' us. node_step n c now = Some (n', us) \<and> node_inv n' \<and> n_setpoint n' = n_setpoint n \<and>
    n_active_causes n' = 0 \<and> n_driver_faults n' = 0 \<and>
    (n_safety n' = n_safety n \<or> (\<exists>ev. idle_event ev \<and> n_safety n' = gov_safety_step (n_safety n) ev now))"
proof (cases c)
  case (ControlStep m)
  then have "mag m 31" using assms(2) by simp
  from control_step_ok [OF assms(1) this, of now] obtain n' k where n':
    "gov_node_control_step n m now = Some (n', Fin (of_int (let_through (gov_node_state n') k)))"
    "node_inv n'" "n_setpoint n' = n_setpoint n"
    "n_safety n' = gov_safety_step (n_safety n) (if gov_pid_diverging (n_pid n') then GOV_EV_DIVERGE else GOV_EV_TICK) now"
    by blast
  have p: "n_pid n' = fst (gov_pid_step (n_pid n) (n_setpoint n) m GOV_CTRL_PERIOD_MS)"
    "n_active_causes n' = 0" "n_driver_faults n' = 0"
    using control_fields [OF n'(1)] assms(4,5) by auto
  have "pd_cfg (n_pid n) = PID_CFG" using assms(1) by (simp add: node_inv_def pid_ok_def)
  with p(1) in_band_step [of "n_setpoint n" m "n_pid n"] assms(3) ControlStep
  have "\<not> gov_pid_diverging (n_pid n')" by simp
  with n' p(2,3) ControlStep show ?thesis by (auto simp: idle_event_def)
qed (use assms node_step_inv [OF assms(1,2), of now] in
    \<open>auto simp: gov_node_note_sensor_def gov_node_note_link_def gov_node_note_timing_def note_cause_def Let_def
      gov_node_selftest_ok_def gov_node_post_event_def idle_event_def\<close>)

section \<open>Invariants over time\<close>

text \<open>
  A property of nodes that every admitted call at a current time stamp keeps. It holds after every
  sequence of admitted calls whose stamps do not decrease.
\<close>

locale timed_invariant =
  fixes J :: "gov_node \<Rightarrow> bool" and admitted :: "node_call \<Rightarrow> u32 \<Rightarrow> bool"
  assumes keep: "J n \<Longrightarrow> admitted c now \<Longrightarrow> s_now_ms (n_safety n) \<le> now \<Longrightarrow>
    \<exists>n' us. node_step n c now = Some (n', us) \<and> J n' \<and> s_now_ms (n_safety n') \<le> now"
begin

lemma calls:
  assumes "J n" and "\<forall>e \<in> set cs. admitted (fst e) (snd e)" and "sorted (s_now_ms (n_safety n) # map snd cs)"
  shows "\<exists>n' us. node_calls n cs = Some (n', us) \<and> J n' \<and>
    s_now_ms (n_safety n') \<le> last (s_now_ms (n_safety n) # map snd cs)"
  using assms
proof (induction cs arbitrary: n)
  case Nil
  then show ?case by (simp add: node_calls_def)
next
  case (Cons e cs)
  obtain c now where e: "e = (c, now)" by fastforce
  obtain n1 us1 where 1: "node_step n c now = Some (n1, us1)" "J n1" "s_now_ms (n_safety n1) \<le> now"
    using keep [OF Cons.prems(1), of c now] Cons.prems(2,3) by (auto simp: e)
  have "sorted (s_now_ms (n_safety n1) # map snd cs)" using 1(3) Cons.prems(3) by (auto simp: e)
  then obtain n2 us2 where 2: "node_calls n1 cs = Some (n2, us2)" "J n2"
    "s_now_ms (n_safety n2) \<le> last (s_now_ms (n_safety n1) # map snd cs)"
    using Cons.IH [OF 1(2)] Cons.prems(2) by auto
  then have "s_now_ms (n_safety n2) \<le> last (s_now_ms (n_safety n) # map snd (e # cs))"
    using 1(3) by (cases cs) (auto simp: e)
  with 1(1) 2(1,2) show ?case by (auto simp: node_calls_def e)
qed

end

section \<open>A node without a fault\<close>

definition running :: "f32 \<Rightarrow> u32 \<Rightarrow> gov_node \<Rightarrow> bool" where
  "running sp fl n \<longleftrightarrow>
     node_inv n \<and> n_setpoint n = sp \<and> s_state (n_safety n) = GOV_ST_RUN \<and> s_faults (n_safety n) = fl"

lemma running_shadow: "running sp fl n \<Longrightarrow> n_active_causes n = 0 \<and> n_driver_faults n = 0"
  by (auto simp: running_def node_inv_def shadow_ok_def)

interpretation healthy: timed_invariant "running sp fl" "\<lambda>c now. call_ok c \<and> quiet sp c"
  for sp fl
proof
  fix n c now
  assume r: "running sp fl n" and c: "call_ok c \<and> quiet sp c" and t: "s_now_ms (n_safety n) \<le> now"
  have i: "node_inv n" "n_setpoint n = sp" using r by (simp_all add: running_def)
  obtain n' us where n': "node_step n c now = Some (n', us)" "node_inv n'" "n_setpoint n' = sp"
    "n_safety n' = n_safety n \<or> (\<exists>ev. idle_event ev \<and> n_safety n' = gov_safety_step (n_safety n) ev now)"
    using quiet_step [OF i(1), of c now] running_shadow [OF r] c i(2) by auto
  then show "\<exists>n' us. node_step n c now = Some (n', us) \<and> running sp fl n' \<and> s_now_ms (n_safety n') \<le> now"
    using r t idle_run [of "n_safety n" now] by (auto simp: running_def)
qed

section \<open>A fault that heals\<close>

text \<open>
  The states of a node without a recorded cause after a fault at \<open>t0\<close> that healed at \<open>t1\<close>: the dwell
  runs, or the node runs again and reports at most the watchdog flag.
\<close>

definition recovering :: "f32 \<Rightarrow> u32 \<Rightarrow> u32 \<Rightarrow> gov_node \<Rightarrow> bool" where
  "recovering sp t0 t1 n \<longleftrightarrow>
     node_inv n \<and> n_setpoint n = sp \<and> n_active_causes n = 0 \<and> n_driver_faults n = 0 \<and> t1 \<noteq> 0 \<and>
     (s_state (n_safety n) = GOV_ST_DEGRADED \<and> s_cause_clear_ms (n_safety n) = t1 \<and> s_state_since_ms (n_safety n) = t0 \<or>
      s_state (n_safety n) = GOV_ST_RUN \<and> bits_in (s_faults (n_safety n)) GOV_FAULT_WATCHDOG)"

lemma masked_flags: "safety_inv s \<Longrightarrow> bits_in (x AND (GOV_FAULT_WATCHDOG OR s_sticky s)) GOV_FAULT_WATCHDOG"
  by (auto simp: safety_inv_def flags_ok_def bits_in_iff bit_simps)

lemma recovering_step:
  assumes "recovering sp t0 t1 n" and "idle_event ev" and "s_now_ms (n_safety n) \<le> now"
    and "now - t0 < GOV_DEGRADE_MAX_MS" and "n_safety n' = gov_safety_step (n_safety n) ev now"
    and "node_inv n'" "n_setpoint n' = sp" "n_active_causes n' = 0" "n_driver_faults n' = 0"
  shows "recovering sp t0 t1 n' \<and> s_now_ms (n_safety n') = now \<and>
    (\<not> now - t1 < GOV_RECOVER_MS \<longrightarrow> s_state (n_safety n') = GOV_ST_RUN)"
proof (cases "s_state (n_safety n) = GOV_ST_RUN")
  case True
  then show ?thesis using assms idle_run [OF True assms(3,2)] by (auto simp: recovering_def)
next
  case False
  then have d: "s_state (n_safety n) = GOV_ST_DEGRADED" "s_cause_clear_ms (n_safety n) = t1" "t1 \<noteq> 0"
    "s_state_since_ms (n_safety n) = t0" and s: "safety_inv (n_safety n)"
    using assms(1) by (auto simp: recovering_def node_inv_def)
  show ?thesis
    using idle_degraded [OF d(1) assms(3,2)] assms(4-9) d masked_flags [OF s]
    by (cases "now - t1 < GOV_RECOVER_MS") (auto simp: recovering_def)
qed

interpretation healing: timed_invariant "recovering sp t0 t1"
    "\<lambda>c now. call_ok c \<and> quiet sp c \<and> now - t0 < GOV_DEGRADE_MAX_MS"
  for sp t0 t1
proof
  fix n c now
  assume r: "recovering sp t0 t1 n" and c: "call_ok c \<and> quiet sp c \<and> now - t0 < GOV_DEGRADE_MAX_MS"
    and t: "s_now_ms (n_safety n) \<le> now"
  have i: "node_inv n" "n_setpoint n = sp" "n_active_causes n = 0" "n_driver_faults n = 0"
    using r by (simp_all add: recovering_def)
  obtain n' us where n': "node_step n c now = Some (n', us)" "node_inv n'" "n_setpoint n' = sp" "n_active_causes n' = 0"
    "n_driver_faults n' = 0"
    "n_safety n' = n_safety n \<or> (\<exists>ev. idle_event ev \<and> n_safety n' = gov_safety_step (n_safety n) ev now)"
    using quiet_step [OF i(1), of c now] c i by auto
  then show "\<exists>n' us. node_step n c now = Some (n', us) \<and> recovering sp t0 t1 n' \<and> s_now_ms (n_safety n') \<le> now"
    using r t c recovering_step [OF r _ t, of _ n'] by (fastforce simp: recovering_def)
qed

text \<open>The report of the same source that its fault is gone.\<close>

fun healed :: "node_call \<Rightarrow> node_call" where
  "healed (NoteSensor sf h) = NoteSensor 0 True"
| "healed (NoteLink h) = NoteLink True"
| "healed (NoteTiming h) = NoteTiming True"
| "healed c = c"

lemma first_fault:
  assumes "s_state s = GOV_ST_RUN" and "s_now_ms s \<le> now" and "fault_event ev" and "timers_ok s"
  shows "s_state (gov_safety_step s ev now) = GOV_ST_DEGRADED" "s_cause_clear_ms (gov_safety_step s ev now) = 0"
    "s_state_since_ms (gov_safety_step s ev now) = now" "s_now_ms (gov_safety_step s ev now) = now"
  using assms by (auto simp: fault_event_def dispatch_defs Let_def timers_ok_def GOV_DEGRADE_MAX_MS_def enter_def)

lemma cause_cleared:
  assumes "s_state s = GOV_ST_DEGRADED" and "s_now_ms s \<le> now" and "s_cause_clear_ms s = 0"
    and "now - s_state_since_ms s < GOV_DEGRADE_MAX_MS"
  shows "s_state (gov_safety_step s GOV_EV_CAUSE_CLEARED now) = GOV_ST_DEGRADED"
    "s_cause_clear_ms (gov_safety_step s GOV_EV_CAUSE_CLEARED now) = now"
    "s_state_since_ms (gov_safety_step s GOV_EV_CAUSE_CLEARED now) = s_state_since_ms s"
    "s_now_ms (gov_safety_step s GOV_EV_CAUSE_CLEARED now) = now"
  using assms by (auto simp: dispatch_defs Let_def not_le GOV_RECOVER_MS_def)

text \<open>A node that runs, right after the report of a fault.\<close>

lemma after_fault:
  assumes "node_inv n" and "s_state (n_safety n) = GOV_ST_RUN" and "s_now_ms (n_safety n) \<le> now" and "unhealthy c" and "call_ok c"
  shows "\<exists>n'. node_step n c now = Some (n', []) \<and> node_inv n' \<and> n_setpoint n' = n_setpoint n \<and>
    n_active_causes n' = cause_of c \<and> s_state (n_safety n') = GOV_ST_DEGRADED \<and> s_cause_clear_ms (n_safety n') = 0 \<and>
    s_state_since_ms (n_safety n') = now \<and> s_now_ms (n_safety n') = now \<and>
    (cause_of c \<noteq> GOV_CAUSE_SENSOR \<longrightarrow> n_driver_faults n' = 0)"
proof -
  have t: "timers_ok (n_safety n)" and sh: "n_active_causes n = 0" "n_driver_faults n = 0"
    using assms(1,2) by (auto simp: node_inv_def safety_inv_def shadow_ok_def)
  obtain d ev where e: "node_step n c now = Some (note_cause (n\<lparr> n_driver_faults := d \<rparr>) (cause_of c) ev False now, [])"
    and ev: "fault_event ev"
    using unhealthy_step [OF assms(4)] by blast
  let ?n' = "note_cause (n\<lparr> n_driver_faults := d \<rparr>) (cause_of c) ev False now"
  note f = first_fault [OF assms(2,3) ev t]
  have "node_inv ?n'" using node_step_inv [OF assms(1,5), of now] e by auto
  moreover from this have "cause_of c \<noteq> GOV_CAUSE_SENSOR \<longrightarrow> n_driver_faults ?n' = 0"
    using f(1) sh assms(4)
    by (cases c) (auto simp: node_inv_def shadow_ok_def note_cause_def Let_def causes_bits no_sensor_cause bit_simps)
  ultimately show ?thesis using e f sh by (auto simp: note_cause_def Let_def)
qed

lemma after_healing:
  assumes "node_inv n" and "s_state (n_safety n) = GOV_ST_DEGRADED" and "s_cause_clear_ms (n_safety n) = 0"
    and "n_active_causes n = cause_of c" and "unhealthy c" and "cause_of c \<noteq> GOV_CAUSE_SENSOR \<longrightarrow> n_driver_faults n = 0"
    and "s_now_ms (n_safety n) \<le> now" and "now - s_state_since_ms (n_safety n) < GOV_DEGRADE_MAX_MS" and "now \<noteq> 0"
  shows "\<exists>n'. node_step n (healed c) now = Some (n', []) \<and>
    recovering (n_setpoint n) (s_state_since_ms (n_safety n)) now n' \<and> s_now_ms (n_safety n') = now"
proof -
  have drv: "bits_in (n_driver_faults n) GOV_FAULT_SENSOR_ANY_DRIVER" using assms(1) by (simp add: node_inv_def shadow_ok_def)
  have ok: "call_ok (healed c)" using assms(5) by (cases c) auto
  have nz: "cause_of c \<noteq> 0" using assms(5) by (cases c) (auto simp: GOV_CAUSE_SENSOR_def GOV_CAUSE_LINK_def GOV_CAUSE_TIMING_def)
  note f = cause_cleared [OF assms(2,7,3,8)]
  have same: "n_driver_faults n = 0 \<Longrightarrow> n\<lparr> n_driver_faults := 0 \<rparr> = n" by (cases n) simp
  obtain ev where e: "node_step n (healed c) now =
      Some (note_cause (n\<lparr> n_driver_faults := 0 \<rparr>) (cause_of c) ev True now, [])"
    using assms(2,5,6) drv
    by (cases c) (auto simp: gov_node_note_sensor_def gov_node_note_link_def gov_node_note_timing_def causes_bits
        gov_safety_actuation_allowed_def driver_cleared Let_def bits_in_def same)
  let ?n' = "note_cause (n\<lparr> n_driver_faults := 0 \<rparr>) (cause_of c) ev True now"
  have "node_inv ?n'" using node_step_inv [OF assms(1) ok, of now] e by auto
  then have "recovering (n_setpoint n) (s_state_since_ms (n_safety n)) now ?n' \<and> s_now_ms (n_safety ?n') = now"
    using f assms(4,9) nz by (auto simp: recovering_def note_cause_def Let_def)
  with e show ?thesis by blast
qed

section \<open>A fault that persists\<close>

definition stopped :: "gov_node \<Rightarrow> bool" where
  "stopped n \<longleftrightarrow> gov_node_state n = GOV_ST_SAFE_STOP \<or> gov_node_state n = GOV_ST_FAULT_HALT"

text \<open>The node is stopped, or degraded since \<open>t0\<close> with the source still recorded.\<close>

definition failing :: "u32 \<Rightarrow> u32 \<Rightarrow> gov_node \<Rightarrow> bool" where
  "failing cause t0 n \<longleftrightarrow>
     node_inv n \<and> (stopped n \<or>
       s_state (n_safety n) = GOV_ST_DEGRADED \<and> n_active_causes n AND cause \<noteq> 0 \<and>
       s_cause_clear_ms (n_safety n) = 0 \<and> s_state_since_ms (n_safety n) = t0)"

text \<open>Anything but good news from the source, an operator clear and a watchdog reset.\<close>

definition no_relief :: "u32 \<Rightarrow> node_call \<Rightarrow> bool" where
  "no_relief cause c \<longleftrightarrow>
     call_ok c \<and> (cause_of c = cause \<longrightarrow> unhealthy c) \<and> c \<noteq> PostEvent GOV_EV_OPERATOR_CLEAR \<and>
     c \<noteq> PostEvent GOV_EV_WATCHDOG"

definition harmless_event :: "gov_event \<Rightarrow> bool" where
  "harmless_event ev \<longleftrightarrow> ev \<noteq> GOV_EV_OPERATOR_CLEAR \<and> ev \<noteq> GOV_EV_WATCHDOG \<and> ev \<noteq> GOV_EV_CAUSE_CLEARED"

lemma stopped_step:
  assumes "s_state s = GOV_ST_SAFE_STOP \<or> s_state s = GOV_ST_FAULT_HALT" and "ev \<noteq> GOV_EV_OPERATOR_CLEAR" "ev \<noteq> GOV_EV_WATCHDOG"
  shows "s_state (gov_safety_step s ev now) = GOV_ST_SAFE_STOP \<or> s_state (gov_safety_step s ev now) = GOV_ST_FAULT_HALT"
  using assms by (cases ev) (auto simp: dispatch_defs Let_def)

lemma failing_step:
  assumes "s_state s = GOV_ST_DEGRADED" and "s_cause_clear_ms s = 0" and "harmless_event ev"
  shows "s_state (gov_safety_step s ev now) = GOV_ST_SAFE_STOP \<or> s_state (gov_safety_step s ev now) = GOV_ST_FAULT_HALT \<or>
    s_state (gov_safety_step s ev now) = GOV_ST_DEGRADED \<and> s_cause_clear_ms (gov_safety_step s ev now) = 0 \<and>
    s_state_since_ms (gov_safety_step s ev now) = s_state_since_ms s \<and> now - s_state_since_ms s < GOV_DEGRADE_MAX_MS"
  using assms by (cases ev) (auto simp: harmless_event_def dispatch_defs Let_def not_le)

lemma stopped_iff: "stopped n \<longleftrightarrow> s_state (n_safety n) = GOV_ST_SAFE_STOP \<or> s_state (n_safety n) = GOV_ST_FAULT_HALT"
  by (simp add: stopped_def gov_node_state_def gov_safety_state_def)

text \<open>A report of one source leaves the record of another, and of one that is still ill, as it is.\<close>

lemma note_cause_bit:
  assumes "bit (n_active_causes n) k" and "h \<longrightarrow> j \<noteq> k" and "j < 32" and "fault_event ev"
  shows "n_safety (note_cause n (push_bit j 1) ev h now) = n_safety n \<or>
      (\<exists>e. harmless_event e \<and> n_safety (note_cause n (push_bit j 1) ev h now) = gov_safety_step (n_safety n) e now)"
    and "s_state (n_safety (note_cause n (push_bit j 1) ev h now)) = GOV_ST_INIT \<or>
      bit (n_active_causes (note_cause n (push_bit j 1) ev h now)) k"
proof -
  have ev: "harmless_event ev" "harmless_event GOV_EV_SECOND_FAULT" using assms(4) by (auto simp: harmless_event_def fault_event_def)
  have keep: "bit (n_active_causes n OR push_bit j 1) k" "h \<Longrightarrow> bit (n_active_causes n AND NOT (push_bit j 1)) k"
    using assms(1,2) cause_ops [OF assms(3), of "n_active_causes n" k] by auto
  then have "h \<Longrightarrow> n_active_causes n AND NOT (push_bit j 1) \<noteq> 0" by auto
  then show "n_safety (note_cause n (push_bit j 1) ev h now) = n_safety n \<or>
      (\<exists>e. harmless_event e \<and> n_safety (note_cause n (push_bit j 1) ev h now) = gov_safety_step (n_safety n) e now)"
    using ev by (auto simp: note_cause_def Let_def)
  show "s_state (n_safety (note_cause n (push_bit j 1) ev h now)) = GOV_ST_INIT \<or>
      bit (n_active_causes (note_cause n (push_bit j 1) ev h now)) k"
    using keep assms(1) by (auto simp: note_cause_def Let_def)
qed

lemma note_cause_event:
  "fault_event ev \<Longrightarrow> n_safety (note_cause n d ev h now) = n_safety n \<or>
    (\<exists>e. e \<noteq> GOV_EV_OPERATOR_CLEAR \<and> e \<noteq> GOV_EV_WATCHDOG \<and>
      n_safety (note_cause n d ev h now) = gov_safety_step (n_safety n) e now)"
  by (auto simp: note_cause_def Let_def fault_event_def)

text \<open>Every call is a report, or one event for the state machine.\<close>

lemma call_shape:
  assumes "node_step n c now = Some (n', us)"
  obtains (report) j d ev h where "cause_of c = push_bit j 1" "j < 3" "fault_event ev" "h \<longleftrightarrow> \<not> unhealthy c"
      "n' = note_cause (n\<lparr> n_driver_faults := d \<rparr>) (push_bit j 1) ev h now"
    | (event) ev where "n_safety n' = gov_safety_step (n_safety n) ev now"
      "n_active_causes n' = n_active_causes n \<or> s_state (n_safety n') = GOV_ST_INIT"
      "ev = GOV_EV_TICK \<or> ev = GOV_EV_DIVERGE \<or> ev = GOV_EV_SELFTEST_OK \<or> c = PostEvent ev"
proof (cases c)
  case (NoteSensor sf h)
  define d where "d = (if \<not> h then n_driver_faults n OR sf
    else if gov_safety_actuation_allowed (n_safety n) then n_driver_faults n AND NOT GOV_FAULT_SENSOR_ANY_DRIVER
    else n_driver_faults n)"
  have "n' = note_cause (n\<lparr> n_driver_faults := d \<rparr>) (push_bit 0 1) GOV_EV_SENSOR_FAULT h now"
    using assms NoteSensor unfolding d_def causes_bits [symmetric]
    by (cases h; cases "gov_safety_actuation_allowed (n_safety n)") (simp_all add: gov_node_note_sensor_def)
  then show thesis
    by (rule report [rotated 4]) (simp_all only: NoteSensor cause_of.simps causes_bits unhealthy.simps fault_event_def, simp_all)
next
  case (NoteLink h)
  have "n' = note_cause (n\<lparr> n_driver_faults := n_driver_faults n \<rparr>) (push_bit 1 1) GOV_EV_LINK_FAULT h now"
    using assms NoteLink unfolding causes_bits [symmetric] by (simp add: gov_node_note_link_def)
  then show thesis
    by (rule report [rotated 4]) (simp_all only: NoteLink cause_of.simps causes_bits unhealthy.simps fault_event_def, simp_all)
next
  case (NoteTiming h)
  have "n' = note_cause (n\<lparr> n_driver_faults := n_driver_faults n \<rparr>) (push_bit 2 1) GOV_EV_DEADLINE_MISS h now"
    using assms NoteTiming unfolding causes_bits [symmetric] by (simp add: gov_node_note_timing_def)
  then show thesis
    by (rule report [rotated 4]) (simp_all only: NoteTiming cause_of.simps causes_bits unhealthy.simps fault_event_def, simp_all)
next
  case SelftestOk
  then have n': "n' = safety_call n GOV_EV_SELFTEST_OK now" using assms by (simp add: gov_node_selftest_ok_def)
  show thesis by (rule event [of GOV_EV_SELFTEST_OK]) (simp_all add: n')
next
  case (PostEvent ev)
  then have n': "n' = resync_shadow (safety_call n ev now)" using assms by (simp add: gov_node_post_event_def)
  show thesis by (rule event [of ev]) (simp_all add: n' PostEvent)
next
  case (ControlStep m)
  then obtain u where u: "gov_node_control_step n m now = Some (n', u)" using assms by auto
  let ?ev = "if gov_pid_diverging (n_pid n') then GOV_EV_DIVERGE else GOV_EV_TICK"
  show thesis
  proof (rule event [of ?ev])
    show "n_safety n' = gov_safety_step (n_safety n) ?ev now"
      using u by (auto simp: gov_node_control_step_def Let_def case_prod_beta resync_shadow_def safety_call_def
          split: option.splits if_splits)
    show "n_active_causes n' = n_active_causes n \<or> s_state (n_safety n') = GOV_ST_INIT"
      using control_fields(4) [OF u] by (auto simp: gov_node_state_def gov_safety_state_def)
  qed simp
qed

lemma call_event:
  assumes "node_step n c now = Some (n', us)" and "no_relief cause c"
  shows "n_safety n' = n_safety n \<or> (\<exists>ev. ev \<noteq> GOV_EV_OPERATOR_CLEAR \<and> ev \<noteq> GOV_EV_WATCHDOG \<and>
    n_safety n' = gov_safety_step (n_safety n) ev now)"
  using assms(1)
proof (cases rule: call_shape)
  case (report j d ev h)
  with note_cause_event [OF report(3), of "n\<lparr> n_driver_faults := d \<rparr>" "push_bit j 1" h now] show ?thesis by simp
next
  case (event ev)
  with assms(2) have "ev \<noteq> GOV_EV_OPERATOR_CLEAR \<and> ev \<noteq> GOV_EV_WATCHDOG" by (auto simp: no_relief_def)
  with event(1) show ?thesis by blast
qed

lemma degraded_call:
  assumes "node_step n c now = Some (n', us)" and "no_relief (push_bit k 1) c"
    and "s_state (n_safety n) = GOV_ST_DEGRADED" and "s_cause_clear_ms (n_safety n) = 0" and "bit (n_active_causes n) k"
  shows "n_safety n' = n_safety n \<and> bit (n_active_causes n') k \<and> us = [] \<or> stopped n' \<or>
    s_state (n_safety n') = GOV_ST_DEGRADED \<and> bit (n_active_causes n') k \<and> s_cause_clear_ms (n_safety n') = 0 \<and>
    s_state_since_ms (n_safety n') = s_state_since_ms (n_safety n) \<and>
    now - s_state_since_ms (n_safety n) < GOV_DEGRADE_MAX_MS"
proof -
  have h: "(n_safety n' = n_safety n \<and> us = [] \<or> (\<exists>e. harmless_event e \<and> n_safety n' = gov_safety_step (n_safety n) e now)) \<and>
      (s_state (n_safety n') = GOV_ST_INIT \<or> bit (n_active_causes n') k)"
    using assms(1)
  proof (cases rule: call_shape)
    case (report j d ev h)
    have "h \<longrightarrow> j \<noteq> k" using assms(2) report(1,4) by (auto simp: no_relief_def)
    moreover have "us = []" using assms(1) report(1,2) by (cases c) auto
    ultimately show ?thesis
      using note_cause_bit [of "n\<lparr> n_driver_faults := d \<rparr>" k h j ev now] assms(5) report(2,3,5) by auto
  next
    case (event ev)
    with assms(2) have "harmless_event ev" by (auto simp: no_relief_def harmless_event_def)
    with event(1,2) assms(5) show ?thesis by auto
  qed
  then consider "n_safety n' = n_safety n" "us = []" | e where "harmless_event e" "n_safety n' = gov_safety_step (n_safety n) e now"
    by blast
  then show ?thesis
  proof cases
    case 1
    with h assms(3) show ?thesis by auto
  next
    case (2 e)
    with failing_step [OF assms(3,4) 2(1), of now] h show ?thesis unfolding stopped_iff by auto
  qed
qed

lemma bit_cause_iff: "(x :: u32) AND push_bit k 1 \<noteq> 0 \<longleftrightarrow> bit x k"
  using and_cause by blast

interpretation failing: partial_machine "\<lambda>n (c, now). node_step n c now" "\<lambda>e. no_relief (push_bit k 1) (fst e)"
    "failing (push_bit k 1) t0" percent
  for k t0
proof
  fix n and e :: "node_call \<times> u32"
  assume f: "failing (push_bit k 1) t0 n" and r: "no_relief (push_bit k 1) (fst e)"
  obtain c now where e: "e = (c, now)" by fastforce
  have i: "node_inv n" and ok: "call_ok c" using f r by (auto simp: failing_def no_relief_def e)
  obtain n' us where n': "node_step n c now = Some (n', us)" "node_inv n'" "\<forall>u \<in> set us. percent u"
    using node_step_inv [OF i ok, of now] by (auto simp: percent_def)
  have "stopped n' \<or> s_state (n_safety n') = GOV_ST_DEGRADED \<and> bit (n_active_causes n') k \<and>
      s_cause_clear_ms (n_safety n') = 0 \<and> s_state_since_ms (n_safety n') = t0"
  proof (cases "stopped n")
    case True
    moreover have "n_safety n' = n_safety n \<or> (\<exists>ev. ev \<noteq> GOV_EV_OPERATOR_CLEAR \<and> ev \<noteq> GOV_EV_WATCHDOG \<and>
        n_safety n' = gov_safety_step (n_safety n) ev now)"
      using call_event [OF n'(1)] r by (simp add: e)
    ultimately have "stopped n'" unfolding stopped_iff using stopped_step [of "n_safety n" _ now] by metis
    then show ?thesis by simp
  next
    case False
    with f have "s_state (n_safety n) = GOV_ST_DEGRADED" "s_cause_clear_ms (n_safety n) = 0" "bit (n_active_causes n) k"
      "s_state_since_ms (n_safety n) = t0"
      unfolding failing_def bit_cause_iff by auto
    with degraded_call [OF n'(1) _ this(1-3)] r show ?thesis by (auto simp: e)
  qed
  with n' show "\<exists>n' out. (case e of (c, now) \<Rightarrow> node_step n c now) = Some (n', out) \<and> failing (push_bit k 1) t0 n' \<and>
      (\<forall>x \<in> set out. percent x)"
    unfolding failing_def bit_cause_iff by (auto simp: e)
qed

text \<open>A control step after the bound stops a node that is still degraded.\<close>

lemma failing_ends:
  assumes "failing (push_bit k 1) t0 n" and "k < 3" and "mag m 31" and "GOV_DEGRADE_MAX_MS \<le> t - t0"
  shows "\<exists>n'. node_step n (ControlStep m) t = Some (n', [Fin 0]) \<and> node_inv n' \<and> stopped n'"
proof -
  have i: "node_inv n" using assms(1) by (simp add: failing_def)
  obtain n' j where n': "node_step n (ControlStep m) t = Some (n', [Fin (of_int (let_through (gov_node_state n') j))])" "node_inv n'"
    using control_step_ok [OF i assms(3), of t] by auto
  have r: "no_relief (push_bit k 1) (ControlStep m)" using assms(2,3) by (auto simp: no_relief_def)
  have "stopped n'"
  proof (cases "stopped n")
    case True
    with call_event [OF n'(1) r] show ?thesis unfolding stopped_iff using stopped_step [of "n_safety n" _ t] by metis
  next
    case False
    with assms(1) have d: "s_state (n_safety n) = GOV_ST_DEGRADED" "s_cause_clear_ms (n_safety n) = 0" "bit (n_active_causes n) k"
      and t0: "s_state_since_ms (n_safety n) = t0"
      unfolding failing_def bit_cause_iff by auto
    from degraded_call [OF n'(1) r d] assms(4) t0 show ?thesis by auto
  qed
  moreover from this have "let_through (gov_node_state n') j = 0" by (auto simp: stopped_def let_through_def)
  ultimately show ?thesis using n' by auto
qed

section \<open>Properties\<close>

lemma elapsed_mono:
  fixes a b c :: u32
  assumes "a \<le> b" and "b \<le> c"
  shows "b - a \<le> c - a"
  using assms by (simp add: word_le_nat_alt unat_sub)

text \<open>
  C9. No false alarm: a node that runs, as long as every source reports good health, the error of
  the controller is in band at every control step, and the time stamps do not decrease, runs on
  with the flags it has, and no call is undefined. Commands to clear and repeated self-tests make
  no difference.
\<close>

theorem healthy_stays_running:
  assumes "node_inv n" and "gov_node_state n = GOV_ST_RUN"
    and "\<forall>e \<in> set cs. call_ok (fst e) \<and> quiet (n_setpoint n) (fst e)"
    and "sorted (s_now_ms (n_safety n) # map snd cs)"
  shows "\<exists>n' us. node_calls n cs = Some (n', us) \<and> node_inv n' \<and> gov_node_state n' = GOV_ST_RUN \<and>
    gov_node_faults n' = gov_node_faults n"
proof -
  have r: "running (n_setpoint n) (s_faults (n_safety n)) n"
    using assms(1,2) by (simp add: running_def gov_node_state_def gov_safety_state_def)
  obtain n' us where n': "node_calls n cs = Some (n', us)" "running (n_setpoint n) (s_faults (n_safety n)) n'"
    using healthy.calls [OF r assms(3,4)] by blast
  with running_shadow [OF r] running_shadow [OF n'(2)] show ?thesis
    by (auto simp: running_def gov_node_state_def gov_safety_state_def gov_node_faults_def gov_safety_fault_flags_def)
qed

lemma demo_band: "in_band (Fin 50) (Fin 20)"
  by (simp add: in_band_def PID_CFG_def GOV_DIVERGE_LIMIT_def gov_fabsf_def f32_eval)

lemma demo_run_setpoint: "n_setpoint demo_run = Fin 50"
  by (simp add: demo_run_def gov_node_selftest_ok_def gov_node_init_def)

theorem healthy_stays_running_witness:
  "\<exists>n' us. node_calls demo_run [(ControlStep (Fin 20), 10), (NoteLink True, 12), (PostEvent GOV_EV_OPERATOR_CLEAR, 13)] =
      Some (n', us) \<and> gov_node_state n' = GOV_ST_RUN"
  using healthy_stays_running [OF demo_run_inv demo_run_state(1),
      of "[(ControlStep (Fin 20), 10), (NoteLink True, 12), (PostEvent GOV_EV_OPERATOR_CLEAR, 13)]"]
  by (auto simp: demo_run_setpoint demo_band demo_run_state mag_Fin)





end
