(* ===== verification/Gov_Sensor.thy ===== *)
theory Gov_Sensor
  imports Gov_Faults
begin

text \<open>
  The sensor driver, \<^verbatim>\<open>drivers/hal.h\<close>, \<^verbatim>\<open>drivers/sensor.h\<close> and \<^verbatim>\<open>drivers/sensor.c\<close>, and its binding to the
  I2C driver of the target, \<^verbatim>\<open>drivers/hal_zephyr.c\<close>. A bus is three functions on the state of what
  is behind its \<^verbatim>\<open>ctx\<close> pointer; a read also returns the bytes it put into the buffer. The retry
  loop counts in eight bits and need not end, so it is a partial function.
\<close>

section \<open>The bus\<close>

text \<open>The last constructor stands for a value outside the enumeration.\<close>

datatype gov_bus_status = GOV_BUS_OK | GOV_BUS_NAK | GOV_BUS_ERR | GOV_BUS_NODATA | GOV_BUS_OTHER

record 'b gov_bus =
  bus_read :: "'b \<Rightarrow> u8 \<Rightarrow> u8 \<Rightarrow> nat \<Rightarrow> 'b \<times> gov_bus_status \<times> u8 list"
  bus_write :: "'b \<Rightarrow> u8 \<Rightarrow> u8 \<Rightarrow> u8 list \<Rightarrow> 'b \<times> gov_bus_status"
  bus_probe :: "'b \<Rightarrow> u8 \<Rightarrow> 'b \<times> gov_bus_status"

section \<open>The driver's data\<close>

definition GOV_SENSOR_MAX_READ :: nat where [gov_defs]: "GOV_SENSOR_MAX_READ = 4"

definition GOV_SFLAG_NONE :: u32 where [gov_defs]: "GOV_SFLAG_NONE = 0"
definition GOV_SFLAG_DROPOUT :: u32 where [gov_defs]: "GOV_SFLAG_DROPOUT = push_bit 0 1"
definition GOV_SFLAG_STUCK :: u32 where [gov_defs]: "GOV_SFLAG_STUCK = push_bit 1 1"
definition GOV_SFLAG_RANGE :: u32 where [gov_defs]: "GOV_SFLAG_RANGE = push_bit 2 1"
definition GOV_SFLAG_BUS_NAK :: u32 where [gov_defs]: "GOV_SFLAG_BUS_NAK = push_bit 3 1"
definition GOV_SFLAG_BUS_ERR :: u32 where [gov_defs]: "GOV_SFLAG_BUS_ERR = push_bit 4 1"

datatype gov_sensor_health = GOV_SENSOR_HEALTHY | GOV_SENSOR_FAULTED

record gov_sensor_cfg =
  sc_addr :: u8
  sc_reg :: u8
  sc_read_len :: nat
  sc_range_min :: i32
  sc_range_max :: i32
  sc_dropout_limit :: u16
  sc_stuck_limit :: u16
  sc_nak_retries :: u8

record gov_sensor =
  sn_cfg :: gov_sensor_cfg
  sn_flags :: u32
  sn_last_good :: i32
  sn_has_last_good :: bool
  sn_nodata_cnt :: u16
  sn_stuck_cnt :: u16

record gov_sample_slot =
  slot_value :: i32
  slot_fresh :: bool

section \<open>The latest-value slot\<close>

definition gov_slot_init :: gov_sample_slot where
  "gov_slot_init = \<lparr> slot_value = 0, slot_fresh = False \<rparr>"

definition gov_slot_push :: "gov_sample_slot \<Rightarrow> i32 \<Rightarrow> gov_sample_slot" where
  "gov_slot_push slot v = slot\<lparr> slot_value := v, slot_fresh := True \<rparr>"

definition gov_slot_get :: "gov_sample_slot \<Rightarrow> i32 \<Rightarrow> gov_sample_slot \<times> i32 \<times> bool" where
  "gov_slot_get slot out =
     (if \<not> slot_fresh slot then (slot, out, False)
      else (slot\<lparr> slot_fresh := False \<rparr>, slot_value slot, True))"

section \<open>The driver\<close>

definition decode_sample :: "u8 list \<Rightarrow> nat \<Rightarrow> i32" where
  "decode_sample buf len = foldl (\<lambda>raw b. push_bit 8 raw OR ucast b) 0 (take len buf)"

text \<open>The body of the retry loop and what follows it; \<open>tries\<close> is the 8-bit counter.\<close>

partial_function (option) read_loop ::
  "'b gov_bus \<Rightarrow> gov_sensor_cfg \<Rightarrow> u8 \<Rightarrow> 'b \<Rightarrow> ('b \<times> gov_bus_status \<times> u8 list) option" where
  "read_loop bus cfg tries b =
     (let (b', st, buf) = bus_read bus b (sc_addr cfg) (sc_reg cfg) (sc_read_len cfg) in
      if st \<noteq> GOV_BUS_NAK then Some (b', st, buf)
      else if tries + 1 \<le> sc_nak_retries cfg then read_loop bus cfg (tries + 1) b'
      else Some (b', st, buf))"

definition read_with_retry ::
  "'b gov_bus \<Rightarrow> gov_sensor \<Rightarrow> 'b \<Rightarrow> ('b \<times> gov_bus_status \<times> u8 list) option" where
  "read_with_retry bus s b = read_loop bus (sn_cfg s) 0 b"

definition in_range :: "gov_sensor_cfg \<Rightarrow> i32 \<Rightarrow> bool" where
  "in_range cfg v \<longleftrightarrow> \<not> (sint v < sint (sc_range_min cfg) \<or> sint v > sint (sc_range_max cfg))"

definition gov_sensor_on_sample ::
  "gov_sensor \<Rightarrow> u8 list \<Rightarrow> gov_sample_slot ptr \<Rightarrow> gov_sensor \<times> gov_sample_slot ptr" where
  "gov_sensor_on_sample s buf slot =
     (let sample = decode_sample buf (sc_read_len (sn_cfg s));
          s1 = s\<lparr> sn_flags := sn_flags s AND NOT (GOV_SFLAG_BUS_ERR OR GOV_SFLAG_BUS_NAK OR GOV_SFLAG_DROPOUT),
                  sn_nodata_cnt := 0 \<rparr>
      in if \<not> in_range (sn_cfg s1) sample then (s1\<lparr> sn_flags := sn_flags s1 OR GOV_SFLAG_RANGE \<rparr>, slot)
         else
           let s2 = s1\<lparr> sn_flags := sn_flags s1 AND NOT GOV_SFLAG_RANGE \<rparr>;
               s3 = (if sn_has_last_good s2 \<and> sample = sn_last_good s2 then
                       (if sn_stuck_cnt s2 < sc_stuck_limit (sn_cfg s2)
                        then s2\<lparr> sn_stuck_cnt := sn_stuck_cnt s2 + 1 \<rparr> else s2)
                     else s2\<lparr> sn_stuck_cnt := 0 \<rparr>);
               s4 = (if sn_stuck_cnt s3 \<ge> sc_stuck_limit (sn_cfg s3)
                     then s3\<lparr> sn_flags := sn_flags s3 OR GOV_SFLAG_STUCK \<rparr>
                     else s3\<lparr> sn_flags := sn_flags s3 AND NOT GOV_SFLAG_STUCK \<rparr>);
               s5 = s4\<lparr> sn_last_good := sample, sn_has_last_good := True \<rparr>
           in (s5, map_option (\<lambda>x. gov_slot_push x sample) slot))"

definition gov_sensor_init :: "gov_sensor_cfg \<Rightarrow> gov_sensor" where
  "gov_sensor_init cfg =
     (let n0 = sc_read_len cfg;
          n1 = (if n0 = 0 then 1 else n0);
          n2 = (if n1 > GOV_SENSOR_MAX_READ then GOV_SENSOR_MAX_READ else n1)
      in \<lparr> sn_cfg = cfg\<lparr> sc_read_len := n2 \<rparr>, sn_flags = GOV_SFLAG_NONE, sn_last_good = 0,
           sn_has_last_good = False, sn_nodata_cnt = 0, sn_stuck_cnt = 0 \<rparr>)"

text \<open>The \<^verbatim>\<open>switch\<close> of the poll on what the read returned.\<close>

definition on_status ::
  "gov_sensor \<Rightarrow> gov_bus_status \<Rightarrow> u8 list \<Rightarrow> gov_sample_slot ptr \<Rightarrow> gov_sensor \<times> gov_sample_slot ptr" where
  "on_status s st buf slot =
     (case st of
        GOV_BUS_OK \<Rightarrow> gov_sensor_on_sample s buf slot
      | GOV_BUS_NAK \<Rightarrow> (s\<lparr> sn_flags := sn_flags s OR GOV_SFLAG_BUS_NAK \<rparr>, slot)
      | GOV_BUS_ERR \<Rightarrow> (s\<lparr> sn_flags := sn_flags s OR GOV_SFLAG_BUS_ERR \<rparr>, slot)
      | GOV_BUS_NODATA \<Rightarrow>
          (let s1 = (if sn_nodata_cnt s < sc_dropout_limit (sn_cfg s)
                     then s\<lparr> sn_nodata_cnt := sn_nodata_cnt s + 1 \<rparr> else s)
           in (if sn_nodata_cnt s1 \<ge> sc_dropout_limit (sn_cfg s1)
               then s1\<lparr> sn_flags := sn_flags s1 OR GOV_SFLAG_DROPOUT \<rparr> else s1, slot))
      | GOV_BUS_OTHER \<Rightarrow> (s\<lparr> sn_flags := sn_flags s OR GOV_SFLAG_BUS_ERR \<rparr>, slot))"

definition gov_sensor_faults :: "gov_sensor \<Rightarrow> u32" where
  "gov_sensor_faults s = sn_flags s"

definition gov_sensor_health_of :: "gov_sensor \<Rightarrow> gov_sensor_health" where
  "gov_sensor_health_of s = (if sn_flags s = GOV_SFLAG_NONE then GOV_SENSOR_HEALTHY else GOV_SENSOR_FAULTED)"

definition gov_sensor_value :: "gov_sensor \<Rightarrow> i32" where
  "gov_sensor_value s = sn_last_good s"

definition gov_sensor_has_value :: "gov_sensor \<Rightarrow> bool" where
  "gov_sensor_has_value s = sn_has_last_good s"

definition gov_sensor_poll ::
  "'b gov_bus \<Rightarrow> gov_sensor \<Rightarrow> gov_sample_slot ptr \<Rightarrow> 'b \<Rightarrow>
   (gov_sensor \<times> gov_sample_slot ptr \<times> 'b \<times> gov_sensor_health) option" where
  "gov_sensor_poll bus s slot b =
     (case read_with_retry bus s b of None \<Rightarrow> None
      | Some (b', st, buf) \<Rightarrow>
        let (s', slot') = on_status s st buf slot in Some (s', slot', b', gov_sensor_health_of s'))"

section \<open>The binding to the target's I2C driver\<close>

text \<open>
  The Zephyr functions are parameters: whether the device is ready, the transfers with their
  return codes. A null \<^verbatim>\<open>ctx\<close> is a device that is absent.
\<close>

record 'b i2c_api =
  i2c_ready :: "'b \<Rightarrow> bool"
  i2c_burst_read :: "'b \<Rightarrow> u8 \<Rightarrow> u8 \<Rightarrow> nat \<Rightarrow> 'b \<times> int \<times> u8 list"
  i2c_burst_write :: "'b \<Rightarrow> u8 \<Rightarrow> u8 \<Rightarrow> u8 list \<Rightarrow> 'b \<times> int"
  i2c_write :: "'b \<Rightarrow> u8 list \<Rightarrow> u8 \<Rightarrow> 'b \<times> int"

definition GOV_SENSOR_I2C_ADDR :: u8 where [gov_defs]: "GOV_SENSOR_I2C_ADDR = 0x48"
definition GOV_SENSOR_I2C_REG :: u8 where [gov_defs]: "GOV_SENSOR_I2C_REG = 0"

definition map_status :: "int \<Rightarrow> gov_bus_status" where
  "map_status rc = (if rc = 0 then GOV_BUS_OK else if rc = - 5 then GOV_BUS_NAK else GOV_BUS_ERR)"

definition zbus_read ::
  "'b i2c_api \<Rightarrow> 'b ptr \<Rightarrow> u8 \<Rightarrow> u8 \<Rightarrow> nat \<Rightarrow> 'b ptr \<times> gov_bus_status \<times> u8 list" where
  "zbus_read api ctx addr reg len =
     (case ctx of None \<Rightarrow> (None, GOV_BUS_ERR, [])
      | Some dev \<Rightarrow>
        if \<not> i2c_ready api dev then (Some dev, GOV_BUS_ERR, [])
        else let (dev', rc, buf) = i2c_burst_read api dev addr reg len in (Some dev', map_status rc, buf))"

definition zbus_write ::
  "'b i2c_api \<Rightarrow> 'b ptr \<Rightarrow> u8 \<Rightarrow> u8 \<Rightarrow> u8 list \<Rightarrow> 'b ptr \<times> gov_bus_status" where
  "zbus_write api ctx addr reg buf =
     (case ctx of None \<Rightarrow> (None, GOV_BUS_ERR)
      | Some dev \<Rightarrow>
        if \<not> i2c_ready api dev then (Some dev, GOV_BUS_ERR)
        else let (dev', rc) = i2c_burst_write api dev addr reg buf in (Some dev', map_status rc))"

definition zbus_probe :: "'b i2c_api \<Rightarrow> 'b ptr \<Rightarrow> u8 \<Rightarrow> 'b ptr \<times> gov_bus_status" where
  "zbus_probe api ctx addr =
     (case ctx of None \<Rightarrow> (None, GOV_BUS_ERR)
      | Some dev \<Rightarrow>
        if \<not> i2c_ready api dev then (Some dev, GOV_BUS_ERR)
        else let (dev', rc) = i2c_write api dev [] addr in (Some dev', map_status rc))"

definition zbus :: "'b i2c_api \<Rightarrow> 'b ptr gov_bus" where
  "zbus api = \<lparr> bus_read = zbus_read api, bus_write = zbus_write api, bus_probe = zbus_probe api \<rparr>"

definition gov_hal_zephyr_init :: "'b i2c_api \<Rightarrow> 'b \<Rightarrow> 'b ptr gov_bus ptr \<Rightarrow> 'b ptr gov_bus ptr \<times> bool" where
  "gov_hal_zephyr_init api dev bus =
     (if bus = None \<or> \<not> i2c_ready api dev then (bus, False) else (Some (zbus api), True))"

section \<open>Specification\<close>

text \<open>At most \<open>Suc n\<close> reads, up to the first that is not refused.\<close>

fun try_reads :: "'b gov_bus \<Rightarrow> gov_sensor_cfg \<Rightarrow> nat \<Rightarrow> 'b \<Rightarrow> 'b \<times> gov_bus_status \<times> u8 list" where
  "try_reads bus cfg 0 b = bus_read bus b (sc_addr cfg) (sc_reg cfg) (sc_read_len cfg)"
| "try_reads bus cfg (Suc n) b =
     (let (b', st, buf) = bus_read bus b (sc_addr cfg) (sc_reg cfg) (sc_read_len cfg) in
      if st = GOV_BUS_NAK then try_reads bus cfg n b' else (b', st, buf))"

text \<open>The results of the reads, one per poll.\<close>

type_synonym read_result = "gov_bus_status \<times> u8 list"

text \<open>What the history says: the accepted samples, and the results since the last completed read.\<close>

definition samples :: "gov_sensor_cfg \<Rightarrow> read_result list \<Rightarrow> i32 list" where
  "samples cfg rs =
     map (\<lambda>r. decode_sample (snd r) (sc_read_len cfg)) (filter (\<lambda>r. fst r = GOV_BUS_OK) rs)"

definition accepted :: "gov_sensor_cfg \<Rightarrow> read_result list \<Rightarrow> i32 list" where
  "accepted cfg rs = filter (in_range cfg) (samples cfg rs)"

definition since_ok :: "read_result list \<Rightarrow> gov_bus_status list" where
  "since_ok rs = map fst (takeWhile (\<lambda>r. fst r \<noteq> GOV_BUS_OK) (rev rs))"

text \<open>How often the last value was repeated.\<close>

definition repeats :: "'a list \<Rightarrow> nat" where
  "repeats xs = length (takeWhile (\<lambda>x. x = last xs) (rev xs)) - 1"

definition sflags_all :: u32 where
  "sflags_all = GOV_SFLAG_DROPOUT OR GOV_SFLAG_STUCK OR GOV_SFLAG_RANGE OR GOV_SFLAG_BUS_NAK OR GOV_SFLAG_BUS_ERR"

text \<open>The state a history leads to.\<close>

definition explains :: "gov_sensor_cfg \<Rightarrow> read_result list \<Rightarrow> gov_sensor \<Rightarrow> bool" where
  "explains cfg rs s \<longleftrightarrow>
     sn_cfg s = cfg \<and>
     sn_has_last_good s = (accepted cfg rs \<noteq> []) \<and>
     (accepted cfg rs \<noteq> [] \<longrightarrow> sn_last_good s = last (accepted cfg rs)) \<and>
     unat (sn_nodata_cnt s) = min (count_list (since_ok rs) GOV_BUS_NODATA) (unat (sc_dropout_limit cfg)) \<and>
     unat (sn_stuck_cnt s) = min (repeats (accepted cfg rs)) (unat (sc_stuck_limit cfg)) \<and>
     (raised GOV_SFLAG_DROPOUT (sn_flags s) \<longleftrightarrow>
        GOV_BUS_NODATA \<in> set (since_ok rs) \<and>
        unat (sc_dropout_limit cfg) \<le> count_list (since_ok rs) GOV_BUS_NODATA) \<and>
     (raised GOV_SFLAG_STUCK (sn_flags s) \<longleftrightarrow>
        accepted cfg rs \<noteq> [] \<and> unat (sc_stuck_limit cfg) \<le> repeats (accepted cfg rs)) \<and>
     (raised GOV_SFLAG_RANGE (sn_flags s) \<longleftrightarrow>
        samples cfg rs \<noteq> [] \<and> \<not> in_range cfg (last (samples cfg rs))) \<and>
     (raised GOV_SFLAG_BUS_NAK (sn_flags s) \<longleftrightarrow> GOV_BUS_NAK \<in> set (since_ok rs)) \<and>
     (raised GOV_SFLAG_BUS_ERR (sn_flags s) \<longleftrightarrow>
        GOV_BUS_ERR \<in> set (since_ok rs) \<or> GOV_BUS_OTHER \<in> set (since_ok rs)) \<and>
     bits_in (sn_flags s) sflags_all"

text \<open>
  A sequence of polls, each with the mailbox emptied by its reader before; the values published
  are collected. \<open>reads\<close> are the results of the retried reads those polls see.
\<close>

fun polls ::
  "'b gov_bus \<Rightarrow> gov_sensor \<Rightarrow> 'b \<Rightarrow> nat \<Rightarrow> (gov_sensor \<times> 'b \<times> i32 list) option" where
  "polls bus s b 0 = Some (s, b, [])"
| "polls bus s b (Suc n) =
     (case gov_sensor_poll bus s (Some gov_slot_init) b of None \<Rightarrow> None
      | Some (s', slot, b', h) \<Rightarrow>
        let (slot', v, fresh) = gov_slot_get (the slot) 0 in
        map_option (\<lambda>(s'', b'', vs). (s'', b'', (if fresh then v # vs else vs))) (polls bus s' b' n))"

fun reads :: "'b gov_bus \<Rightarrow> gov_sensor_cfg \<Rightarrow> 'b \<Rightarrow> nat \<Rightarrow> read_result list" where
  "reads bus cfg b 0 = []"
| "reads bus cfg b (Suc n) =
     (let (b', r) = try_reads bus cfg (unat (sc_nak_retries cfg)) b in r # reads bus cfg b' n)"

text \<open>A bus that counts the reads.\<close>

definition counted :: "'b gov_bus \<Rightarrow> (nat \<times> 'b) gov_bus" where
  "counted bus = \<lparr>
     bus_read = (\<lambda>(k, b) addr reg len. let (b', r) = bus_read bus b addr reg len in ((Suc k, b'), r)),
     bus_write = (\<lambda>(k, b) addr reg buf. let (b', st) = bus_write bus b addr reg buf in ((k, b'), st)),
     bus_probe = (\<lambda>(k, b) addr. let (b', st) = bus_probe bus b addr in ((k, b'), st)) \<rparr>"

section \<open>The retry loop\<close>

lemma retry_spec:
  assumes "sc_nak_retries cfg \<noteq> 255" and "unat t + n = unat (sc_nak_retries cfg)"
  shows "read_loop bus cfg t b = Some (try_reads bus cfg n b)"
  using assms(2)
proof (induction n arbitrary: t b)
  case 0
  have "unat (sc_nak_retries cfg) \<noteq> 255" using assms(1) by (simp add: word_unat_eq_iff)
  then have "unat (sc_nak_retries cfg) < 255"
    using unsigned_less [where 'a = nat, of "sc_nak_retries cfg"] by simp
  moreover have "t = sc_nak_retries cfg" using 0 by (simp add: word_unat_eq_iff)
  ultimately have "\<not> t + 1 \<le> sc_nak_retries cfg"
    by (simp add: word_le_nat_alt unat_word_ariths(1))
  then show ?case
    by (subst read_loop.simps) (cases "bus_read bus b (sc_addr cfg) (sc_reg cfg) (sc_read_len cfg)"; simp)
next
  case (Suc n)
  have "unat t + 1 < 256" using Suc.prems unsigned_less [where 'a = nat, of "sc_nak_retries cfg"] by simp
  then have t: "unat (t + 1) = unat t + 1" by (simp add: unat_word_ariths(1))
  then have "t + 1 \<le> sc_nak_retries cfg" using Suc.prems by (simp add: word_le_nat_alt)
  with Suc.IH [of "t + 1"] Suc.prems t show ?case
    by (subst read_loop.simps) (simp add: case_prod_beta Let_def)
qed

text \<open>With 255 retries a device that never acknowledges keeps the loop running.\<close>

lemma retry_diverges:
  assumes "\<And>b. fst (snd (bus_read bus b (sc_addr cfg) (sc_reg cfg) (sc_read_len cfg))) = GOV_BUS_NAK"
    and "sc_nak_retries cfg = 255"
  shows "read_loop bus cfg t b = None"
proof -
  have "bus = bus \<and> cfg = cfg \<longrightarrow> False" if "read_loop bus cfg t b = Some r" for r
  proof (rule read_loop.raw_induct [OF _ that,
        where P = "\<lambda>bus' cfg' t' b' r'. bus' = bus \<and> cfg' = cfg \<longrightarrow> False"])
    fix rl bus' cfg' t' b' r'
    assume ih: "\<And>bus' cfg' t' b' r'. rl bus' cfg' t' b' = Some r' \<Longrightarrow> bus' = bus \<and> cfg' = cfg \<longrightarrow> False"
      and step: "(let (b'', st, buf) = bus_read bus' b' (sc_addr cfg') (sc_reg cfg') (sc_read_len cfg') in
        if st \<noteq> GOV_BUS_NAK then Some (b'', st, buf)
        else if t' + 1 \<le> sc_nak_retries cfg' then rl bus' cfg' (t' + 1) b''
        else Some (b'', st, buf)) = Some r'"
    show "bus' = bus \<and> cfg' = cfg \<longrightarrow> False"
    proof
      assume e: "bus' = bus \<and> cfg' = cfg"
      have "t' + 1 \<le> sc_nak_retries cfg"
        using assms(2) unsigned_less [where 'a = nat, of "t' + 1"] by (simp add: word_le_nat_alt)
      with step e assms(1) [of b'] have "rl bus cfg (t' + 1)
          (fst (bus_read bus b' (sc_addr cfg) (sc_reg cfg) (sc_read_len cfg))) = Some r'"
        by (simp add: case_prod_beta)
      with ih show False by blast
    qed
  qed
  then show ?thesis by (cases "read_loop bus cfg t b") auto
qed

section \<open>Flags as bits\<close>

lemma bit_sflag:
  "bit GOV_SFLAG_DROPOUT n \<longleftrightarrow> n = 0" "bit GOV_SFLAG_STUCK n \<longleftrightarrow> n = 1" "bit GOV_SFLAG_RANGE n \<longleftrightarrow> n = 2"
  "bit GOV_SFLAG_BUS_NAK n \<longleftrightarrow> n = 3" "bit GOV_SFLAG_BUS_ERR n \<longleftrightarrow> n = 4"
  unfolding GOV_SFLAG_DROPOUT_def GOV_SFLAG_STUCK_def GOV_SFLAG_RANGE_def GOV_SFLAG_BUS_NAK_def
    GOV_SFLAG_BUS_ERR_def bit_push_bit_iff bit_1_iff possible_bit_word
  by auto

lemma raised_sflag:
  "raised GOV_SFLAG_DROPOUT x \<longleftrightarrow> bit x 0" "raised GOV_SFLAG_STUCK x \<longleftrightarrow> bit x 1"
  "raised GOV_SFLAG_RANGE x \<longleftrightarrow> bit x 2" "raised GOV_SFLAG_BUS_NAK x \<longleftrightarrow> bit x 3"
  "raised GOV_SFLAG_BUS_ERR x \<longleftrightarrow> bit x 4"
  unfolding raised_def word_nonzero_iff bit_and_iff bit_sflag by auto

lemma bit_and_not: "n < 32 \<Longrightarrow> bit (x AND NOT y :: u32) n \<longleftrightarrow> bit x n \<and> \<not> bit y n"
  by (simp add: bit_and_iff bit_not_iff)

section \<open>Histories\<close>

lemma samples_snoc:
  "samples cfg (rs @ [r]) = samples cfg rs @ (if fst r = GOV_BUS_OK then [decode_sample (snd r) (sc_read_len cfg)] else [])"
  by (simp add: samples_def)

lemma accepted_snoc:
  "accepted cfg (rs @ [r]) = accepted cfg rs @
     (if fst r = GOV_BUS_OK \<and> in_range cfg (decode_sample (snd r) (sc_read_len cfg))
      then [decode_sample (snd r) (sc_read_len cfg)] else [])"
  by (simp add: accepted_def samples_snoc)

lemma since_ok_snoc: "since_ok (rs @ [r]) = (if fst r = GOV_BUS_OK then [] else fst r # since_ok rs)"
  by (simp add: since_ok_def)

lemma repeats_snoc: "repeats (xs @ [x]) = (if xs \<noteq> [] \<and> x = last xs then Suc (repeats xs) else 0)"
proof (cases xs rule: rev_cases)
  case Nil
  then show ?thesis by (simp add: repeats_def)
next
  case (snoc ys y)
  then show ?thesis by (simp add: repeats_def)
qed

section \<open>The driver's state is a function of the history\<close>

lemma bit_sflags_all: "bit sflags_all n \<longleftrightarrow> n < 5"
  unfolding sflags_all_def bit_or_iff bit_sflag by auto

lemma bits_in_sflags: "bits_in x sflags_all \<longleftrightarrow> (\<forall>n. bit x n \<longrightarrow> n < 5)"
  by (simp add: bits_in_iff bit_sflags_all)

lemma saturating:
  fixes c l :: u16
  assumes "unat c = min n (unat l)"
  shows "unat (if c < l then c + 1 else c) = min (Suc n) (unat l)"
proof (cases "c < l")
  case True
  then have lt: "unat c < unat l" by (simp add: word_less_nat_alt)
  then have "unat (c + 1) = Suc (unat c)"
    using unsigned_less [where 'a = nat, of l] by (simp add: unat_word_ariths(1))
  with True lt assms show ?thesis by simp
next
  case False
  then have "unat l \<le> unat c" by (simp add: word_less_nat_alt)
  with False assms show ?thesis by simp
qed

lemma saturating_or_reset:
  fixes c l :: u16
  assumes "unat c = min n (unat l)"
  shows "unat (if b then (if c < l then c + 1 else c) else 0) = min (if b then Suc n else 0) (unat l)"
  using saturating [OF assms] by (cases b) (simp_all only: if_True if_False, simp)

text \<open>A read that failed only adds flags.\<close>

lemma explains_failed:
  assumes "explains cfg rs s" and "fst r \<noteq> GOV_BUS_OK" and "fst r \<noteq> GOV_BUS_NODATA"
  shows "explains cfg (rs @ [r]) (fst (on_status s (fst r) (snd r) slot))"
  using assms unfolding explains_def bits_in_sflags raised_sflag
  by (cases "fst r") (auto simp: on_status_def samples_snoc accepted_snoc since_ok_snoc bit_or_iff bit_sflag)

lemma explains_nodata:
  assumes "explains cfg rs s" and "fst r = GOV_BUS_NODATA"
  shows "explains cfg (rs @ [r]) (fst (on_status s (fst r) (snd r) slot))"
proof -
  let ?n = "count_list (since_ok rs) GOV_BUS_NODATA" and ?l = "sc_dropout_limit cfg"
  let ?c = "if sn_nodata_cnt s < ?l then sn_nodata_cnt s + 1 else sn_nodata_cnt s"
  have c: "unat ?c = min (Suc ?n) (unat ?l)"
    using assms(1) by (intro saturating) (simp add: explains_def)
  then have lim: "?l \<le> ?c \<longleftrightarrow> unat ?l \<le> Suc ?n" by (simp add: word_le_nat_alt)
  have s': "fst (on_status s (fst r) (snd r) slot) = (if ?l \<le> ?c
      then s\<lparr> sn_nodata_cnt := ?c, sn_flags := sn_flags s OR GOV_SFLAG_DROPOUT \<rparr>
      else s\<lparr> sn_nodata_cnt := ?c \<rparr>)"
    using assms by (auto simp: on_status_def explains_def Let_def)
  have "unat ?l \<le> ?n \<Longrightarrow> ?l \<le> ?c" using lim by simp
  with assms c lim show ?thesis
    unfolding s' explains_def bits_in_sflags raised_sflag
    by (auto simp: samples_snoc accepted_snoc since_ok_snoc bit_or_iff bit_sflag)
qed

lemma sample_rejected:
  assumes "\<not> in_range (sn_cfg s) (decode_sample buf (sc_read_len (sn_cfg s)))"
    and "s' = fst (gov_sensor_on_sample s buf slot)"
  shows "sn_cfg s' = sn_cfg s" "sn_last_good s' = sn_last_good s"
    "sn_has_last_good s' = sn_has_last_good s" "sn_nodata_cnt s' = 0"
    "sn_stuck_cnt s' = sn_stuck_cnt s"
    and "n < 32 \<Longrightarrow> bit (sn_flags s') n \<longleftrightarrow> n = 2 \<or> (n = 1 \<or> 5 \<le> n) \<and> bit (sn_flags s) n"
    and "snd (gov_sensor_on_sample s buf slot) = slot"
proof -
  show "sn_cfg s' = sn_cfg s" "sn_last_good s' = sn_last_good s"
    "sn_has_last_good s' = sn_has_last_good s" "sn_nodata_cnt s' = 0"
    "sn_stuck_cnt s' = sn_stuck_cnt s" "snd (gov_sensor_on_sample s buf slot) = slot"
    using assms by (simp_all add: gov_sensor_on_sample_def Let_def)
  have f: "sn_flags s' = (sn_flags s AND NOT (GOV_SFLAG_BUS_ERR OR GOV_SFLAG_BUS_NAK OR GOV_SFLAG_DROPOUT))
      OR GOV_SFLAG_RANGE"
    using assms by (simp add: gov_sensor_on_sample_def Let_def)
  assume n: "n < 32"
  show "bit (sn_flags s') n \<longleftrightarrow> n = 2 \<or> (n = 1 \<or> 5 \<le> n) \<and> bit (sn_flags s) n"
    unfolding f by (simp only: bit_or_iff bit_and_not [OF n] bit_sflag) auto
qed

text \<open>The repetition counter after an accepted sample.\<close>

lemma sample_accepted:
  assumes "v = decode_sample buf (sc_read_len (sn_cfg s))" and "in_range (sn_cfg s) v"
    and "c = (if sn_has_last_good s \<and> v = sn_last_good s
      then (if sn_stuck_cnt s < sc_stuck_limit (sn_cfg s) then sn_stuck_cnt s + 1 else sn_stuck_cnt s) else 0)"
    and "s' = fst (gov_sensor_on_sample s buf slot)"
  shows "sn_cfg s' = sn_cfg s" "sn_last_good s' = v" "sn_has_last_good s'" "sn_nodata_cnt s' = 0"
    and "sn_stuck_cnt s' = c"
    and "n < 32 \<Longrightarrow> bit (sn_flags s') n \<longleftrightarrow>
      (if n = 1 then sc_stuck_limit (sn_cfg s) \<le> c else 5 \<le> n \<and> bit (sn_flags s) n)"
    and "snd (gov_sensor_on_sample s buf slot) = map_option (\<lambda>x. gov_slot_push x v) slot"
proof -
  show "sn_cfg s' = sn_cfg s" "sn_last_good s' = v" "sn_has_last_good s'" "sn_nodata_cnt s' = 0"
    "snd (gov_sensor_on_sample s buf slot) = map_option (\<lambda>x. gov_slot_push x v) slot"
    using assms by (simp_all add: gov_sensor_on_sample_def Let_def)
  have f: "sn_flags s' = (let f = (sn_flags s AND NOT (GOV_SFLAG_BUS_ERR OR GOV_SFLAG_BUS_NAK OR GOV_SFLAG_DROPOUT))
      AND NOT GOV_SFLAG_RANGE in
      if sc_stuck_limit (sn_cfg s) \<le> c then f OR GOV_SFLAG_STUCK else f AND NOT GOV_SFLAG_STUCK)"
    and c: "sn_stuck_cnt s' = c"
    using assms by (simp_all add: gov_sensor_on_sample_def Let_def)
  show "sn_stuck_cnt s' = c" by (rule c)
  assume n: "n < 32"
  then show "bit (sn_flags s') n \<longleftrightarrow>
      (if n = 1 then sc_stuck_limit (sn_cfg s) \<le> c else 5 \<le> n \<and> bit (sn_flags s) n)"
    unfolding f Let_def
    by (cases "sc_stuck_limit (sn_cfg s) \<le> c")
      (simp_all only: if_True if_False bit_or_iff bit_and_not [OF n] bit_sflag, auto)
qed

lemma explains_small: "explains cfg rs s \<Longrightarrow> bit (sn_flags s) n \<Longrightarrow> n < 5"
  by (simp add: explains_def bits_in_sflags)

text \<open>
  A completed read ends the run of failures: what is left to show about the new state are the
  acceptance of the sample, the repetition counter and the flags.
\<close>

lemma explains_completed:
  assumes "explains cfg rs s" and "fst r = GOV_BUS_OK"
    and "sn_cfg s' = cfg" and "sn_nodata_cnt s' = 0"
    and "sn_has_last_good s' = (accepted cfg (rs @ [r]) \<noteq> [])"
    and "accepted cfg (rs @ [r]) \<noteq> [] \<longrightarrow> sn_last_good s' = last (accepted cfg (rs @ [r]))"
    and "unat (sn_stuck_cnt s') = min (repeats (accepted cfg (rs @ [r]))) (unat (sc_stuck_limit cfg))"
    and "\<not> bit (sn_flags s') 0"
    and "bit (sn_flags s') 1 \<longleftrightarrow> accepted cfg (rs @ [r]) \<noteq> [] \<and>
      unat (sc_stuck_limit cfg) \<le> repeats (accepted cfg (rs @ [r]))"
    and "bit (sn_flags s') 2 \<longleftrightarrow> \<not> in_range cfg (decode_sample (snd r) (sc_read_len cfg))"
    and "\<not> bit (sn_flags s') 3" and "\<not> bit (sn_flags s') 4"
    and "\<And>n. n < 32 \<Longrightarrow> 5 \<le> n \<Longrightarrow> bit (sn_flags s') n \<Longrightarrow> bit (sn_flags s) n"
  shows "explains cfg (rs @ [r]) s'"
proof -
  have fin: "n < 5" if "bit (sn_flags s') n" for n
  proof (rule ccontr)
    assume "\<not> n < 5"
    with assms(13) [of n] that bit_imp_le_length [OF that] have "bit (sn_flags s) n" by simp
    with explains_small [OF assms(1)] \<open>\<not> n < 5\<close> show False by blast
  qed
  have "since_ok (rs @ [r]) = []" "samples cfg (rs @ [r]) = samples cfg rs @ [decode_sample (snd r) (sc_read_len cfg)]"
    using assms(2) by (simp_all add: since_ok_snoc samples_snoc)
  with assms(3-12) fin show ?thesis
    unfolding explains_def bits_in_sflags raised_sflag by simp
qed

lemma explains_rejected:
  assumes "explains cfg rs s" and "fst r = GOV_BUS_OK"
    and out: "\<not> in_range cfg (decode_sample (snd r) (sc_read_len cfg))"
  shows "explains cfg (rs @ [r]) (fst (gov_sensor_on_sample s (snd r) slot))"
proof -
  define s' where "s' = fst (gov_sensor_on_sample s (snd r) slot)"
  have cfg: "sn_cfg s = cfg" using assms(1) by (simp add: explains_def)
  note a = sample_rejected [of s "snd r" s' slot, unfolded cfg, OF out s'_def]
  have acc: "accepted cfg (rs @ [r]) = accepted cfg rs" using out by (simp add: accepted_snoc)
  have e: "sn_has_last_good s = (accepted cfg rs \<noteq> [])"
    "accepted cfg rs \<noteq> [] \<longrightarrow> sn_last_good s = last (accepted cfg rs)"
    "unat (sn_stuck_cnt s) = min (repeats (accepted cfg rs)) (unat (sc_stuck_limit cfg))"
    "bit (sn_flags s) 1 \<longleftrightarrow> accepted cfg rs \<noteq> [] \<and> unat (sc_stuck_limit cfg) \<le> repeats (accepted cfg rs)"
    using assms(1) unfolding explains_def raised_sflag by blast+
  show ?thesis unfolding s'_def [symmetric]
  proof (rule explains_completed [OF assms(1,2) a(1) a(4)], unfold acc a(2) a(3) a(5))
    show "sn_has_last_good s = (accepted cfg rs \<noteq> [])" by (rule e)
    show "accepted cfg rs \<noteq> [] \<longrightarrow> sn_last_good s = last (accepted cfg rs)" by (rule e)
    show "unat (sn_stuck_cnt s) = min (repeats (accepted cfg rs)) (unat (sc_stuck_limit cfg))" by (rule e)
    show "bit (sn_flags s') 1 \<longleftrightarrow> accepted cfg rs \<noteq> [] \<and> unat (sc_stuck_limit cfg) \<le> repeats (accepted cfg rs)"
      using a(6) [of 1] e(4) by simp
    show "\<not> bit (sn_flags s') 0" "\<not> bit (sn_flags s') 3" "\<not> bit (sn_flags s') 4"
      using a(6) [of 0] a(6) [of 3] a(6) [of 4] by simp_all
    show "bit (sn_flags s') 2 \<longleftrightarrow> \<not> in_range cfg (decode_sample (snd r) (sc_read_len cfg))"
      using a(6) [of 2] out by simp
    show "bit (sn_flags s) n" if "n < 32" "5 \<le> n" "bit (sn_flags s') n" for n
      using a(6) [OF that(1)] that(2,3) by auto
  qed
qed

lemma explains_accepted:
  assumes "explains cfg rs s" and "fst r = GOV_BUS_OK"
    and ok: "in_range cfg (decode_sample (snd r) (sc_read_len cfg))"
  shows "explains cfg (rs @ [r]) (fst (gov_sensor_on_sample s (snd r) slot))"
proof -
  let ?v = "decode_sample (snd r) (sc_read_len cfg)" and ?l = "sc_stuck_limit cfg"
  define s' where "s' = fst (gov_sensor_on_sample s (snd r) slot)"
  define c where "c = (if sn_has_last_good s \<and> ?v = sn_last_good s
    then (if sn_stuck_cnt s < ?l then sn_stuck_cnt s + 1 else sn_stuck_cnt s) else 0)"
  have cfg: "sn_cfg s = cfg" using assms(1) by (simp add: explains_def)
  note a = sample_accepted [of ?v "snd r" s c s' slot, unfolded cfg, OF refl ok c_def s'_def]
  have acc: "accepted cfg (rs @ [r]) = accepted cfg rs @ [?v]" using assms(2) ok by (simp add: accepted_snoc)
  have "unat (sn_stuck_cnt s) = min (repeats (accepted cfg rs)) (unat ?l)"
    using assms(1) unfolding explains_def by blast
  note counting = saturating_or_reset [OF this]
  have same: "sn_has_last_good s \<and> ?v = sn_last_good s \<longleftrightarrow> accepted cfg rs \<noteq> [] \<and> ?v = last (accepted cfg rs)"
    using assms(1) unfolding explains_def by metis
  have c: "unat c = min (repeats (accepted cfg rs @ [?v])) (unat ?l)"
    unfolding c_def repeats_snoc same by (rule counting)
  then have lim: "?l \<le> c \<longleftrightarrow> unat ?l \<le> repeats (accepted cfg rs @ [?v])"
    by (simp only: word_le_nat_alt min.bounded_iff) simp
  show ?thesis unfolding s'_def [symmetric]
  proof (rule explains_completed [OF assms(1,2) a(1) a(4)], unfold acc a(2) a(5))
    show "sn_has_last_good s' = (accepted cfg rs @ [?v] \<noteq> [])"
      "accepted cfg rs @ [?v] \<noteq> [] \<longrightarrow> ?v = last (accepted cfg rs @ [?v])"
      using a(3) by simp_all
    show "unat c = min (repeats (accepted cfg rs @ [?v])) (unat ?l)" by (rule c)
    show "bit (sn_flags s') 1 \<longleftrightarrow> accepted cfg rs @ [?v] \<noteq> [] \<and> unat ?l \<le> repeats (accepted cfg rs @ [?v])"
      using a(6) [of 1] lim by simp
    show "\<not> bit (sn_flags s') 0" "\<not> bit (sn_flags s') 3" "\<not> bit (sn_flags s') 4"
      using a(6) [of 0] a(6) [of 3] a(6) [of 4] by simp_all
    show "bit (sn_flags s') 2 \<longleftrightarrow> \<not> in_range cfg ?v"
      using a(6) [of 2] ok by simp
    show "bit (sn_flags s) n" if "n < 32" "5 \<le> n" "bit (sn_flags s') n" for n
      using a(6) [OF that(1)] that(2,3) by auto
  qed
qed

lemma explains_ok:
  assumes "explains cfg rs s" and "fst r = GOV_BUS_OK"
  shows "explains cfg (rs @ [r]) (fst (on_status s (fst r) (snd r) slot))"
  unfolding assms(2) on_status_def gov_bus_status.case
  using explains_rejected [OF assms] explains_accepted [OF assms] by blast

lemma poll_spec:
  assumes "sc_nak_retries (sn_cfg s) \<noteq> 255"
    and "try_reads bus (sn_cfg s) (unat (sc_nak_retries (sn_cfg s))) b = (b', r)"
  shows "gov_sensor_poll bus s slot b =
    (let (s', slot') = on_status s (fst r) (snd r) slot in Some (s', slot', b', gov_sensor_health_of s'))"
  using retry_spec [OF assms(1), of 0 "unat (sc_nak_retries (sn_cfg s))" bus b] assms(2)
  by (simp add: gov_sensor_poll_def read_with_retry_def case_prod_beta Let_def)

lemma explains_init: "explains (sn_cfg (gov_sensor_init cfg)) [] (gov_sensor_init cfg)"
  unfolding explains_def bits_in_sflags raised_sflag
  by (simp add: gov_sensor_init_def Let_def accepted_def samples_def since_ok_def repeats_def GOV_SFLAG_NONE_def)

lemma on_status_publishes:
  assumes "on_status s (fst r) (snd r) (Some gov_slot_init) = (s', slot)"
    and "gov_slot_get (the slot) 0 = (slot', v, fresh)"
  shows "(if fresh then [v] else []) = accepted (sn_cfg s) [r]"
proof (cases "fst r")
  case GOV_BUS_OK
  with assms sample_rejected(7) [OF _ refl, of s "snd r" "Some gov_slot_init"]
    sample_accepted(7) [OF refl _ refl refl, of s "snd r" "Some gov_slot_init"]
  show ?thesis
    by (cases "in_range (sn_cfg s) (decode_sample (snd r) (sc_read_len (sn_cfg s)))")
      (auto simp: on_status_def gov_slot_get_def gov_slot_push_def gov_slot_init_def accepted_def samples_def)
qed (use assms in \<open>auto simp: on_status_def gov_slot_get_def gov_slot_init_def accepted_def samples_def Let_def\<close>)

lemma accepted_Cons: "accepted cfg (r # rs) = accepted cfg [r] @ accepted cfg rs"
  by (simp add: accepted_def samples_def)

lemma on_status_explains:
  "explains cfg rs s \<Longrightarrow> explains cfg (rs @ [r]) (fst (on_status s (fst r) (snd r) slot))"
  using explains_failed explains_nodata explains_ok by blast

lemma polls_explained:
  assumes "sc_nak_retries cfg \<noteq> 255" and "explains cfg rs s"
  shows "\<exists>s' b'. polls bus s b n = Some (s', b', accepted cfg (reads bus cfg b n)) \<and>
    explains cfg (rs @ reads bus cfg b n) s'"
  using assms(2)
proof (induction n arbitrary: rs s b)
  case 0
  then show ?case by (simp add: accepted_def samples_def)
next
  case (Suc n)
  have cfg: "sn_cfg s = cfg" using Suc.prems by (simp add: explains_def)
  obtain b1 r where t: "try_reads bus cfg (unat (sc_nak_retries cfg)) b = (b1, r)" by (metis surj_pair)
  obtain s1 slot where o: "on_status s (fst r) (snd r) (Some gov_slot_init) = (s1, slot)" by fastforce
  obtain slot' v fresh where g: "gov_slot_get (the slot) 0 = (slot', v, fresh)" by (metis prod_cases3)
  have "explains cfg (rs @ [r]) s1" using on_status_explains [OF Suc.prems, of r "Some gov_slot_init"] o by simp
  from Suc.IH [OF this, of b1] obtain s2 b2 where
    "polls bus s1 b1 n = Some (s2, b2, accepted cfg (reads bus cfg b1 n))"
    "explains cfg ((rs @ [r]) @ reads bus cfg b1 n) s2" by blast
  then show ?case
    using on_status_publishes [OF o g] cfg assms(1) t o g accepted_Cons [of cfg r "reads bus cfg b1 n"]
    by (auto simp: poll_spec [of s bus b b1 r])
qed

lemma counted_try_reads:
  "\<exists>k. fst (try_reads (counted bus) cfg n (c, b)) = (c + k, fst (try_reads bus cfg n b)) \<and>
    snd (try_reads (counted bus) cfg n (c, b)) = snd (try_reads bus cfg n b) \<and>
    1 \<le> k \<and> k \<le> Suc n \<and> (fst (snd (try_reads bus cfg n b)) = GOV_BUS_NAK \<longrightarrow> k = Suc n)"
proof (induction n arbitrary: c b)
  case 0
  show ?case by (auto simp: counted_def case_prod_beta Let_def)
next
  case (Suc n)
  let ?r = "bus_read bus b (sc_addr cfg) (sc_reg cfg) (sc_read_len cfg)"
  show ?case
  proof (cases "fst (snd ?r) = GOV_BUS_NAK")
    case True
    obtain k where k: "fst (try_reads (counted bus) cfg n (Suc c, fst ?r)) = (Suc c + k, fst (try_reads bus cfg n (fst ?r)))"
      "snd (try_reads (counted bus) cfg n (Suc c, fst ?r)) = snd (try_reads bus cfg n (fst ?r))"
      "1 \<le> k" "k \<le> Suc n" "fst (snd (try_reads bus cfg n (fst ?r))) = GOV_BUS_NAK \<longrightarrow> k = Suc n"
      using Suc.IH [of "Suc c" "fst ?r"] by blast
    have "try_reads (counted bus) cfg (Suc n) (c, b) = try_reads (counted bus) cfg n (Suc c, fst ?r)"
      "try_reads bus cfg (Suc n) b = try_reads bus cfg n (fst ?r)"
      using True by (simp_all add: counted_def case_prod_beta Let_def)
    with k show ?thesis by (intro exI [of _ "Suc k"]) simp
  next
    case False
    then show ?thesis by (intro exI [of _ 1]) (simp add: counted_def case_prod_beta Let_def)
  qed
qed

lemma poll_nak:
  assumes "\<not> raised GOV_SFLAG_BUS_NAK (sn_flags s)"
    and "raised GOV_SFLAG_BUS_NAK (sn_flags (fst (on_status s st buf slot)))"
  shows "st = GOV_BUS_NAK"
proof (cases st)
  case GOV_BUS_OK
  have "\<not> bit (sn_flags (fst (gov_sensor_on_sample s buf slot))) 3"
    using sample_rejected(6) [OF _ refl, of s buf 3 slot] sample_accepted(6) [OF refl _ refl refl, of s buf 3 slot]
    by (cases "in_range (sn_cfg s) (decode_sample buf (sc_read_len (sn_cfg s)))") simp_all
  with assms(2) GOV_BUS_OK show ?thesis by (simp add: on_status_def raised_sflag)
qed (use assms in \<open>auto simp: on_status_def raised_sflag bit_or_iff bit_sflag Let_def split: if_splits\<close>)

section \<open>Properties\<close>

text \<open>
  C32. After any number of polls from a fresh driver, with any bus and fewer than 255 retries, the
  polls have returned, the values published are the in-range samples in order, and the state is
  the one the history of read results explains: the last good value is the last in-range sample,
  DROPOUT stands for \<open>dropout_limit\<close> polls without data since the last completed read, STUCK for
  \<open>stuck_limit\<close> repetitions of the last in-range sample, RANGE for a last completed read out of
  range, BUS\_NAK and BUS\_ERR for a refused or failed read since the last completed one, and no
  other flag is set.
\<close>

theorem sensor_history_exact:
  assumes "sc_nak_retries cfg \<noteq> 255"
  shows "\<exists>s' b'. polls bus (gov_sensor_init cfg) b n =
      Some (s', b', accepted (sn_cfg (gov_sensor_init cfg)) (reads bus (sn_cfg (gov_sensor_init cfg)) b n)) \<and>
    explains (sn_cfg (gov_sensor_init cfg)) (reads bus (sn_cfg (gov_sensor_init cfg)) b n) s'"
  using polls_explained [OF _ explains_init, of cfg bus b n] assms
  by (simp add: gov_sensor_init_def Let_def)

text \<open>A bus that plays back a list of results, and answers NAK when the list is over.\<close>

definition script_bus :: "read_result list gov_bus" where
  "script_bus = \<lparr> bus_read = (\<lambda>rs addr reg len. case rs of [] \<Rightarrow> ([], GOV_BUS_NAK, []) | r # rs' \<Rightarrow> (rs', r)),
     bus_write = (\<lambda>rs addr reg buf. (rs, GOV_BUS_OK)), bus_probe = (\<lambda>rs addr. (rs, GOV_BUS_OK)) \<rparr>"

definition demo_cfg :: "u8 \<Rightarrow> gov_sensor_cfg" where
  "demo_cfg retries = \<lparr> sc_addr = GOV_SENSOR_I2C_ADDR, sc_reg = GOV_SENSOR_I2C_REG, sc_read_len = 2, sc_range_min = 0,
     sc_range_max = 1000, sc_dropout_limit = 3, sc_stuck_limit = 5, sc_nak_retries = retries \<rparr>"

text \<open>A refused read that the retry hides, an out-of-range sample, and no data at the end.\<close>

definition demo_script :: "read_result list" where
  "demo_script = [(GOV_BUS_OK, [0, 20]), (GOV_BUS_NAK, []), (GOV_BUS_OK, [1, 0]), (GOV_BUS_OK, [255, 0]), (GOV_BUS_NODATA, [])]"

theorem sensor_history_exact_witness:
  "\<exists>s' b'. polls script_bus (gov_sensor_init (demo_cfg 3)) demo_script 4 = Some (s', b', [20, 256]) \<and>
    sn_last_good s' = 256 \<and> raised GOV_SFLAG_RANGE (sn_flags s') \<and> \<not> raised GOV_SFLAG_BUS_NAK (sn_flags s') \<and>
    \<not> raised GOV_SFLAG_DROPOUT (sn_flags s') \<and> unat (sn_nodata_cnt s') = 1"
proof -
  let ?c = "sn_cfg (gov_sensor_init (demo_cfg 3))"
  have r: "reads script_bus ?c demo_script 4 =
      [(GOV_BUS_OK, [0, 20]), (GOV_BUS_OK, [1, 0]), (GOV_BUS_OK, [255, 0]), (GOV_BUS_NODATA, [])]"
    by code_simp
  have a: "accepted ?c (reads script_bus ?c demo_script 4) = [20, 256]"
    unfolding r by (simp add: accepted_def samples_def in_range_def decode_sample_def demo_cfg_def
        gov_sensor_init_def GOV_SENSOR_MAX_READ_def)
  have "sc_nak_retries (demo_cfg 3) \<noteq> 255" by (simp add: demo_cfg_def)
  from sensor_history_exact [OF this, of script_bus demo_script 4] obtain s' b' where
    "polls script_bus (gov_sensor_init (demo_cfg 3)) demo_script 4 = Some (s', b', [20, 256])"
    and "explains ?c (reads script_bus ?c demo_script 4) s'"
    unfolding a by blast
  moreover from this(2) have "sn_last_good s' = 256 \<and> raised GOV_SFLAG_RANGE (sn_flags s') \<and>
      \<not> raised GOV_SFLAG_BUS_NAK (sn_flags s') \<and> \<not> raised GOV_SFLAG_DROPOUT (sn_flags s') \<and> unat (sn_nodata_cnt s') = 1"
    unfolding explains_def a unfolding r
    by (simp add: samples_def since_ok_def in_range_def decode_sample_def demo_cfg_def gov_sensor_init_def
        GOV_SENSOR_MAX_READ_def)
  ultimately show ?thesis by blast
qed

text \<open>
  C33. A poll with fewer than 255 retries returns after at least one read and at most
  \<open>nak_retries\<close> + 1 of them, whatever the device does, and it newly reports a NAK only after
  that many refused reads.
\<close>

theorem poll_terminates:
  assumes "sc_nak_retries (sn_cfg s) \<noteq> 255"
  shows "\<exists>k s' slot' b' h. gov_sensor_poll bus s slot b = Some (s', slot', b', h) \<and>
    gov_sensor_poll (counted bus) s slot (0, b) = Some (s', slot', (k, b'), h) \<and>
    1 \<le> k \<and> k \<le> unat (sc_nak_retries (sn_cfg s)) + 1 \<and>
    (\<not> raised GOV_SFLAG_BUS_NAK (sn_flags s) \<and> raised GOV_SFLAG_BUS_NAK (sn_flags s') \<longrightarrow>
      k = unat (sc_nak_retries (sn_cfg s)) + 1)"
proof -
  let ?n = "unat (sc_nak_retries (sn_cfg s))"
  obtain b' r where t: "try_reads bus (sn_cfg s) ?n b = (b', r)" by (metis surj_pair)
  obtain k where k: "try_reads (counted bus) (sn_cfg s) ?n (0, b) = ((k, b'), r)"
    "1 \<le> k" "k \<le> Suc ?n" "fst r = GOV_BUS_NAK \<longrightarrow> k = Suc ?n"
    using counted_try_reads [of bus "sn_cfg s" ?n 0 b] t by (metis add_0 fst_conv prod.collapse snd_conv)
  obtain s' slot' where o: "on_status s (fst r) (snd r) slot = (s', slot')" by (metis surj_pair)
  show ?thesis
    using poll_spec [OF assms t, of slot] poll_spec [OF assms k(1), of slot] k(2-4) o
      poll_nak [of s "fst r" "snd r" slot]
    by auto
qed

theorem poll_terminates_witness:
  "\<exists>k s' slot' b' h. gov_sensor_poll script_bus (gov_sensor_init (demo_cfg 3)) None [] = Some (s', slot', b', h) \<and>
    gov_sensor_poll (counted script_bus) (gov_sensor_init (demo_cfg 3)) None (0, []) = Some (s', slot', (k, b'), h) \<and>
    1 \<le> k \<and> k \<le> 4"
  using poll_terminates [of "gov_sensor_init (demo_cfg 3)" script_bus None "[]"]
  by (auto simp: gov_sensor_init_def demo_cfg_def Let_def)

text \<open>
  With 255 retries, which the counter of eight bits cannot exceed, a device that refuses every
  read keeps the poll from returning.
\<close>

definition silent_bus :: "unit gov_bus" where
  "silent_bus = \<lparr> bus_read = (\<lambda>b addr reg len. (b, GOV_BUS_NAK, [])),
     bus_write = (\<lambda>b addr reg buf. (b, GOV_BUS_NAK)), bus_probe = (\<lambda>b addr. (b, GOV_BUS_NAK)) \<rparr>"

lemma poll_255_retries_hangs: "gov_sensor_poll silent_bus (gov_sensor_init (demo_cfg 255)) slot () = None"
proof -
  have "read_loop silent_bus (sn_cfg (gov_sensor_init (demo_cfg 255))) 0 () = None"
    by (rule retry_diverges) (simp_all add: silent_bus_def gov_sensor_init_def demo_cfg_def Let_def)
  then show ?thesis by (simp add: gov_sensor_poll_def read_with_retry_def)
qed

text \<open>On the target no read reports missing data, so the driver never reports a dropout.\<close>

lemma zbus_never_nodata: "fst (snd (try_reads (zbus api) cfg n ctx)) \<noteq> GOV_BUS_NODATA"
proof (induction n arbitrary: ctx)
  case 0
  show ?case by (auto simp: zbus_def zbus_read_def map_status_def Let_def split: option.splits prod.splits)
next
  case (Suc n)
  then show ?case
    by (auto simp: zbus_def zbus_read_def map_status_def Let_def split: option.splits prod.splits)
qed

lemma reads_zbus: "r \<in> set (reads (zbus api) cfg ctx n) \<Longrightarrow> fst r \<noteq> GOV_BUS_NODATA"
  using zbus_never_nodata [of api cfg "unat (sc_nak_retries cfg)"]
  by (induction n arbitrary: ctx) (auto simp: case_prod_beta Let_def)

lemma target_never_drops:
  assumes "sc_nak_retries cfg \<noteq> 255"
  shows "\<exists>s' ctx' vs. polls (zbus api) (gov_sensor_init cfg) ctx n = Some (s', ctx', vs) \<and>
    \<not> raised GOV_SFLAG_DROPOUT (sn_flags s')"
proof -
  let ?c = "sn_cfg (gov_sensor_init cfg)"
  obtain s' ctx' where "polls (zbus api) (gov_sensor_init cfg) ctx n =
      Some (s', ctx', accepted ?c (reads (zbus api) ?c ctx n))"
    and e: "explains ?c ([] @ reads (zbus api) ?c ctx n) s'"
    using polls_explained [OF _ explains_init, of cfg "zbus api" ctx n] assms
    by (auto simp: gov_sensor_init_def Let_def)
  moreover have "GOV_BUS_NODATA \<notin> set (since_ok (reads (zbus api) ?c ctx n))"
    using reads_zbus by (fastforce simp: since_ok_def dest!: set_takeWhileD)
  ultimately show ?thesis using e by (auto simp: explains_def)
qed

end
