(* ===== verification/Gov_Config.thy ===== *)
theory Gov_Config
  imports Gov_Crc
begin

text \<open>
  Persistent configuration, \<^verbatim>\<open>lib/config/config.h\<close> and \<^verbatim>\<open>lib/config/config.c\<close>: two slots, each with
  a sequence number and a CRC over its bytes; load takes the newest valid slot, save writes the
  other one. The storage medium is behind the two function pointers of \<^verbatim>\<open>struct gov_config_store\<close>;
  they are fields of the context here, functions on a medium of any type, and \<open>slot_store\<close> states
  what the module relies on: a completed write is read back, and no write touches the other slot.

  The checksum runs over the bytes of the structure as the (little-endian) targets lay it out: eight
  words of four bytes before the CRC.
\<close>

section \<open>Data\<close>

record gov_config =
  cfg_setpoint :: i32
  cfg_kp_milli :: i32
  cfg_ki_milli :: i32
  cfg_kd_milli :: i32
  cfg_boot_count :: u32

definition GOV_CONFIG_MAGIC :: u32 where [gov_defs]: "GOV_CONFIG_MAGIC = 0x47434647"
definition GOV_CONFIG_VERSION :: u32 where [gov_defs]: "GOV_CONFIG_VERSION = 1"

record gov_config_slot =
  sl_magic :: u32
  sl_version :: u32
  sl_seq :: u32
  sl_payload :: gov_config
  sl_crc :: u16
  sl_pad :: u16

record 'm gov_config_store =
  st_read :: "('m \<Rightarrow> u8 \<Rightarrow> gov_config_slot option) ptr"
  st_write :: "('m \<Rightarrow> u8 \<Rightarrow> gov_config_slot \<Rightarrow> 'm \<times> bool) ptr"

datatype gov_config_status = GOV_CONFIG_LOADED | GOV_CONFIG_DEFAULTED | GOV_CONFIG_RECOVERED

definition GOV_CONFIG_DEFAULTS :: gov_config where
  "GOV_CONFIG_DEFAULTS = \<lparr> cfg_setpoint = 50, cfg_kp_milli = 3500, cfg_ki_milli = 18000,
     cfg_kd_milli = 60, cfg_boot_count = 0 \<rparr>"

record 'm gov_config_ctx =
  c_store :: "'m gov_config_store"
  c_cfg :: gov_config
  c_last_seq :: u32
  c_active_idx :: u8
  c_valid :: bool

section \<open>The bytes of a slot\<close>

definition le32 :: "u32 \<Rightarrow> u8 list" where
  "le32 v = [ucast (v AND 0xFF), ucast (drop_bit 8 v AND 0xFF), ucast (drop_bit 16 v AND 0xFF),
             ucast (drop_bit 24 v AND 0xFF)]"

definition le16 :: "u16 \<Rightarrow> u8 list" where
  "le16 v = [ucast (v AND 0xFF), ucast (drop_bit 8 v AND 0xFF)]"

definition crc_region :: "gov_config_slot \<Rightarrow> u8 list" where
  "crc_region s = concat (map le32
     [sl_magic s, sl_version s, sl_seq s, cfg_setpoint (sl_payload s), cfg_kp_milli (sl_payload s),
      cfg_ki_milli (sl_payload s), cfg_kd_milli (sl_payload s), cfg_boot_count (sl_payload s)])"

definition slot_bytes :: "gov_config_slot \<Rightarrow> u8 list" where
  "slot_bytes s = crc_region s @ le16 (sl_crc s) @ le16 (sl_pad s)"

definition word_at :: "u8 list \<Rightarrow> nat \<Rightarrow> u32" where
  "word_at bs i = ucast (bs ! i) OR push_bit 8 (ucast (bs ! (i + 1))) OR
     push_bit 16 (ucast (bs ! (i + 2))) OR push_bit 24 (ucast (bs ! (i + 3)))"

definition half_at :: "u8 list \<Rightarrow> nat \<Rightarrow> u16" where
  "half_at bs i = ucast (bs ! i) OR push_bit 8 (ucast (bs ! (i + 1)))"

definition slot_of_bytes :: "u8 list \<Rightarrow> gov_config_slot" where
  "slot_of_bytes bs = \<lparr> sl_magic = word_at bs 0, sl_version = word_at bs 4, sl_seq = word_at bs 8,
     sl_payload = \<lparr> cfg_setpoint = word_at bs 12, cfg_kp_milli = word_at bs 16,
       cfg_ki_milli = word_at bs 20, cfg_kd_milli = word_at bs 24, cfg_boot_count = word_at bs 28 \<rparr>,
     sl_crc = half_at bs 32, sl_pad = half_at bs 34 \<rparr>"

section \<open>The code\<close>

definition gov_config_slot_crc :: "gov_config_slot \<Rightarrow> u16" where
  "gov_config_slot_crc slot = gov_crc16_ccitt 0xFFFF (crc_region slot)"

definition gov_config_slot_valid :: "gov_config_slot \<Rightarrow> bool" where
  "gov_config_slot_valid slot =
     (if sl_magic slot \<noteq> GOV_CONFIG_MAGIC \<or> sl_version slot \<noteq> GOV_CONFIG_VERSION then False
      else sl_crc slot = gov_config_slot_crc slot)"

definition gov_config_slot_valid_ptr :: "gov_config_slot ptr \<Rightarrow> bool" where
  "gov_config_slot_valid_ptr = read_ptr False gov_config_slot_valid"

definition gov_config_init :: "'m gov_config_store \<Rightarrow> 'm gov_config_ctx" where
  "gov_config_init store = \<lparr> c_store = store, c_cfg = GOV_CONFIG_DEFAULTS, c_last_seq = 0,
     c_active_idx = 0, c_valid = False \<rparr>"

definition seq_newer :: "u32 \<Rightarrow> u32 \<Rightarrow> bool" where
  "seq_newer a b \<longleftrightarrow> a - b < 0x80000000 \<and> a \<noteq> b"

definition take_slot :: "gov_config_slot \<Rightarrow> u8 \<Rightarrow> 'm gov_config_ctx \<Rightarrow> 'm gov_config_ctx" where
  "take_slot s idx c = c\<lparr> c_cfg := sl_payload s, c_last_seq := sl_seq s, c_active_idx := idx \<rparr>"

text \<open>The results: the context, the configuration handed out, the status.\<close>

definition gov_config_load ::
  "'m gov_config_ctx \<Rightarrow> 'm \<Rightarrow> 'm gov_config_ctx \<times> gov_config \<times> gov_config_status" where
  "gov_config_load c m =
     (let s0 = (case st_read (c_store c) of None \<Rightarrow> None | Some read \<Rightarrow> read m 0);
          s1 = (case st_read (c_store c) of None \<Rightarrow> None | Some read \<Rightarrow> read m 1);
          r0 = (s0 \<noteq> None);
          r1 = (s1 \<noteq> None);
          v0 = (r0 \<and> gov_config_slot_valid (the s0));
          v1 = (r1 \<and> gov_config_slot_valid (the s1));
          (c', status) =
            (if v0 \<and> v1 then
               (if seq_newer (sl_seq (the s1)) (sl_seq (the s0)) then take_slot (the s1) 1 c
                else take_slot (the s0) 0 c, GOV_CONFIG_LOADED)
             else if v0 then
               (take_slot (the s0) 0 c, if r1 then GOV_CONFIG_RECOVERED else GOV_CONFIG_LOADED)
             else if v1 then
               (take_slot (the s1) 1 c, if r0 then GOV_CONFIG_RECOVERED else GOV_CONFIG_LOADED)
             else
               (c\<lparr> c_cfg := GOV_CONFIG_DEFAULTS, c_last_seq := 0, c_active_idx := 0 \<rparr>,
                GOV_CONFIG_DEFAULTED));
          c'' = c'\<lparr> c_valid := True \<rparr>
      in (c'', c_cfg c'', status))"

definition target_slot :: "'m gov_config_ctx \<Rightarrow> u8" where
  "target_slot c = (if c_valid c then c_active_idx c XOR 1 else 1)"

definition make_slot :: "u32 \<Rightarrow> gov_config \<Rightarrow> gov_config_slot" where
  "make_slot seq cfg =
     (let slot = \<lparr> sl_magic = GOV_CONFIG_MAGIC, sl_version = GOV_CONFIG_VERSION, sl_seq = seq,
            sl_payload = cfg, sl_crc = 0, sl_pad = 0 \<rparr>
      in slot\<lparr> sl_crc := gov_config_slot_crc slot \<rparr>)"

text \<open>The results: the context, the medium and the return value.\<close>

definition gov_config_save ::
  "'m gov_config_ctx \<Rightarrow> gov_config \<Rightarrow> 'm \<Rightarrow> 'm gov_config_ctx \<times> 'm \<times> bool" where
  "gov_config_save c cfg m =
     (case st_write (c_store c) of None \<Rightarrow> (c, m, False)
      | Some write \<Rightarrow>
        let target = target_slot c;
            slot = make_slot (c_last_seq c + 1) cfg;
            (m', landed) = write m target slot
        in if \<not> landed then (c, m', False)
           else (c\<lparr> c_cfg := cfg, c_last_seq := sl_seq slot, c_active_idx := target, c_valid := True \<rparr>,
                 m', True))"

section \<open>The medium\<close>

text \<open>Two slots; a completed write is read back, and a write leaves the other slot alone.\<close>

locale slot_store =
  fixes rd :: "'m \<Rightarrow> u8 \<Rightarrow> gov_config_slot option"
    and wr :: "'m \<Rightarrow> u8 \<Rightarrow> gov_config_slot \<Rightarrow> 'm \<times> bool"
  assumes write_landed: "i < 2 \<Longrightarrow> snd (wr m i s) \<Longrightarrow> rd (fst (wr m i s)) i = Some s"
    and write_other: "i < 2 \<Longrightarrow> j < 2 \<Longrightarrow> i \<noteq> j \<Longrightarrow> rd (fst (wr m i s)) j = rd m j"

section \<open>Specification of load\<close>

text \<open>A slot that verifies, as its sequence number and configuration.\<close>

definition good :: "gov_config_slot option \<Rightarrow> (u32 \<times> gov_config) option" where
  "good s = (case s of None \<Rightarrow> None
     | Some x \<Rightarrow> if gov_config_slot_valid x then Some (sl_seq x, sl_payload x) else None)"

text \<open>The better of two slots: its index, sequence number and configuration.\<close>

definition best :: "gov_config_slot option \<Rightarrow> gov_config_slot option \<Rightarrow> (u8 \<times> u32 \<times> gov_config) option" where
  "best s0 s1 =
     (case (good s0, good s1) of
        (Some (q0, p0), Some (q1, p1)) \<Rightarrow>
          if seq_newer q1 q0 then Some (1, q1, p1) else Some (0, q0, p0)
      | (Some (q0, p0), None) \<Rightarrow> Some (0, q0, p0)
      | (None, Some (q1, p1)) \<Rightarrow> Some (1, q1, p1)
      | (None, None) \<Rightarrow> None)"

text \<open>What a load of the medium gives: the best slot or the defaults.\<close>

definition stored :: "('m \<Rightarrow> u8 \<Rightarrow> gov_config_slot option) \<Rightarrow> 'm \<Rightarrow> u8 \<times> u32 \<times> gov_config" where
  "stored rd m =
     (case best (rd m 0) (rd m 1) of None \<Rightarrow> (0, 0, GOV_CONFIG_DEFAULTS) | Some b \<Rightarrow> b)"

text \<open>What a slot holds when the context believes it to be the active one.\<close>

definition active_ok :: "gov_config_slot option \<Rightarrow> u8 \<Rightarrow> u32 \<Rightarrow> gov_config \<Rightarrow> bool" where
  "active_ok s i q p \<longleftrightarrow>
     good s = Some (q, p) \<or> good s = None \<and> i = 0 \<and> q = 0 \<and> p = GOV_CONFIG_DEFAULTS"

text \<open>The bytes left by a write that stopped after \<open>n\<close> bytes.\<close>

definition torn_at :: "nat \<Rightarrow> gov_config_slot \<Rightarrow> gov_config_slot \<Rightarrow> gov_config_slot" where
  "torn_at n old new = slot_of_bytes (take n (slot_bytes new) @ drop n (slot_bytes old))"

section \<open>Sequences of saves\<close>

text \<open>A sequence of saves, each with the medium it left behind.\<close>

fun saves :: "'m gov_config_ctx \<Rightarrow> 'm \<Rightarrow> gov_config list \<Rightarrow> 'm gov_config_ctx \<times> 'm" where
  "saves c m [] = (c, m)"
| "saves c m (cfg # cfgs) = (let (c', m', ok) = gov_config_save c cfg m in saves c' m' cfgs)"

text \<open>The configurations saved: the last one that completed and those tried after it.\<close>

fun expected :: "'m gov_config_ctx \<Rightarrow> 'm \<Rightarrow> gov_config set \<Rightarrow> gov_config list \<Rightarrow> gov_config set" where
  "expected c m X [] = insert (c_cfg c) X"
| "expected c m X (cfg # cfgs) =
     (let (c', m', ok) = gov_config_save c cfg m in
      expected c' m' (if ok then {} else insert cfg X) cfgs)"

text \<open>
  The configurations of verifying remains: what an interrupted save since the last completed one
  left in its slot, when that verifies although it is neither what the slot held before nor what
  was being written. Its bytes then collide with the 16-bit check value.
\<close>

definition remains :: "gov_config_slot option \<Rightarrow> gov_config_slot \<Rightarrow> gov_config_slot option \<Rightarrow> gov_config set" where
  "remains old new s =
     (case good s of None \<Rightarrow> {} | Some (q, p) \<Rightarrow> if s = old \<or> s = Some new then {} else {p})"

fun leftovers ::
  "('m \<Rightarrow> u8 \<Rightarrow> gov_config_slot option) \<Rightarrow> 'm gov_config_ctx \<Rightarrow> 'm \<Rightarrow> gov_config set \<Rightarrow> gov_config list \<Rightarrow>
   gov_config set" where
  "leftovers rd c m Y [] = Y"
| "leftovers rd c m Y (cfg # cfgs) =
     (let (c', m', ok) = gov_config_save c cfg m;
          t = target_slot c;
          Y' = remains (rd m t) (make_slot (c_last_seq c + 1) cfg) (rd m' t) \<union> Y
      in leftovers rd c' m' (if ok then {} else Y') cfgs)"

section \<open>Sequence numbers\<close>

lemma seq_newer_Suc: "seq_newer (q + 1) q" and not_newer_Suc: "\<not> seq_newer q (q + 1)"
  by (simp_all add: seq_newer_def)

section \<open>Load and save against the specification\<close>

lemma good_simps [simp]: "good None = None"
  by (simp add: good_def)

lemma load_stored:
  assumes "st_read (c_store c) = Some rd"
  shows "stored rd m = (c_active_idx (fst (gov_config_load c m)), c_last_seq (fst (gov_config_load c m)),
      c_cfg (fst (gov_config_load c m)))"
    and "fst (snd (gov_config_load c m)) = c_cfg (fst (gov_config_load c m))"
    and "c_valid (fst (gov_config_load c m))" and "c_store (fst (gov_config_load c m)) = c_store c"
    and "snd (snd (gov_config_load c m)) = GOV_CONFIG_DEFAULTED \<longleftrightarrow> best (rd m 0) (rd m 1) = None"
  using assms
  by (auto simp: gov_config_load_def stored_def best_def good_def take_slot_def Let_def case_prod_beta
      split: option.splits)

lemma good_make_slot [simp]: "good (Some (make_slot q cfg)) = Some (q, cfg)"
  by (simp add: good_def gov_config_slot_valid_def make_slot_def Let_def gov_config_slot_crc_def
      crc_region_def)

lemma stored_active:
  assumes "stored rd m = (i, q, p)"
  shows "active_ok (rd m i) i q p"
  using assms by (auto simp: stored_def best_def active_ok_def split: option.splits prod.splits if_splits)

lemma stored_cases:
  assumes "i = 0 \<or> i = 1" and "active_ok (rd m i) i q p"
  shows "good (rd m (i XOR 1)) = Some (q + 1, p') \<Longrightarrow> stored rd m = (i XOR 1, q + 1, p')"
    and "good (rd m (i XOR 1)) = None \<Longrightarrow> stored rd m = (i, q, p)"
  using assms
  by (auto simp: stored_def best_def active_ok_def seq_newer_Suc not_newer_Suc split: option.splits)

lemma stored_any:
  assumes "i = 0 \<or> i = 1" and "active_ok (rd m i) i q p"
  shows "stored rd m = (i, q, p) \<or>
    (\<exists>q' p'. good (rd m (i XOR 1)) = Some (q', p') \<and> stored rd m = (i XOR 1, q', p'))"
  using assms by (auto simp: stored_def best_def active_ok_def split: option.splits)

lemma stored_idx: "stored rd m = (i, q, p) \<Longrightarrow> i = 0 \<or> i = 1"
  by (auto simp: stored_def best_def split: option.splits prod.splits if_splits)

section \<open>The module on any medium\<close>

context slot_store
begin

text \<open>
  The context and the medium agree: the active slot is as the context says, and a load gives the
  context's configuration or one of \<open>X\<close>, those an interrupted save may have left in the other slot.
\<close>

definition tracks :: "'m gov_config_ctx \<Rightarrow> 'm \<Rightarrow> gov_config set \<Rightarrow> bool" where
  "tracks c m X \<longleftrightarrow> st_read (c_store c) = Some rd \<and> st_write (c_store c) = Some wr \<and> c_valid c \<and>
     (c_active_idx c = 0 \<or> c_active_idx c = 1) \<and>
     active_ok (rd m (c_active_idx c)) (c_active_idx c) (c_last_seq c) (c_cfg c) \<and>
     (stored rd m = (c_active_idx c, c_last_seq c, c_cfg c) \<or>
      (\<exists>q. \<exists>x \<in> X. stored rd m = (target_slot c, q, x)))"

lemma load_tracks:
  assumes "st_read (c_store c) = Some rd" and "st_write (c_store c) = Some wr"
  shows "tracks (fst (gov_config_load c m)) m {}"
  using load_stored(3,4) [OF assms(1), of m] assms stored_active [OF load_stored(1) [OF assms(1), of m]]
    stored_idx [OF load_stored(1) [OF assms(1), of m]] load_stored(1) [OF assms(1), of m]
  by (simp add: tracks_def)

lemma save_tracks:
  assumes "tracks c m X" and "gov_config_save c cfg m = (c', m', ok)"
  shows "if ok then tracks c' m' {} \<and> c_cfg c' = cfg
    else c' = c \<and> tracks c' m' (insert cfg (remains (rd m (target_slot c)) (make_slot (c_last_seq c + 1) cfg)
      (rd m' (target_slot c)) \<union> X))"
proof -
  let ?t = "target_slot c" and ?s = "make_slot (c_last_seq c + 1) cfg" and ?i = "c_active_idx c"
  have t: "?t = ?i XOR 1" and i: "?i = 0 \<or> ?i = 1"
    and a: "active_ok (rd m ?i) ?i (c_last_seq c) (c_cfg c)"
    using assms(1) by (simp_all add: tracks_def target_slot_def)
  have lt: "?t < 2" "?i < 2" "?t \<noteq> ?i" using i by (auto simp: t)
  have w: "m' = fst (wr m ?t ?s)" "ok = snd (wr m ?t ?s)"
    and c': "c' = (if ok then c\<lparr> c_cfg := cfg, c_last_seq := c_last_seq c + 1, c_active_idx := ?t,
      c_valid := True \<rparr> else c)"
    using assms(1,2) by (auto simp: gov_config_save_def tracks_def Let_def case_prod_beta make_slot_def
        split: if_splits)
  have other: "rd m' ?i = rd m ?i" using write_other [of ?t ?i m ?s] lt w by simp
  show ?thesis
  proof (cases ok)
    case True
    then have "rd m' ?t = Some ?s" using write_landed [of ?t m ?s] lt w by simp
    then have "stored rd m' = (?t, c_last_seq c + 1, cfg)" "active_ok (rd m' ?t) ?t (c_last_seq c + 1) cfg"
      using stored_cases(1) [OF i, of rd m', unfolded other, OF a, folded t] by (simp_all add: active_ok_def)
    with True c' assms(1) i t show ?thesis by (auto simp: tracks_def)
  next
    case False
    let ?R = "remains (rd m ?t) ?s (rd m' ?t)"
    have "stored rd m' = stored rd m" if "rd m' ?t = rd m ?t"
      using that other i t by (auto simp: stored_def)
    moreover have "p' = cfg \<or> p' \<in> ?R" if "good (rd m' ?t) = Some (q', p')" "rd m' ?t \<noteq> rd m ?t" for q' p'
      using that by (auto simp: remains_def)
    ultimately have "stored rd m' = stored rd m \<or> stored rd m' = (?i, c_last_seq c, c_cfg c) \<or>
        (\<exists>q'. \<exists>p' \<in> insert cfg ?R. stored rd m' = (?t, q', p'))"
      using stored_any [OF i, of rd m', unfolded other, OF a, folded t] by blast
    with False c' assms(1) a other show ?thesis by (auto simp: tracks_def)
  qed
qed

lemma saves_tracks:
  assumes "tracks c m (X \<union> Y)"
  shows "snd (snd (stored rd (snd (saves c m cfgs)))) \<in> expected c m X cfgs \<union> leftovers rd c m Y cfgs \<and>
    (\<exists>Z. tracks (fst (saves c m cfgs)) (snd (saves c m cfgs)) Z)"
  using assms
proof (induction cfgs arbitrary: c m X Y)
  case Nil
  then show ?case by (auto simp: tracks_def)
next
  case (Cons cfg cfgs)
  obtain c' m' ok where s: "gov_config_save c cfg m = (c', m', ok)" by (cases "gov_config_save c cfg m") auto
  let ?R = "remains (rd m (target_slot c)) (make_slot (c_last_seq c + 1) cfg) (rd m' (target_slot c))"
  have "tracks c' m' ((if ok then {} else insert cfg X) \<union> (if ok then {} else ?R \<union> Y))"
    using save_tracks [OF Cons.prems s] by (auto simp: Un_left_commute split: if_splits)
  from Cons.IH [OF this] s show ?case by (simp add: Let_def)
qed

lemma reload:
  assumes "st_read store = Some rd"
  shows "fst (snd (gov_config_load (gov_config_init store) m)) = snd (snd (stored rd m))"
  using load_stored(1,2) [of "gov_config_init store" rd m] assms by (simp add: gov_config_init_def)

end

section \<open>Properties\<close>


text \<open>
  Two slots and, for the next writes, the number of bytes that land before power is lost: the
  store of \<^verbatim>\<open>tests/config/test_config.c\<close>, a never-written slot holding zeros.
\<close>

type_synonym demo_medium = "(gov_config_slot option \<times> gov_config_slot option) \<times> nat list"

definition demo_read :: "demo_medium \<Rightarrow> u8 \<Rightarrow> gov_config_slot option" where
  "demo_read m i = (if i = 0 then fst (fst m) else snd (fst m))"

definition demo_write :: "demo_medium \<Rightarrow> u8 \<Rightarrow> gov_config_slot \<Rightarrow> demo_medium \<times> bool" where
  "demo_write m i s =
     (let old = (case demo_read m i of None \<Rightarrow> slot_of_bytes (replicate 36 0) | Some x \<Rightarrow> x);
          ok = (case snd m of [] \<Rightarrow> True | n # _ \<Rightarrow> 36 \<le> n);
          new = Some (if ok then s else torn_at (hd (snd m)) old s)
      in ((if i = 0 then (new, snd (fst m)) else (fst (fst m), new), tl (snd m)), ok))"

lemma slot_index:
  assumes "(i :: u8) < 2"
  shows "i = 0 \<or> i = 1"
proof -
  have "unat i < 2" using assms by (simp add: word_less_nat_alt)
  then consider "unat i = 0" | "unat i = 1" by linarith
  then show ?thesis by cases (auto simp: word_unat_eq_iff)
qed

lemma demo_store: "slot_store demo_read demo_write"
  by unfold_locales (auto simp: demo_read_def demo_write_def Let_def dest!: slot_index)

definition demo_config_store :: "demo_medium gov_config_store" where
  "demo_config_store = \<lparr> st_read = Some demo_read, st_write = Some demo_write \<rparr>"

text \<open>The context after a boot from an empty medium.\<close>

lemma demo_first_load:
  "fst (gov_config_load (gov_config_init demo_config_store) ((None, None), ns)) =
   \<lparr> c_store = demo_config_store, c_cfg = GOV_CONFIG_DEFAULTS, c_last_seq = 0, c_active_idx = 0, c_valid = True \<rparr>"
  by (simp add: gov_config_load_def gov_config_init_def demo_config_store_def demo_read_def Let_def)

text \<open>The second slot written, cut after 20 of its bytes, does not verify.\<close>

lemma demo_torn:
  "good (Some (torn_at 20 (slot_of_bytes (replicate 36 0))
     (make_slot 2 (GOV_CONFIG_DEFAULTS\<lparr> cfg_setpoint := 99 \<rparr>)))) = None" (is "good (Some (torn_at 20 ?old ?new)) = None")
proof -
  let ?mix = "\<lparr> sl_magic = GOV_CONFIG_MAGIC, sl_version = GOV_CONFIG_VERSION, sl_seq = 2,
    sl_payload = \<lparr> cfg_setpoint = 99, cfg_kp_milli = 3500, cfg_ki_milli = 0, cfg_kd_milli = 0, cfg_boot_count = 0 \<rparr>,
    sl_crc = 0, sl_pad = 0 \<rparr>"
  have z: "slot_bytes ?old = replicate 36 0"
    by (simp add: slot_bytes_def crc_region_def slot_of_bytes_def word_at_def half_at_def le32_def le16_def
        numeral_eq_Suc)
  have n: "take 20 (slot_bytes ?new) =
      [0x47, 0x46, 0x43, 0x47, 1, 0, 0, 0, 2, 0, 0, 0, 99, 0, 0, 0, 0xAC, 0x0D, 0, 0]"
    by (simp add: slot_bytes_def crc_region_def make_slot_def Let_def le32_def gov_defs GOV_CONFIG_DEFAULTS_def)
  have d: "drop 20 (replicate 36 0) = (replicate 16 0 :: u8 list)" by simp
  have mix: "torn_at 20 ?old ?new = ?mix"
    unfolding torn_at_def z n d
    by (simp add: slot_of_bytes_def word_at_def half_at_def gov_defs)
  have r: "crc_region ?mix = [0x47, 0x46, 0x43, 0x47, 1, 0, 0, 0, 2, 0, 0, 0, 99, 0, 0, 0, 0xAC, 0x0D, 0, 0,
      0, 0, 0, 0, 0, 0, 0, 0, 0, 0, 0, 0]"
    by (simp add: crc_region_def le32_def gov_defs)
  have "unat (gov_crc16_ccitt 0xFFFF (crc_region ?mix)) \<noteq> 0"
    unfolding unat_gov_crc16 r by (simp add: crc_nat_def)
  then have "gov_config_slot_crc ?mix \<noteq> 0" by (auto simp: gov_config_slot_crc_def)
  then show ?thesis by (simp add: mix good_def gov_config_slot_valid_def)
qed


text \<open>
  A completed save wins: after any such sequence, when a save returns true, a reload gives
  its configuration, also when the 32-bit sequence number wraps.
\<close>

theorem config_completed_save_wins:
  fixes store :: "'m gov_config_store"
  assumes "slot_store rd wr" and "st_read store = Some rd" and "st_write store = Some wr"
    and "c = fst (gov_config_load (gov_config_init store) m)"
    and "saves c m cfgs = (c1, m1)"
    and "gov_config_save c1 cfg m1 = (c2, m2, True)"
  shows "fst (snd (gov_config_load (gov_config_init store) m2)) = cfg \<and> c_cfg c2 = cfg"
proof -
  have "slot_store.tracks rd wr c m ({} \<union> {})"
    using slot_store.load_tracks [OF assms(1), of "gov_config_init store" m] assms(2-4)
    by (simp add: gov_config_init_def)
  then obtain Y where "slot_store.tracks rd wr c1 m1 Y"
    using slot_store.saves_tracks [OF assms(1), of c m "{}" "{}" cfgs] assms(5) by auto
  then have "slot_store.tracks rd wr c2 m2 {} \<and> c_cfg c2 = cfg"
    using slot_store.save_tracks [OF assms(1) _ assms(6)] by fastforce
  then show ?thesis
    using slot_store.reload [OF assms(1,2), of m2] by (auto simp: slot_store.tracks_def [OF assms(1)])
qed

theorem config_completed_save_wins_witness:
  "\<exists>c2 m2. gov_config_save (fst (gov_config_load (gov_config_init demo_config_store) ((None, None), [])))
       (GOV_CONFIG_DEFAULTS\<lparr> cfg_setpoint := 7 \<rparr>) ((None, None), []) = (c2, m2, True) \<and>
     fst (snd (gov_config_load (gov_config_init demo_config_store) m2)) = GOV_CONFIG_DEFAULTS\<lparr> cfg_setpoint := 7 \<rparr>"
proof -
  let ?c = "fst (gov_config_load (gov_config_init demo_config_store) ((None, None), []))"
  let ?cfg = "GOV_CONFIG_DEFAULTS\<lparr> cfg_setpoint := 7 \<rparr>"
  obtain c2 m2 where s: "gov_config_save ?c ?cfg ((None, None), []) = (c2, m2, True)"
    unfolding demo_first_load by (simp add: gov_config_save_def demo_config_store_def demo_write_def Let_def)
  with config_completed_save_wins [OF demo_store, of demo_config_store ?c "((None, None), [])" "[]" ?c
      "((None, None), [])" ?cfg c2 m2]
  show ?thesis by (auto simp: demo_config_store_def)
qed

text \<open>
  C30. The checksum does not rule out every torn write: there are an old slot, a newer slot for
  it and a number of bytes after which the interrupted write leaves a slot that verifies, carries
  the newer sequence number, and holds neither the old nor the new configuration.
\<close>

theorem config_torn_mix:
  "\<exists>old new q p n. old = make_slot q p \<and> (\<exists>p'. new = make_slot (q + 2) p') \<and>
     gov_config_slot_valid (torn_at n old new) \<and> sl_seq (torn_at n old new) = q + 2 \<and>
     sl_payload (torn_at n old new) \<noteq> sl_payload old \<and> sl_payload (torn_at n old new) \<noteq> sl_payload new"
proof -
  let ?p = "GOV_CONFIG_DEFAULTS" and ?p' = "GOV_CONFIG_DEFAULTS\<lparr> cfg_setpoint := 26847, cfg_kp_milli := 4000 \<rparr>"
  let ?old = "make_slot 1 ?p" and ?new = "make_slot (1 + 2) ?p'"
  let ?mix = "\<lparr> sl_magic = GOV_CONFIG_MAGIC, sl_version = GOV_CONFIG_VERSION, sl_seq = 3,
    sl_payload = ?p\<lparr> cfg_setpoint := 26847 \<rparr>, sl_crc = 0x8677, sl_pad = 0 \<rparr>"
  have r: "crc_region ?old = [0x47, 0x46, 0x43, 0x47, 1, 0, 0, 0, 1, 0, 0, 0, 50, 0, 0, 0, 0xAC, 0x0D,
      0, 0, 0x50, 0x46, 0, 0, 0x3C, 0, 0, 0, 0, 0, 0, 0]"
    by (simp add: crc_region_def make_slot_def Let_def le32_def gov_defs GOV_CONFIG_DEFAULTS_def)
  have rm: "crc_region ?mix = [0x47, 0x46, 0x43, 0x47, 1, 0, 0, 0, 3, 0, 0, 0, 0xDF, 0x68, 0, 0, 0xAC, 0x0D,
      0, 0, 0x50, 0x46, 0, 0, 0x3C, 0, 0, 0, 0, 0, 0, 0]"
    by (simp add: crc_region_def le32_def gov_defs GOV_CONFIG_DEFAULTS_def)
  have rn: "take 16 (slot_bytes ?new) =
      [0x47, 0x46, 0x43, 0x47, 1, 0, 0, 0, 3, 0, 0, 0, 0xDF, 0x68, 0, 0]"
    by (simp add: slot_bytes_def crc_region_def make_slot_def Let_def le32_def gov_defs GOV_CONFIG_DEFAULTS_def)
  have "unat (gov_crc16_ccitt 0xFFFF (crc_region ?old)) = 0x8677"
    unfolding unat_gov_crc16 r by (simp add: crc_nat_def)
  moreover have cm: "unat (gov_crc16_ccitt 0xFFFF (crc_region ?mix)) = 0x8677"
    unfolding unat_gov_crc16 rm by (simp add: crc_nat_def)
  moreover have c: "sl_crc ?old = gov_crc16_ccitt 0xFFFF (crc_region ?old)" "sl_pad ?old = 0"
    by (simp_all add: make_slot_def Let_def gov_config_slot_crc_def crc_region_def)
  ultimately have old: "sl_crc ?old = 0x8677" and mix: "gov_config_slot_crc ?mix = 0x8677"
    by (simp_all add: word_unat_eq_iff gov_config_slot_crc_def)
  have ro: "drop 16 (slot_bytes ?old) = [0xAC, 0x0D, 0, 0, 0x50, 0x46, 0, 0, 0x3C, 0, 0, 0, 0, 0, 0, 0,
      0x77, 0x86, 0, 0]"
    by (simp add: slot_bytes_def r old c(2) le16_def)
  have torn: "torn_at 16 ?old ?new = ?mix"
    unfolding torn_at_def rn ro
    by (simp add: slot_of_bytes_def word_at_def half_at_def gov_defs GOV_CONFIG_DEFAULTS_def)
  have "gov_config_slot_valid ?mix" using mix by (simp add: gov_config_slot_valid_def)
  moreover have "sl_payload ?mix \<noteq> sl_payload ?old" "sl_payload ?mix \<noteq> sl_payload ?new"
    by (simp_all add: make_slot_def Let_def GOV_CONFIG_DEFAULTS_def)
  moreover have "sl_seq ?mix = 1 + 2" by simp
  ultimately show ?thesis unfolding torn [symmetric] by blast
qed

end
