(* ===== verification/Gov_Persist.thy ===== *)
theory Gov_Persist
  imports Gov_Config Gov_Telem
begin

text \<open>
  The settings adapter, \<^verbatim>\<open>app/persist.h\<close> and \<^verbatim>\<open>app/persist.c\<close>: the two configuration slots are two
  settings keys; at boot the settings subsystem hands every stored value to \<^verbatim>\<open>gov_set_cb\<close>, which
  stages it in RAM; reads come from the staged copies, writes go to the settings and then to the
  copy. The settings subsystem is not part of the repository: its functions are the fields of
  \<open>settings_api\<close>, over a non-volatile store of any type. \<open>sa_entries\<close> is the sequence of calls of
  the handler that one \<^verbatim>\<open>settings_load\<close> makes: the name, the stored length and the result of the
  read callback (an error code, or the bytes it copies).
\<close>

section \<open>The settings subsystem and the adapter's state\<close>

record 'n settings_api =
  sa_subsys_init :: "'n \<Rightarrow> int"
  sa_load :: "'n \<Rightarrow> int"
  sa_entries :: "'n \<Rightarrow> (string \<times> nat \<times> (int + u8 list)) list"
  sa_name_steq :: "string \<Rightarrow> string \<Rightarrow> bool \<times> string ptr"
  sa_save_one :: "'n \<Rightarrow> string \<Rightarrow> u8 list \<Rightarrow> 'n \<times> int"

record 'n persist =
  p_slot :: "nat \<Rightarrow> gov_config_slot"
  p_present :: "nat \<Rightarrow> bool"
  p_nvs :: 'n

definition SLOT_SIZE :: nat where "SLOT_SIZE = 36"

definition ENOENT :: int where "ENOENT = 2"
definition EIO :: int where "EIO = 5"
definition EINVAL :: int where "EINVAL = 22"

text \<open>The contents of a zeroed slot.\<close>

definition zero_slot :: gov_config_slot where
  "zero_slot = slot_of_bytes (replicate SLOT_SIZE 0)"

section \<open>The code\<close>

definition gov_set_cb ::
  "'n settings_api \<Rightarrow> 'n persist \<Rightarrow> string \<times> nat \<times> (int + u8 list) \<Rightarrow> 'n persist \<times> int" where
  "gov_set_cb api p e =
     (let (name, len, got) = e;
          (m0, next0) = sa_name_steq api name ''slot0'';
          (m1, next1) = sa_name_steq api name ''slot1'';
          idx = (if m0 \<and> next0 = None then Some 0 else if m1 \<and> next1 = None then Some 1 else None)
      in case idx of
           None \<Rightarrow> (p, - ENOENT)
         | Some i \<Rightarrow>
           if len \<noteq> SLOT_SIZE then (p, - EINVAL)
           else (case got of
                   Inl rc \<Rightarrow> (p, - EIO)
                 | Inr bs \<Rightarrow>
                   let new = take SLOT_SIZE bs;
                       slot = slot_of_bytes (new @ drop (length new) (slot_bytes (p_slot p i)))
                   in (p\<lparr> p_slot := (p_slot p)(i := slot), p_present := (p_present p)(i := True) \<rparr>, 0)))"

definition store_read :: "'n persist \<Rightarrow> u8 \<Rightarrow> gov_config_slot option" where
  "store_read p idx =
     (if idx > 1 \<or> \<not> p_present p (unat idx) then None else Some (p_slot p (unat idx)))"

definition store_write :: "'n settings_api \<Rightarrow> 'n persist \<Rightarrow> u8 \<Rightarrow> gov_config_slot \<Rightarrow> 'n persist \<times> bool" where
  "store_write api p idx slot =
     (if idx > 1 then (p, False)
      else
        let key = (if idx = 0 then ''gov/slot0'' else ''gov/slot1'');
            (nvs, rc) = sa_save_one api (p_nvs p) key (slot_bytes slot);
            p1 = p\<lparr> p_nvs := nvs \<rparr>
        in if rc \<noteq> 0 then (p1, False)
           else (p1\<lparr> p_slot := (p_slot p1)(unat idx := slot), p_present := (p_present p1)(unat idx := True) \<rparr>,
                 True))"

definition persist_store :: "'n settings_api \<Rightarrow> 'n persist gov_config_store" where
  "persist_store api = \<lparr> st_read = Some store_read, st_write = Some (store_write api) \<rparr>"

definition clear_staging :: "'n persist \<Rightarrow> 'n persist" where
  "clear_staging p = p\<lparr> p_slot := (\<lambda>_. zero_slot), p_present := (\<lambda>_. False) \<rparr>"

text \<open>The calls of the handler; the settings subsystem goes on after an error of one of them.\<close>

definition stage_all :: "'n settings_api \<Rightarrow> 'n persist \<Rightarrow> 'n persist" where
  "stage_all api p = foldl (\<lambda>q e. fst (gov_set_cb api q e)) p (sa_entries api (p_nvs p))"

text \<open>The results: the context and the configuration (when it was set), the state, the return value.\<close>

definition gov_persist_init ::
  "'n settings_api \<Rightarrow> 'n persist \<Rightarrow> ('n persist gov_config_ctx \<times> gov_config) option \<times> 'n persist \<times> bool" where
  "gov_persist_init api p =
     (let p0 = clear_staging p in
      if sa_subsys_init api (p_nvs p0) \<noteq> 0 then (None, p0, False)
      else
        let p1 = stage_all api p0 in
        if sa_load api (p_nvs p1) \<noteq> 0 then (None, p1, False)
        else
          let c0 = gov_config_init (persist_store api);
              (c1, out, status) = gov_config_load c0 p1
          in (Some (c1, out), p1, True))"

definition gov_persist_save ::
  "'n persist gov_config_ctx \<Rightarrow> gov_config \<Rightarrow> 'n persist \<Rightarrow> 'n persist gov_config_ctx \<times> 'n persist \<times> bool" where
  "gov_persist_save c cfg p = gov_config_save c cfg p"

section \<open>What is in the non-volatile store\<close>

text \<open>
  What the adapter relies on, as the settings subsystem documents it, in terms of the value \<open>val n k\<close>
  stored under a key: a load hands over exactly the stored values of the subtree \<^verbatim>\<open>gov\<close>, each with its
  name below the subtree, its length and its bytes; a save that returns 0 has stored the value, and
  no save touches another key; \<^verbatim>\<open>settings_name_steq\<close> with nothing left after the match tells that
  the names are equal.
\<close>

definition settings_laws :: "'n settings_api \<Rightarrow> ('n \<Rightarrow> string \<Rightarrow> u8 list option) \<Rightarrow> bool" where
  "settings_laws api val \<longleftrightarrow>
     (\<forall>n name len got. (name, len, got) \<in> set (sa_entries api n) \<longleftrightarrow>
        (\<exists>bs. val n (''gov/'' @ name) = Some bs \<and> len = length bs \<and> got = Inr bs)) \<and>
     (\<forall>n k bs. snd (sa_save_one api n k bs) = 0 \<longrightarrow> val (fst (sa_save_one api n k bs)) k = Some bs) \<and>
     (\<forall>n k k' bs. k' \<noteq> k \<longrightarrow> val (fst (sa_save_one api n k bs)) k' = val n k') \<and>
     (\<forall>name key. fst (sa_name_steq api name key) \<and> snd (sa_name_steq api name key) = None \<longleftrightarrow> name = key)"

definition slot_key :: "u8 \<Rightarrow> string" where
  "slot_key idx = (if idx = 0 then ''gov/slot0'' else ''gov/slot1'')"

text \<open>The slot in a stored value: values of another length are ignored.\<close>

definition slot_val :: "u8 list option \<Rightarrow> gov_config_slot option" where
  "slot_val b = (case b of None \<Rightarrow> None
     | Some b \<Rightarrow> if length b = SLOT_SIZE then Some (slot_of_bytes b) else None)"

text \<open>The slot a boot would stage, and a write of a slot, seen at the settings.\<close>

definition nvs_read :: "'n settings_api \<Rightarrow> 'n \<Rightarrow> u8 \<Rightarrow> gov_config_slot option" where
  "nvs_read api n idx =
     store_read (stage_all api \<lparr> p_slot = (\<lambda>_. zero_slot), p_present = (\<lambda>_. False), p_nvs = n \<rparr>) idx"

definition nvs_write :: "'n settings_api \<Rightarrow> 'n \<Rightarrow> u8 \<Rightarrow> gov_config_slot \<Rightarrow> 'n \<times> bool" where
  "nvs_write api n idx slot =
     (let (n', rc) = sa_save_one api n (slot_key idx) (slot_bytes slot) in (n', rc = 0))"

section \<open>The staged copies are a slot store\<close>

lemma index_not_above: "(i :: u8) < 2 \<Longrightarrow> \<not> 1 < i"
  by (auto dest!: slot_index)

interpretation persist: slot_store store_read "store_write api" for api :: "'n settings_api"
proof
  fix m :: "'n persist" and i j :: u8 and s
  assume i: "i < 2"
  then show "snd (store_write api m i s) \<Longrightarrow> store_read (fst (store_write api m i s)) i = Some s"
    using index_not_above [OF i]
    by (auto simp: store_write_def store_read_def Let_def case_prod_beta split: if_splits)
  assume "j < 2" "i \<noteq> j"
  then show "store_read (fst (store_write api m i s)) j = store_read m j"
    using index_not_above [OF i]
    by (auto simp: store_write_def store_read_def Let_def case_prod_beta word_unat_eq_iff)
qed

section \<open>A slot survives its bytes\<close>

lemma le32_rev: "le32 v = rev (be32 v)"
  by (simp add: le32_def be32_def)

lemma word_at_le32:
  assumes "length xs = i"
  shows "word_at (xs @ le32 v @ ys) i = v"
proof -
  obtain a b c d where be: "be32 v = [a, b, c, d]" by (simp add: be32_def)
  then have "word_at (xs @ le32 v @ ys) i =
      push_bit 24 (ucast a) OR push_bit 16 (ucast b) OR push_bit 8 (ucast c) OR ucast d"
    using assms by (simp add: word_at_def le32_rev nth_append or.assoc or.commute or.left_commute)
  with be32_bytes [of v a b c d] be show ?thesis by simp
qed

lemma half_at_le16:
  assumes "length xs = i"
  shows "half_at (xs @ le16 v @ ys) i = v"
proof -
  have "ucast (ucast (v AND 0xFF) :: u8) OR push_bit 8 (ucast (ucast (drop_bit 8 v AND 0xFF) :: u8)) = v"
    (is "?l = v")
  proof (rule bit_word_eqI)
    fix n assume "n < LENGTH(16)"
    moreover have "(0xFF :: u16) = mask 8" by (simp add: mask_eq_exp_minus_1)
    ultimately show "bit ?l n \<longleftrightarrow> bit v n"
      by (cases "n < 8") (auto simp only: bit_or_iff bit_push_bit_iff bit_ucast_iff bit_drop_bit_eq
          bit_and_iff bit_mask_iff, auto simp: bit_imp_le_length)
  qed
  with assms show ?thesis by (simp add: half_at_def le16_def nth_append)
qed

lemma length_le [simp]: "length (le32 v) = 4" "length (le16 w) = 2"
  by (simp_all add: le32_def le16_def)

lemma length_slot_bytes [simp]: "length (slot_bytes s) = SLOT_SIZE"
  by (simp add: slot_bytes_def crc_region_def SLOT_SIZE_def)

lemma slot_of_slot_bytes: "slot_of_bytes (slot_bytes s) = s"
proof -
  let ?p = "sl_payload s"
  let ?m = "le32 (sl_magic s)" and ?v = "le32 (sl_version s)" and ?q = "le32 (sl_seq s)"
  let ?a = "le32 (cfg_setpoint ?p)" and ?b = "le32 (cfg_kp_milli ?p)" and ?c = "le32 (cfg_ki_milli ?p)"
    and ?d = "le32 (cfg_kd_milli ?p)" and ?e = "le32 (cfg_boot_count ?p)"
  have b: "slot_bytes s = ?m @ ?v @ ?q @ ?a @ ?b @ ?c @ ?d @ ?e @ le16 (sl_crc s) @ le16 (sl_pad s)"
    by (simp add: slot_bytes_def crc_region_def)
  have "word_at (slot_bytes s) 0 = sl_magic s" "word_at (slot_bytes s) 4 = sl_version s"
    "word_at (slot_bytes s) 8 = sl_seq s" "word_at (slot_bytes s) 12 = cfg_setpoint ?p"
    "word_at (slot_bytes s) 16 = cfg_kp_milli ?p" "word_at (slot_bytes s) 20 = cfg_ki_milli ?p"
    "word_at (slot_bytes s) 24 = cfg_kd_milli ?p" "word_at (slot_bytes s) 28 = cfg_boot_count ?p"
    "half_at (slot_bytes s) 32 = sl_crc s" "half_at (slot_bytes s) 34 = sl_pad s"
    unfolding b
    using word_at_le32 [of "[]" 0 "sl_magic s"] word_at_le32 [of ?m 4 "sl_version s"]
      word_at_le32 [of "?m @ ?v" 8 "sl_seq s"] word_at_le32 [of "?m @ ?v @ ?q" 12 "cfg_setpoint ?p"]
      word_at_le32 [of "?m @ ?v @ ?q @ ?a" 16 "cfg_kp_milli ?p"]
      word_at_le32 [of "?m @ ?v @ ?q @ ?a @ ?b" 20 "cfg_ki_milli ?p"]
      word_at_le32 [of "?m @ ?v @ ?q @ ?a @ ?b @ ?c" 24 "cfg_kd_milli ?p"]
      word_at_le32 [of "?m @ ?v @ ?q @ ?a @ ?b @ ?c @ ?d" 28 "cfg_boot_count ?p"]
      half_at_le16 [of "?m @ ?v @ ?q @ ?a @ ?b @ ?c @ ?d @ ?e" 32 "sl_crc s"]
      half_at_le16 [of "?m @ ?v @ ?q @ ?a @ ?b @ ?c @ ?d @ ?e @ le16 (sl_crc s)" 34 "sl_pad s" "[]"]
    by (simp_all del: append_Nil2 append.simps add: append_Nil append_Nil2)
  then show ?thesis by (simp add: slot_of_bytes_def)
qed

section \<open>Staging gives what the settings hold\<close>

definition staged :: "'n persist \<Rightarrow> nat \<Rightarrow> gov_config_slot option" where
  "staged p i = (if p_present p i then Some (p_slot p i) else None)"

definition slot_name :: "nat \<Rightarrow> string" where
  "slot_name i = (if i = 0 then ''slot0'' else ''slot1'')"

text \<open>One call of the handler with a stored value.\<close>

lemma set_cb_staged:
  assumes "settings_laws api val" and "i < 2"
  shows "staged (fst (gov_set_cb api p (name, length bs, Inr bs))) i =
    (if name = slot_name i \<and> length bs = SLOT_SIZE then Some (slot_of_bytes bs) else staged p i)"
proof -
  have steq: "fst (sa_name_steq api name key) \<and> snd (sa_name_steq api name key) = None \<longleftrightarrow> name = key" for name key
    using assms(1) by (simp add: settings_laws_def)
  have i: "i = 0 \<or> i = 1" using assms(2) by auto
  have idx: "(if fst (sa_name_steq api name ''slot0'') \<and> snd (sa_name_steq api name ''slot0'') = None then Some 0
      else if fst (sa_name_steq api name ''slot1'') \<and> snd (sa_name_steq api name ''slot1'') = None then Some 1 else None)
      = (if name = ''slot0'' then Some (0 :: nat) else if name = ''slot1'' then Some 1 else None)"
    by (simp only: steq)
  show ?thesis
    unfolding gov_set_cb_def Let_def case_prod_beta fst_conv snd_conv idx
    using i by (auto simp: staged_def slot_name_def)
qed

lemma stage_values:
  assumes "settings_laws api val" and "i < 2"
    and "\<forall>(name, len, got) \<in> set es. \<exists>bs. v name = Some bs \<and> len = length bs \<and> got = Inr bs"
  shows "staged (foldl (\<lambda>q e. fst (gov_set_cb api q e)) p es) i =
    (if slot_name i \<in> fst ` set es \<and> slot_val (v (slot_name i)) \<noteq> None
     then slot_val (v (slot_name i)) else staged p i)"
  using assms(3)
proof (induction es arbitrary: p)
  case Nil
  then show ?case by simp
next
  case (Cons e es)
  obtain name len got where e: "e = (name, len, got)" by (cases e) auto
  then obtain bs where v: "v name = Some bs" "len = length bs" "got = Inr bs" using Cons.prems by auto
  let ?p = "fst (gov_set_cb api p (name, length bs, Inr bs))"
  have "staged (foldl (\<lambda>q e. fst (gov_set_cb api q e)) ?p es) i =
      (if slot_name i \<in> fst ` set es \<and> slot_val (v (slot_name i)) \<noteq> None
       then slot_val (v (slot_name i)) else staged ?p i)"
    using Cons.IH Cons.prems by simp
  moreover have "name = slot_name i \<Longrightarrow> slot_val (v (slot_name i)) =
      (if length bs = SLOT_SIZE then Some (slot_of_bytes bs) else None)"
    using v(1) by (simp add: slot_val_def)
  ultimately show ?case
    using set_cb_staged [OF assms(1,2), of p name bs] by (auto simp: e v(2,3))
qed

lemma nvs_read_val:
  assumes "settings_laws api val" and "idx < 2"
  shows "nvs_read api n idx = slot_val (val n (slot_key idx))"
proof -
  let ?p = "\<lparr> p_slot = (\<lambda>_. zero_slot), p_present = (\<lambda>_. False), p_nvs = n \<rparr>"
  let ?v = "\<lambda>name. val n (''gov/'' @ name)"
  have es: "(name, len, got) \<in> set (sa_entries api n) \<longleftrightarrow> (\<exists>bs. ?v name = Some bs \<and> len = length bs \<and> got = Inr bs)"
    for name len got using assms(1) by (simp add: settings_laws_def)
  have i: "idx = 0 \<or> idx = 1" using slot_index [OF assms(2)] .
  then have k: "''gov/'' @ slot_name (unat idx) = slot_key idx" and lt: "unat idx < 2" and ni: "\<not> 1 < idx"
    by (auto simp: slot_name_def slot_key_def)
  have mem: "slot_name (unat idx) \<in> fst ` set (sa_entries api n) \<longleftrightarrow> ?v (slot_name (unat idx)) \<noteq> None"
    unfolding image_iff by (auto simp: Bex_def es simp del: append.simps)
  have all: "\<forall>(name, len, got) \<in> set (sa_entries api n). \<exists>bs. ?v name = Some bs \<and> len = length bs \<and> got = Inr bs"
    using es by blast
  have none: "staged ?p (unat idx) = None" by (simp add: staged_def)
  have "staged (stage_all api ?p) (unat idx) = slot_val (?v (slot_name (unat idx)))"
    unfolding stage_all_def persist.select_convs stage_values [OF assms(1) lt all] mem none
    by (cases "?v (slot_name (unat idx))") (simp_all only: slot_val_def option.case not_None_eq simp_thms if_False, auto)
  then show ?thesis unfolding k using ni by (simp add: nvs_read_def store_read_def staged_def split: if_splits)
qed

text \<open>So the adapter with the settings below it is a slot store.\<close>

lemma nvs_slot_store:
  assumes "settings_laws api val"
  shows "slot_store (nvs_read api) (nvs_write api)"
proof
  fix m i j s assume i: "(i :: u8) < 2"
  note rv = nvs_read_val [OF assms]
  show "nvs_read api (fst (nvs_write api m i s)) i = Some s" if "snd (nvs_write api m i s)"
    using that assms slot_of_slot_bytes [of s] length_slot_bytes [of s] unfolding rv [OF i]
    by (simp add: nvs_write_def case_prod_beta settings_laws_def slot_val_def)
  assume j: "j < 2" and "i \<noteq> j"
  then have "slot_key j \<noteq> slot_key i" using slot_index [OF i] slot_index [OF j] by (auto simp: slot_key_def)
  then show "nvs_read api (fst (nvs_write api m i s)) j = nvs_read api m j"
    using assms unfolding rv [OF j] by (simp add: nvs_write_def case_prod_beta settings_laws_def)
qed

section \<open>Boot, save, boot again\<close>

lemma stage_reads:
  "store_read (stage_all api (clear_staging p)) idx = nvs_read api (p_nvs p) idx"
proof -
  have "clear_staging p = \<lparr> p_slot = (\<lambda>_. zero_slot), p_present = (\<lambda>_. False), p_nvs = p_nvs p \<rparr>"
    by (cases p) (simp add: clear_staging_def)
  then show ?thesis by (simp add: nvs_read_def)
qed

lemma set_cb_nvs [simp]: "p_nvs (fst (gov_set_cb api p e)) = p_nvs p"
  by (simp add: gov_set_cb_def Let_def case_prod_beta split: option.splits sum.splits)

lemma stage_nvs [simp]: "p_nvs (stage_all api p) = p_nvs p"
proof -
  have "p_nvs (foldl (\<lambda>q e. fst (gov_set_cb api q e)) p es) = p_nvs p" for es
    by (induction es arbitrary: p) simp_all
  then show ?thesis by (simp add: stage_all_def)
qed

lemma init_result:
  assumes "gov_persist_init api p = (Some (c, out), p1, True)"
  shows "p_nvs p1 = p_nvs p" and "\<And>i. store_read p1 i = nvs_read api (p_nvs p) i"
    and "c = fst (gov_config_load (gov_config_init (persist_store api)) p1)" and "out = c_cfg c"
    and "stored (nvs_read api) (p_nvs p) = (c_active_idx c, c_last_seq c, c_cfg c)"
proof -
  have p1: "p1 = stage_all api (clear_staging p)"
    and c: "c = fst (gov_config_load (gov_config_init (persist_store api)) p1)"
    and out: "out = fst (snd (gov_config_load (gov_config_init (persist_store api)) p1))"
    using assms by (auto simp: gov_persist_init_def Let_def case_prod_beta split: if_splits)
  show "p_nvs p1 = p_nvs p" using p1 by (simp add: clear_staging_def)
  show r: "store_read p1 i = nvs_read api (p_nvs p) i" for i using p1 stage_reads by metis
  have rd: "st_read (c_store (gov_config_init (persist_store api))) = Some store_read"
    by (simp add: gov_config_init_def persist_store_def)
  show "c = fst (gov_config_load (gov_config_init (persist_store api)) p1)" by (rule c)
  show "out = c_cfg c" using load_stored(2) [OF rd] out c by simp
  have "stored (nvs_read api) (p_nvs p) = stored store_read p1" using r by (simp add: stored_def)
  then show "stored (nvs_read api) (p_nvs p) = (c_active_idx c, c_last_seq c, c_cfg c)"
    using load_stored(1) [OF rd, of p1] c by simp
qed

lemma save_result:
  assumes "st_write (c_store c) = Some (store_write api)" and "target_slot c < 2"
    and "gov_persist_save c cfg p = (c', p', ok)"
  shows "nvs_write api (p_nvs p) (target_slot c) (make_slot (c_last_seq c + 1) cfg) = (p_nvs p', ok)"
  using assms index_not_above [OF assms(2)]
  by (auto simp: gov_persist_save_def gov_config_save_def store_write_def nvs_write_def slot_key_def Let_def case_prod_beta
      split: if_splits)

text \<open>The slots at the next boot, whatever an interrupted save left behind.\<close>

lemma reboot_stored:
  assumes "slot_store (nvs_read api) (nvs_write api)"
    and "stored (nvs_read api) n = (i, q, old)"
    and "nvs_write api n (i XOR 1) (make_slot (q + 1) cfg) = (n', ok)"
  shows "if ok then stored (nvs_read api) n' = (i XOR 1, q + 1, cfg)
    else snd (snd (stored (nvs_read api) n')) \<in> {old, cfg} \<union>
      remains (nvs_read api n (i XOR 1)) (make_slot (q + 1) cfg) (nvs_read api n' (i XOR 1))"
proof -
  have i: "i = 0 \<or> i = 1" using assms(2) by (rule stored_idx)
  then have lt: "i < 2" "i XOR 1 < 2" "i XOR 1 \<noteq> i" by auto
  have other: "nvs_read api n' i = nvs_read api n i"
    using slot_store.write_other [OF assms(1) lt(2,1,3), of n "make_slot (q + 1) cfg"] assms(3) by simp
  have a: "active_ok (nvs_read api n' i) i q old" using stored_active [OF assms(2)] other by simp
  show ?thesis
  proof (cases ok)
    case True
    then have "nvs_read api n' (i XOR 1) = Some (make_slot (q + 1) cfg)"
      using slot_store.write_landed [OF assms(1) lt(2), of n "make_slot (q + 1) cfg"] assms(3) by simp
    with True stored_cases(1) [where rd = "nvs_read api" and m = n', OF i a] show ?thesis by simp
  next
    case False
    have "stored (nvs_read api) n' = stored (nvs_read api) n"
      if "nvs_read api n' (i XOR 1) = nvs_read api n (i XOR 1)"
      using that other i by (auto simp: stored_def)
    with False stored_any [where rd = "nvs_read api" and m = n', OF i a] assms(2) show ?thesis
      by (auto simp: remains_def split: if_splits)
  qed
qed

section \<open>Properties\<close>


text \<open>
  A settings subsystem that keeps two values. A save while \<open>d_cut\<close> is set stores only that many
  bytes and fails.
\<close>

record demo_nvs =
  d_slot0 :: "u8 list option"
  d_slot1 :: "u8 list option"
  d_cut :: "nat option"

definition demo_val :: "demo_nvs \<Rightarrow> string \<Rightarrow> u8 list option" where
  "demo_val n key = (if key = ''gov/slot0'' then d_slot0 n else if key = ''gov/slot1'' then d_slot1 n else None)"

definition demo_save :: "demo_nvs \<Rightarrow> string \<Rightarrow> u8 list \<Rightarrow> demo_nvs \<times> int" where
  "demo_save n key b =
     (let b' = (case d_cut n of None \<Rightarrow> b | Some k \<Rightarrow> take k b);
          rc = (case d_cut n of None \<Rightarrow> 0 | Some k \<Rightarrow> - EIO)
      in if key = ''gov/slot0'' then (n\<lparr> d_slot0 := Some b', d_cut := None \<rparr>, rc)
         else if key = ''gov/slot1'' then (n\<lparr> d_slot1 := Some b', d_cut := None \<rparr>, rc) else (n, - EINVAL))"

definition demo_api :: "demo_nvs settings_api" where
  "demo_api = \<lparr> sa_subsys_init = (\<lambda>_. 0), sa_load = (\<lambda>_. 0),
     sa_entries = (\<lambda>n. (case d_slot0 n of None \<Rightarrow> [] | Some b \<Rightarrow> [(''slot0'', length b, Inr b)]) @
                       (case d_slot1 n of None \<Rightarrow> [] | Some b \<Rightarrow> [(''slot1'', length b, Inr b)])),
     sa_name_steq = (\<lambda>name key. (name = key, None)),
     sa_save_one = demo_save \<rparr>"

lemma demo_laws: "settings_laws demo_api demo_val"
  by (auto simp: settings_laws_def demo_api_def demo_val_def demo_save_def Let_def EIO_def EINVAL_def
      split: option.splits if_splits)

text \<open>
  From a store that holds one configuration: a save that completes is what the next boot gives, and
  after a save cut off in the middle of the slot the next boot gives the old configuration or the
  new one.
\<close>

lemma demo_boots: "\<exists>c out p1. gov_persist_init demo_api p = (Some (c, out), p1, True)"
  by (simp add: gov_persist_init_def Let_def case_prod_beta) (simp add: demo_api_def)

definition demo_config :: gov_config where
  "demo_config = GOV_CONFIG_DEFAULTS\<lparr> cfg_setpoint := 73 \<rparr>"

definition demo_flash :: "nat option \<Rightarrow> demo_nvs persist" where
  "demo_flash k = \<lparr> p_slot = (\<lambda>_. zero_slot), p_present = (\<lambda>_. False),
     p_nvs = \<lparr> d_slot0 = None, d_slot1 = Some (slot_bytes (make_slot 1 demo_config)), d_cut = k \<rparr> \<rparr>"

lemma demo_boot_config:
  assumes "gov_persist_init demo_api (demo_flash k) = (Some (c, out), p1, True)"
  shows "out = demo_config" and "target_slot c = 0" and "c_last_seq c = 1"
    and "p_nvs p1 = p_nvs (demo_flash k)" and "st_write (c_store c) = Some (store_write demo_api)"
proof -
  note r = init_result [OF assms]
  have "nvs_read demo_api (p_nvs (demo_flash k)) 0 = None"
    "nvs_read demo_api (p_nvs (demo_flash k)) 1 = Some (make_slot 1 demo_config)"
    using nvs_read_val [OF demo_laws, of 0] nvs_read_val [OF demo_laws, of 1]
    by (simp_all add: slot_val_def demo_val_def slot_key_def demo_flash_def slot_of_slot_bytes)
  then have "stored (nvs_read demo_api) (p_nvs (demo_flash k)) = (1, 1, demo_config)"
    by (simp add: stored_def best_def)
  with r(5) have c: "c_active_idx c = 1" "c_last_seq c = 1" "c_cfg c = demo_config" by simp_all
  with r(4) show "out = demo_config" "c_last_seq c = 1" by simp_all
  show "p_nvs p1 = p_nvs (demo_flash k)" by (rule r(1))
  show "st_write (c_store c) = Some (store_write demo_api)"
    using r(3) load_stored(4) [of "gov_config_init (persist_store demo_api)" store_read p1]
    by (simp add: gov_config_init_def persist_store_def)
  have "c_valid c"
    using r(3) load_stored(3) [of "gov_config_init (persist_store demo_api)" store_read p1]
    by (simp add: gov_config_init_def persist_store_def)
  with c(1) show "target_slot c = 0" by (simp add: target_slot_def)
qed


end
