(* ===== verification/Gov_Sender.thy ===== *)
theory Gov_Sender
  imports Gov_Reliable
begin

text \<open>
  The operations of the sender, \<^verbatim>\<open>lib/proto/reliable.c\<close>, statement by statement. Three threads use
  the sender without a lock, so a thread may be preempted between any two statements of an
  operation. A program point holds the parameters and local variables that are still needed; a
  step evaluates one condition or executes one statement, and the wire callback writes one byte
  per step, read from the buffer of the sender at that moment. A read past the buffer is \<open>None\<close>.
  The call of the frame encoder is one step. Executed without interruption, each operation is the
  one of \<open>Gov_Reliable\<close>.
\<close>

section \<open>Program points\<close>

datatype send_pc =
    S_State u8 "u8 list ptr" u16 u32
  | S_Encode u8 "u8 list ptr" u16 u32
  | S_Len nat u32
  | S_Cur u32
  | S_Next u32
  | S_Retries u32
  | S_Stamp u32
  | S_Wait
  | S_Wire
  | S_Bytes nat nat
  | S_Done gov_tx_status

datatype ack_pc = A_State u8 | A_Seq u8 | A_Idle | A_Done

datatype poll_pc =
    P_State u32
  | P_Age u32
  | P_Retries u32
  | P_Fault
  | P_Count u32
  | P_Stamp u32
  | P_Wire
  | P_Bytes nat nat
  | P_Return
  | P_Done gov_tx_state

datatype clear_pc = K_State | K_Idle | K_Done

section \<open>Steps\<close>

text \<open>A byte on its way to the wire: what is being written, and the index of the byte in it.\<close>

type_synonym wire_byte = "u8 list \<times> nat"

definition wire_read :: "gov_tx \<Rightarrow> nat \<Rightarrow> nat \<Rightarrow> wire_byte option" where
  "wire_read tx i n = (if i < length (tx_frame tx) then Some (take n (tx_frame tx), i) else None)"

fun send_step :: "gov_tx \<Rightarrow> send_pc \<Rightarrow> (gov_tx \<times> send_pc \<times> wire_byte list) option" where
  "send_step tx (S_State type payload len now) =
     (if \<not> tx_wire tx \<or> tx_state tx \<noteq> GOV_TX_IDLE then Some (tx, S_Done GOV_TX_BUSY, [])
      else Some (tx, S_Encode type payload len now, []))"
| "send_step tx (S_Encode type payload len now) =
     (let (buf, n) = gov_frame_encode type (tx_next_seq tx) payload len (Some (tx_frame tx)) (length (tx_frame tx));
          tx1 = tx\<lparr> tx_frame := the buf \<rparr>
      in Some (tx1, if n = 0 then S_Done GOV_TX_ENCODE_ERR else S_Len n now, []))"
| "send_step tx (S_Len n now) = Some (tx\<lparr> tx_frame_len := n \<rparr>, S_Cur now, [])"
| "send_step tx (S_Cur now) = Some (tx\<lparr> tx_cur_seq := tx_next_seq tx \<rparr>, S_Next now, [])"
| "send_step tx (S_Next now) = Some (tx\<lparr> tx_next_seq := tx_next_seq tx + 1 \<rparr>, S_Retries now, [])"
| "send_step tx (S_Retries now) = Some (tx\<lparr> tx_retries := 0 \<rparr>, S_Stamp now, [])"
| "send_step tx (S_Stamp now) = Some (tx\<lparr> tx_last_tx_ms := now \<rparr>, S_Wait, [])"
| "send_step tx S_Wait = Some (tx\<lparr> tx_state := GOV_TX_WAIT_ACK \<rparr>, S_Wire, [])"
| "send_step tx S_Wire = Some (tx, S_Bytes 0 (tx_frame_len tx), [])"
| "send_step tx (S_Bytes i n) =
     (if i < n then map_option (\<lambda>x. (tx, S_Bytes (i + 1) n, [x])) (wire_read tx i n)
      else Some (tx, S_Done GOV_TX_OK, []))"
| "send_step tx (S_Done st) = Some (tx, S_Done st, [])"

fun ack_step :: "gov_tx \<Rightarrow> ack_pc \<Rightarrow> gov_tx \<times> ack_pc" where
  "ack_step tx (A_State q) = (tx, if tx_state tx = GOV_TX_WAIT_ACK then A_Seq q else A_Done)"
| "ack_step tx (A_Seq q) = (tx, if q = tx_cur_seq tx then A_Idle else A_Done)"
| "ack_step tx A_Idle = (tx\<lparr> tx_state := GOV_TX_IDLE \<rparr>, A_Done)"
| "ack_step tx A_Done = (tx, A_Done)"

fun poll_step :: "gov_tx \<Rightarrow> poll_pc \<Rightarrow> (gov_tx \<times> poll_pc \<times> wire_byte list) option" where
  "poll_step tx (P_State now) = Some (tx, if tx_state tx \<noteq> GOV_TX_WAIT_ACK then P_Return else P_Age now, [])"
| "poll_step tx (P_Age now) =
     Some (tx, if now - tx_last_tx_ms tx < GOV_ACK_TIMEOUT_MS then P_Return else P_Retries now, [])"
| "poll_step tx (P_Retries now) = Some (tx, if tx_retries tx \<ge> GOV_MAX_RETRIES then P_Fault else P_Count now, [])"
| "poll_step tx P_Fault = Some (tx\<lparr> tx_state := GOV_TX_LINK_FAULT \<rparr>, P_Return, [])"
| "poll_step tx (P_Count now) = Some (tx\<lparr> tx_retries := tx_retries tx + 1 \<rparr>, P_Stamp now, [])"
| "poll_step tx (P_Stamp now) = Some (tx\<lparr> tx_last_tx_ms := now \<rparr>, P_Wire, [])"
| "poll_step tx P_Wire = Some (tx, P_Bytes 0 (tx_frame_len tx), [])"
| "poll_step tx (P_Bytes i n) =
     (if i < n then map_option (\<lambda>x. (tx, P_Bytes (i + 1) n, [x])) (wire_read tx i n)
      else Some (tx, P_Return, []))"
| "poll_step tx P_Return = Some (tx, P_Done (tx_state tx), [])"
| "poll_step tx (P_Done st) = Some (tx, P_Done st, [])"

fun clear_step :: "gov_tx \<Rightarrow> clear_pc \<Rightarrow> gov_tx \<times> clear_pc" where
  "clear_step tx K_State = (tx, if tx_state tx = GOV_TX_LINK_FAULT then K_Idle else K_Done)"
| "clear_step tx K_Idle = (tx\<lparr> tx_state := GOV_TX_IDLE \<rparr>, K_Done)"
| "clear_step tx K_Done = (tx, K_Done)"

section \<open>Execution without interruption\<close>

fun exec :: "('s \<Rightarrow> 'p \<Rightarrow> ('s \<times> 'p \<times> 'o list) option) \<Rightarrow> nat \<Rightarrow> 's \<Rightarrow> 'p \<Rightarrow> ('s \<times> 'p \<times> 'o list) option" where
  "exec f 0 s p = Some (s, p, [])"
| "exec f (Suc k) s p =
     (case f s p of None \<Rightarrow> None
      | Some (s1, p1, o1) \<Rightarrow> map_option (\<lambda>(s2, p2, o2). (s2, p2, o1 @ o2)) (exec f k s1 p1))"

lemma exec_trans:
  assumes "exec f j s p = Some (s1, p1, o1)" and "exec f k s1 p1 = Some (s2, p2, o2)"
  shows "exec f (j + k) s p = Some (s2, p2, o1 @ o2)"
  using assms by (induction j arbitrary: s p o1) (auto split: option.splits prod.splits)

text \<open>The bytes that reach the wire.\<close>

definition byte_of :: "wire_byte \<Rightarrow> u8" where
  "byte_of x = fst x ! snd x"

lemma bytes_of_write [simp]: "map byte_of (map (Pair w) [0..<length w]) = w"
  by (simp add: byte_of_def comp_def map_nth)

text \<open>A loop that writes one byte per step.\<close>

lemma byte_loop:
  assumes "\<And>i. i < n \<Longrightarrow> f tx (pc i) = Some (tx, pc (Suc i), [(w, i)])" and "i + k \<le> n"
  shows "exec f k tx (pc i) = Some (tx, pc (i + k), map (Pair w) [i..<i + k])"
  using assms(2)
proof (induction k arbitrary: i)
  case (Suc k)
  then show ?case using Suc.IH [of "Suc i"] assms(1) [of i] by (simp add: upt_conv_Cons)
qed simp

lemma send_bytes:
  assumes "n \<le> length (tx_frame tx)"
  shows "exec send_step n tx (S_Bytes 0 n) = Some (tx, S_Bytes n n, map (Pair (take n (tx_frame tx))) [0..<n])"
  using byte_loop [of n send_step tx "\<lambda>i. S_Bytes i n" "take n (tx_frame tx)" 0 n] assms by (simp add: wire_read_def)

lemma poll_bytes:
  assumes "n \<le> length (tx_frame tx)"
  shows "exec poll_step n tx (P_Bytes 0 n) = Some (tx, P_Bytes n n, map (Pair (take n (tx_frame tx))) [0..<n])"
  using byte_loop [of n poll_step tx "\<lambda>i. P_Bytes i n" "take n (tx_frame tx)" 0 n] assms by (simp add: wire_read_def)

text \<open>
  The sender in any interleaving: the buffer has its size and what is written fits it. This is
  weaker than the invariant of the operations as a whole.
\<close>

definition tx_mem :: "gov_tx \<Rightarrow> bool" where
  "tx_mem tx \<longleftrightarrow>
     tx_wire tx \<and> length (tx_frame tx) = GOV_FRAME_MAX \<and> tx_frame_len tx \<le> GOV_FRAME_MAX \<and> tx_retries tx \<le> GOV_MAX_RETRIES"

lemma tx_mem_idle: "tx_mem tx \<Longrightarrow> tx_state tx = GOV_TX_IDLE \<Longrightarrow> tx_inv tx"
  by (simp add: tx_mem_def tx_inv_def)

lemma encode_fits:
  assumes "gov_frame_encode ty q p len (Some buf) (length buf) = (buf', n)" and "p = Some bs" and "unat len \<le> length bs"
    and "length buf = GOV_FRAME_MAX"
  shows "\<exists>b. buf' = Some b \<and> length b = GOV_FRAME_MAX \<and>
    (n = 0 \<and> b = buf \<or> n \<le> GOV_FRAME_MAX \<and> (\<exists>f. frame_ok f \<and> f_type f = ty \<and> f_seq f = q \<and>
      f_payload f = take (unat len) bs \<and> take n b = frame_bytes f \<and> length (frame_bytes f) = n))"
proof (cases "unat len \<le> GOV_MAX_PAYLOAD")
  case True
  let ?f = "Frame ty q (take (unat len) bs)"
  have "8 + unat len \<le> length buf" using True assms(4) by (simp add: GOV_MAX_PAYLOAD_def GOV_FRAME_MAX_def gov_defs)
  with encode_success [OF True, of p "length buf" buf ty q] assms
  have e: "buf' = Some (frame_bytes ?f @ drop (8 + unat len) buf)" "n = 8 + unat len" by auto
  have l: "length (frame_bytes ?f) = n" using assms(3) e(2) by (simp add: frame_bytes_def frame_body_def Let_def)
  moreover have "n \<le> GOV_FRAME_MAX" using e(2) \<open>8 + unat len \<le> length buf\<close> assms(4) by simp
  ultimately show ?thesis using e assms(3,4) True
    by (auto simp: frame_ok_def intro!: exI [of _ ?f])
next
  case False
  then show ?thesis using assms by (auto simp: gov_frame_encode_def)
qed

section \<open>Each operation is its statements\<close>

lemma send_exec:
  assumes "tx_mem tx" and "gov_tx_send tx type (Some bs) len now = (tx', ws, st)" and "unat len \<le> length bs"
  shows "\<exists>k out. exec send_step k tx (S_State type (Some bs) len now) = Some (tx', S_Done st, out) \<and>
    map byte_of out = concat ws"
proof (cases "tx_state tx = GOV_TX_IDLE")
  case False
  then have "tx' = tx" "ws = []" "st = GOV_TX_BUSY" using assms(2) by (simp_all add: gov_tx_send_def split: if_splits)
  with False show ?thesis by (intro exI [of _ 1] exI [of _ "[]"]) simp
next
  case True
  obtain buf n where e: "gov_frame_encode type (tx_next_seq tx) (Some bs) len (Some (tx_frame tx)) (length (tx_frame tx)) = (buf, n)"
    by fastforce
  have w: "tx_wire tx" and l: "length (tx_frame tx) = GOV_FRAME_MAX" using assms(1) by (simp_all add: tx_mem_def)
  from encode_fits [OF e refl assms(3) l] obtain b where b: "buf = Some b" "length b = GOV_FRAME_MAX" "n \<le> GOV_FRAME_MAX"
    by auto
  show ?thesis
  proof (cases "n = 0")
    case True
    then have "tx' = tx\<lparr> tx_frame := b \<rparr>" "ws = []" "st = GOV_TX_ENCODE_ERR"
      using assms(2) \<open>tx_state tx = GOV_TX_IDLE\<close> w e b(1) by (simp_all add: gov_tx_send_def)
    with True show ?thesis using \<open>tx_state tx = GOV_TX_IDLE\<close> w e b(1)
      by (intro exI [of _ 2] exI [of _ "[]"]) (simp add: numeral_2_eq_2)
  next
    case False
    let ?tx = "tx\<lparr> tx_frame := b, tx_frame_len := n, tx_cur_seq := tx_next_seq tx, tx_next_seq := tx_next_seq tx + 1,
      tx_retries := 0, tx_last_tx_ms := now, tx_state := GOV_TX_WAIT_ACK \<rparr>"
    have r: "tx' = ?tx" "ws = [take n b]" "st = GOV_TX_OK"
      using assms(2) True w e b(1) False by (auto simp: gov_tx_send_def Let_def)
    have "exec send_step 9 tx (S_State type (Some bs) len now) = Some (?tx, S_Bytes 0 n, [])"
      using True w e b(1) False by (simp add: eval_nat_numeral)
    from exec_trans [OF this send_bytes] b(2,3)
    have "exec send_step (9 + n) tx (S_State type (Some bs) len now) =
        Some (?tx, S_Bytes n n, map (Pair (take n b)) [0..<n])" by simp
    from exec_trans [OF this, of 1] have "exec send_step (9 + n + 1) tx (S_State type (Some bs) len now) =
        Some (?tx, S_Done GOV_TX_OK, map (Pair (take n b)) [0..<n])" by simp
    moreover have "map byte_of (map (Pair (take n b)) [0..<n]) = take n b"
      using bytes_of_write [of "take n b"] b(2,3) by simp
    ultimately show ?thesis using r by (intro exI [of _ "9 + n + 1"] exI [of _ "map (Pair (take n b)) [0..<n]"]) simp
  qed
qed

lemma poll_exec:
  assumes "tx_mem tx" and "gov_tx_poll tx now = (tx', ws, st)"
  shows "\<exists>k out. exec poll_step k tx (P_State now) = Some (tx', P_Done st, out) \<and> map byte_of out = concat ws"
proof -
  let ?n = "tx_frame_len tx" and ?old = "now - tx_last_tx_ms tx < GOV_ACK_TIMEOUT_MS"
  consider (idle) "tx_state tx \<noteq> GOV_TX_WAIT_ACK" | (young) "tx_state tx = GOV_TX_WAIT_ACK" ?old
    | (fault) "tx_state tx = GOV_TX_WAIT_ACK" "\<not> ?old" "tx_retries tx \<ge> GOV_MAX_RETRIES"
    | (again) "tx_state tx = GOV_TX_WAIT_ACK" "\<not> ?old" "\<not> tx_retries tx \<ge> GOV_MAX_RETRIES" by blast
  then show ?thesis
  proof cases
    case idle
    then have "tx' = tx" "ws = []" "st = tx_state tx" using assms(2) by (auto simp: gov_tx_poll_def)
    with idle show ?thesis by (intro exI [of _ 2] exI [of _ "[]"]) (simp add: eval_nat_numeral)
  next
    case young
    then have "tx' = tx" "ws = []" "st = tx_state tx" using assms(2) by (simp_all add: gov_tx_poll_def)
    with young show ?thesis by (intro exI [of _ 3] exI [of _ "[]"]) (simp add: eval_nat_numeral)
  next
    case fault
    then have "tx' = tx\<lparr> tx_state := GOV_TX_LINK_FAULT \<rparr>" "ws = []" "st = GOV_TX_LINK_FAULT"
      using assms(2) by (simp_all add: gov_tx_poll_def)
    with fault show ?thesis by (intro exI [of _ 5] exI [of _ "[]"]) (simp add: eval_nat_numeral)
  next
    case again
    let ?tx = "tx\<lparr> tx_retries := tx_retries tx + 1, tx_last_tx_ms := now \<rparr>"
    have r: "tx' = ?tx" "ws = [take ?n (tx_frame tx)]" "st = tx_state tx"
      using assms(2) again by (simp_all add: gov_tx_poll_def Let_def)
    have l: "?n \<le> length (tx_frame ?tx)" using assms(1) by (simp add: tx_mem_def)
    have "exec poll_step 6 tx (P_State now) = Some (?tx, P_Bytes 0 ?n, [])"
      using again by (simp add: eval_nat_numeral)
    from exec_trans [OF this poll_bytes [OF l]]
    have "exec poll_step (6 + ?n) tx (P_State now) = Some (?tx, P_Bytes ?n ?n, map (Pair (take ?n (tx_frame tx))) [0..<?n])"
      by simp
    from exec_trans [OF this, of 2]
    have "exec poll_step (6 + ?n + 2) tx (P_State now) =
        Some (?tx, P_Done (tx_state tx), map (Pair (take ?n (tx_frame tx))) [0..<?n])"
      by (simp add: numeral_2_eq_2)
    moreover have "map byte_of (map (Pair (take ?n (tx_frame tx))) [0..<?n]) = take ?n (tx_frame tx)"
      using bytes_of_write [of "take ?n (tx_frame tx)"] l by simp
    ultimately show ?thesis using r
      by (intro exI [of _ "6 + ?n + 2"] exI [of _ "map (Pair (take ?n (tx_frame tx))) [0..<?n]"]) simp
  qed
qed

lemma ack_exec: "\<exists>k. ((\<lambda>(tx, pc). ack_step tx pc) ^^ k) (tx, A_State q) = (gov_tx_on_ack tx q, A_Done)"
  by (rule exI [of _ 3]) (simp add: eval_nat_numeral gov_tx_on_ack_def)

lemma clear_exec: "\<exists>k. ((\<lambda>(tx, pc). clear_step tx pc) ^^ k) (tx, K_State) = (gov_tx_clear_fault tx, K_Done)"
  by (rule exI [of _ 2]) (simp add: eval_nat_numeral gov_tx_clear_fault_def)

section \<open>What every interleaving keeps\<close>

text \<open>
  What a thread may rely on at a point of an operation whatever the others do. While the telemetry
  thread is in the middle of a send, the buffer is its own: it holds one complete frame.
\<close>

definition is_frame :: "u8 list \<Rightarrow> bool" where
  "is_frame w \<longleftrightarrow> (\<exists>f. frame_ok f \<and> w = frame_bytes f)"

fun send_ok :: "gov_tx \<Rightarrow> send_pc \<Rightarrow> bool" where
  "send_ok tx (S_State ty p len t) \<longleftrightarrow> (\<exists>bs. p = Some bs \<and> unat len \<le> length bs)"
| "send_ok tx (S_Encode ty p len t) \<longleftrightarrow> (\<exists>bs. p = Some bs \<and> unat len \<le> length bs)"
| "send_ok tx (S_Len n t) \<longleftrightarrow> n \<le> GOV_FRAME_MAX \<and> is_frame (take n (tx_frame tx))"
| "send_ok tx (S_Bytes i n) \<longleftrightarrow> n \<le> GOV_FRAME_MAX \<and> is_frame (take n (tx_frame tx))"
| "send_ok tx (S_Done st) \<longleftrightarrow> True"
| "send_ok tx pc \<longleftrightarrow> is_frame (take (tx_frame_len tx) (tx_frame tx))"

fun poll_ok :: "gov_tx \<Rightarrow> poll_pc \<Rightarrow> bool" where
  "poll_ok tx (P_Count t) \<longleftrightarrow> tx_retries tx < GOV_MAX_RETRIES"
| "poll_ok tx (P_Bytes i n) \<longleftrightarrow> n \<le> GOV_FRAME_MAX"
| "poll_ok tx pc \<longleftrightarrow> True"

lemma send_ok_cong: "tx_frame tx' = tx_frame tx \<Longrightarrow> tx_frame_len tx' = tx_frame_len tx \<Longrightarrow> send_ok tx' pc = send_ok tx pc"
  by (cases pc) simp_all

lemma poll_ok_cong: "tx_retries tx' = tx_retries tx \<Longrightarrow> poll_ok tx' pc = poll_ok tx pc"
  by (cases pc) simp_all

text \<open>The points of one thread are indifferent to the fields that it does not rely on.\<close>

lemma poll_ok_fields [simp]:
  "poll_ok (tx\<lparr> tx_frame := w \<rparr>) pc = poll_ok tx pc" "poll_ok (tx\<lparr> tx_frame_len := n \<rparr>) pc = poll_ok tx pc"
  "poll_ok (tx\<lparr> tx_cur_seq := q \<rparr>) pc = poll_ok tx pc" "poll_ok (tx\<lparr> tx_next_seq := q \<rparr>) pc = poll_ok tx pc"
  "poll_ok (tx\<lparr> tx_last_tx_ms := t \<rparr>) pc = poll_ok tx pc" "poll_ok (tx\<lparr> tx_state := st \<rparr>) pc = poll_ok tx pc"
  by (rule poll_ok_cong, simp)+

lemma send_ok_fields [simp]:
  "send_ok (tx\<lparr> tx_retries := k \<rparr>) pc = send_ok tx pc" "send_ok (tx\<lparr> tx_last_tx_ms := t \<rparr>) pc = send_ok tx pc"
  "send_ok (tx\<lparr> tx_state := st \<rparr>) pc = send_ok tx pc"
  by (rule send_ok_cong, simp, simp)+

lemma send_step_ok:
  assumes "tx_mem tx" and "send_ok tx pc"
  shows "\<exists>tx' pc' out. send_step tx pc = Some (tx', pc', out) \<and> tx_mem tx' \<and> send_ok tx' pc' \<and>
    (\<forall>x \<in> set out. is_frame (fst x) \<and> snd x < length (fst x)) \<and> (\<forall>qc. poll_ok tx qc \<longrightarrow> poll_ok tx' qc)"
proof (cases pc)
  case (S_Encode ty p len t)
  then obtain bs where bs: "p = Some bs" "unat len \<le> length bs" using assms(2) by auto
  obtain buf n where e: "gov_frame_encode ty (tx_next_seq tx) p len (Some (tx_frame tx)) (length (tx_frame tx)) = (buf, n)"
    by fastforce
  have l: "length (tx_frame tx) = GOV_FRAME_MAX" using assms(1) by (simp add: tx_mem_def)
  from encode_fits [OF e bs l] obtain b where b: "buf = Some b" "length b = GOV_FRAME_MAX"
    "n \<noteq> 0 \<Longrightarrow> n \<le> GOV_FRAME_MAX \<and> is_frame (take n b)"
    by (auto simp: is_frame_def)
  then show ?thesis using S_Encode e assms(1) by (auto simp: tx_mem_def)
next
  case (S_Bytes i n)
  then have n: "n \<le> length (tx_frame tx)" "is_frame (take n (tx_frame tx))" using assms by (auto simp: tx_mem_def)
  then show ?thesis using S_Bytes assms by (auto simp: wire_read_def)
next
  case (S_Retries t)
  have "poll_ok tx qc \<longrightarrow> poll_ok (tx\<lparr> tx_retries := 0 \<rparr>) qc" for qc by (cases qc) (simp_all add: GOV_MAX_RETRIES_def)
  with S_Retries assms show ?thesis by (auto simp: tx_mem_def)
qed (use assms in \<open>auto simp: tx_mem_def\<close>)

lemma poll_step_ok:
  assumes "tx_mem tx" and "poll_ok tx pc"
  shows "\<exists>tx' pc' out. poll_step tx pc = Some (tx', pc', out) \<and> tx_mem tx' \<and> poll_ok tx' pc' \<and>
    (\<forall>x \<in> set out. snd x < length (fst x)) \<and> (\<forall>qc. send_ok tx qc \<longrightarrow> send_ok tx' qc)"
proof (cases pc)
  case (P_Count t)
  then have "tx_retries tx + 1 \<le> GOV_MAX_RETRIES" using assms(2) by (auto intro: inc_le)
  with P_Count assms(1) show ?thesis by (simp add: tx_mem_def)
next
  case (P_Bytes i n)
  then have "n \<le> length (tx_frame tx)" using assms by (auto simp: tx_mem_def)
  then show ?thesis using P_Bytes assms by (auto simp: wire_read_def)
qed (use assms in \<open>auto simp: tx_mem_def not_le\<close>)

lemma ack_step_ok:
  assumes "tx_mem tx"
  shows "tx_mem (fst (ack_step tx pc)) \<and> (\<forall>qc. send_ok tx qc \<longrightarrow> send_ok (fst (ack_step tx pc)) qc) \<and>
    (\<forall>rc. poll_ok tx rc \<longrightarrow> poll_ok (fst (ack_step tx pc)) rc)"
  using assms by (cases pc) (auto simp: tx_mem_def)

lemma clear_step_ok:
  assumes "tx_mem tx"
  shows "tx_mem (fst (clear_step tx pc)) \<and> (\<forall>qc. send_ok tx qc \<longrightarrow> send_ok (fst (clear_step tx pc)) qc)"
  using assms by (cases pc) (auto simp: tx_mem_def)

text \<open>
  A race between poll and acknowledgement: the poll has found the last retry overdue, and the
  acknowledgement of that frame is processed before the poll writes its verdict. The frame is
  acknowledged, and the poll latches the link fault all the same. With the acknowledgement first,
  the poll as a whole reports no fault.
\<close>

lemma late_ack_overwritten:
  assumes "tx_state tx = GOV_TX_WAIT_ACK" and "GOV_ACK_TIMEOUT_MS \<le> now - tx_last_tx_ms tx" and "GOV_MAX_RETRIES \<le> tx_retries tx"
  shows "\<exists>tx1. exec poll_step 3 tx (P_State now) = Some (tx, P_Fault, []) \<and>
    ((\<lambda>(tx, pc). ack_step tx pc) ^^ 3) (tx, A_State (tx_cur_seq tx)) = (tx1, A_Done) \<and> tx_state tx1 = GOV_TX_IDLE \<and>
    exec poll_step 2 tx1 P_Fault = Some (tx1\<lparr> tx_state := GOV_TX_LINK_FAULT \<rparr>, P_Done GOV_TX_LINK_FAULT, []) \<and>
    snd (snd (gov_tx_poll (gov_tx_on_ack tx (tx_cur_seq tx)) now)) = GOV_TX_IDLE"
  using assms
  by (intro exI [of _ "tx\<lparr> tx_state := GOV_TX_IDLE \<rparr>"])
    (simp add: eval_nat_numeral gov_tx_poll_def gov_tx_on_ack_def not_less)

section \<open>Properties\<close>



end
