(* ===== verification/Gov_Ring.thy ===== *)
theory Gov_Ring
  imports Gov_Telem
begin

text \<open>
  The telemetry ring, \<^verbatim>\<open>lib/telem/ring.h\<close> and \<^verbatim>\<open>lib/telem/ring.c\<close> with the constants of
  \<^verbatim>\<open>lib/telem/telem_config.h\<close>: eight records in nine slots, one producer and one consumer. The ring
  is refined to a list; the interface \<open>bounded_queue\<close> states what the users rely on. The second
  half splits a push and a pop into their single loads and stores, the copies of a record into the
  copies of its fields in any order, and lets them interleave, since the header promises that the
  two sides need no lock. The accesses take effect in program order (sequential consistency): the
  indices are plain \<^verbatim>\<open>uint32_t\<close>, so this is what the single-core target gives, and reordering by a
  compiler or a second core is outside the model.
\<close>

section \<open>The code\<close>

definition GOV_TELEM_RING_DEPTH :: u32 where [gov_defs]: "GOV_TELEM_RING_DEPTH = 8"
definition GOV_TELEM_RING_SLOTS :: u32 where
  [gov_defs]: "GOV_TELEM_RING_SLOTS = GOV_TELEM_RING_DEPTH + 1"

record gov_telem_ring =
  r_buf :: "gov_telem_record list"
  r_head :: u32
  r_tail :: u32
  r_drops :: u32

definition next_slot :: "u32 \<Rightarrow> u32" where
  "next_slot idx = (let n = idx + 1 in if n = GOV_TELEM_RING_SLOTS then 0 else n)"

definition gov_telem_ring_init :: "gov_telem_ring \<Rightarrow> gov_telem_ring" where
  "gov_telem_ring_init r = r\<lparr> r_head := 0, r_tail := 0, r_drops := 0 \<rparr>"

definition gov_telem_ring_push :: "gov_telem_ring \<Rightarrow> gov_telem_record \<Rightarrow> gov_telem_ring \<times> bool" where
  "gov_telem_ring_push r rec =
     (let h = r_head r in
      if next_slot h = r_tail r then (r\<lparr> r_drops := r_drops r + 1 \<rparr>, False)
      else (r\<lparr> r_buf := (r_buf r)[unat h := rec], r_head := next_slot h \<rparr>, True))"

text \<open>The result holds what is in \<open>*out\<close> afterwards.\<close>

definition gov_telem_ring_pop ::
  "gov_telem_ring \<Rightarrow> gov_telem_record \<Rightarrow> gov_telem_ring \<times> gov_telem_record \<times> bool" where
  "gov_telem_ring_pop r out =
     (let t = r_tail r in
      if t = r_head r then (r, out, False)
      else (r\<lparr> r_tail := next_slot t \<rparr>, r_buf r ! unat t, True))"

definition gov_telem_ring_count :: "gov_telem_ring \<Rightarrow> u32" where
  "gov_telem_ring_count r = (r_head r - r_tail r + GOV_TELEM_RING_SLOTS) mod GOV_TELEM_RING_SLOTS"

definition gov_telem_ring_empty :: "gov_telem_ring \<Rightarrow> bool" where
  "gov_telem_ring_empty r \<longleftrightarrow> r_head r = r_tail r"

definition gov_telem_ring_full :: "gov_telem_ring \<Rightarrow> bool" where
  "gov_telem_ring_full r \<longleftrightarrow> next_slot (r_head r) = r_tail r"

definition gov_telem_ring_drops :: "gov_telem_ring \<Rightarrow> u32" where
  "gov_telem_ring_drops r = r_drops r"

text \<open>The null-pointer guards of the interface.\<close>

definition gov_telem_ring_init_ptr :: "gov_telem_ring ptr \<Rightarrow> gov_telem_ring ptr \<times> unit" where
  "gov_telem_ring_init_ptr = with_ptr () (\<lambda>r. (gov_telem_ring_init r, ()))"

definition gov_telem_ring_push_ptr ::
  "gov_telem_ring ptr \<Rightarrow> gov_telem_record ptr \<Rightarrow> gov_telem_ring ptr \<times> bool" where
  "gov_telem_ring_push_ptr r rec =
     (case rec of None \<Rightarrow> (r, False) | Some x \<Rightarrow> with_ptr False (\<lambda>r. gov_telem_ring_push r x) r)"

definition gov_telem_ring_pop_ptr ::
  "gov_telem_ring ptr \<Rightarrow> gov_telem_record ptr \<Rightarrow> gov_telem_ring ptr \<times> gov_telem_record ptr \<times> bool" where
  "gov_telem_ring_pop_ptr r out =
     (case (r, out) of
        (Some q, Some x) \<Rightarrow> (let (q', x', ok) = gov_telem_ring_pop q x in (Some q', Some x', ok))
      | _ \<Rightarrow> (r, out, False))"

definition gov_telem_ring_count_ptr :: "gov_telem_ring ptr \<Rightarrow> u32" where
  "gov_telem_ring_count_ptr = read_ptr 0 gov_telem_ring_count"

definition gov_telem_ring_empty_ptr :: "gov_telem_ring ptr \<Rightarrow> bool" where
  "gov_telem_ring_empty_ptr = read_ptr True gov_telem_ring_empty"

definition gov_telem_ring_full_ptr :: "gov_telem_ring ptr \<Rightarrow> bool" where
  "gov_telem_ring_full_ptr = read_ptr False gov_telem_ring_full"

definition gov_telem_ring_drops_ptr :: "gov_telem_ring ptr \<Rightarrow> u32" where
  "gov_telem_ring_drops_ptr = read_ptr 0 gov_telem_ring_drops"

section \<open>Abstraction\<close>

definition ring_inv :: "gov_telem_ring \<Rightarrow> bool" where
  "ring_inv r \<longleftrightarrow> length (r_buf r) = 9 \<and> unat (r_head r) < 9 \<and> unat (r_tail r) < 9"

definition ring_len :: "gov_telem_ring \<Rightarrow> nat" where
  "ring_len r = (unat (r_head r) + 9 - unat (r_tail r)) mod 9"

definition ring_list :: "gov_telem_ring \<Rightarrow> gov_telem_record list" where
  "ring_list r = map (\<lambda>i. r_buf r ! ((unat (r_tail r) + i) mod 9)) [0..<ring_len r]"

text \<open>A pop as a partial result.\<close>

definition ring_pop :: "gov_telem_ring \<Rightarrow> gov_telem_ring \<times> gov_telem_record option" where
  "ring_pop r = (let (r', x, ok) = gov_telem_ring_pop r telem_zero in (r', if ok then Some x else None))"

section \<open>The two sides interleaved\<close>

text \<open>
  A record is copied field by field, in an order that C leaves open: the lists below hold the
  fields still to be copied.
\<close>

datatype telem_field = F_tick | F_setpoint | F_measurement | F_output | F_state | F_fault_flags

definition telem_fields :: "telem_field list" where
  "telem_fields = [F_tick, F_setpoint, F_measurement, F_output, F_state, F_fault_flags]"

fun copy_field :: "telem_field \<Rightarrow> gov_telem_record \<Rightarrow> gov_telem_record \<Rightarrow> gov_telem_record" where
  "copy_field F_tick src dst = dst\<lparr> t_tick := t_tick src \<rparr>"
| "copy_field F_setpoint src dst = dst\<lparr> t_setpoint := t_setpoint src \<rparr>"
| "copy_field F_measurement src dst = dst\<lparr> t_measurement := t_measurement src \<rparr>"
| "copy_field F_output src dst = dst\<lparr> t_output := t_output src \<rparr>"
| "copy_field F_state src dst = dst\<lparr> t_state := t_state src \<rparr>"
| "copy_field F_fault_flags src dst = dst\<lparr> t_fault_flags := t_fault_flags src \<rparr>"

fun same_field :: "telem_field \<Rightarrow> gov_telem_record \<Rightarrow> gov_telem_record \<Rightarrow> bool" where
  "same_field F_tick a b = (t_tick a = t_tick b)"
| "same_field F_setpoint a b = (t_setpoint a = t_setpoint b)"
| "same_field F_measurement a b = (t_measurement a = t_measurement b)"
| "same_field F_output a b = (t_output a = t_output b)"
| "same_field F_state a b = (t_state a = t_state b)"
| "same_field F_fault_flags a b = (t_fault_flags a = t_fault_flags b)"

text \<open>
  The producer between its memory accesses: it has found room at the slot it read from \<^verbatim>\<open>head\<close> and
  stores the record there, then it has stored all of it. The consumer: it has found a record at
  the slot it read from \<^verbatim>\<open>tail\<close> and copies it out, then it has all of it. \<open>q_in\<close> and \<open>q_out\<close> record
  what the two sides handed over.
\<close>

datatype producer =
  P_Idle | P_Store gov_telem_record u32 "telem_field list" | P_Publish gov_telem_record u32

datatype consumer =
  C_Idle | C_Load gov_telem_record u32 "telem_field list" | C_Release gov_telem_record u32

record spsc =
  q_ring :: gov_telem_ring
  q_prod :: producer
  q_cons :: consumer
  q_in :: "gov_telem_record list"
  q_out :: "gov_telem_record list"

definition prod_check :: "gov_telem_record \<Rightarrow> spsc \<Rightarrow> spsc" where
  "prod_check x s =
     (let r = q_ring s; h = r_head r in
      if next_slot h = r_tail r then s\<lparr> q_ring := r\<lparr> r_drops := r_drops r + 1 \<rparr> \<rparr>
      else s\<lparr> q_prod := P_Store x h telem_fields \<rparr>)"

definition prod_store :: "telem_field \<Rightarrow> gov_telem_record \<Rightarrow> u32 \<Rightarrow> telem_field list \<Rightarrow> spsc \<Rightarrow> spsc" where
  "prod_store f x h fs s =
     (let r = q_ring s; fs' = removeAll f fs in
      s\<lparr> q_ring := r\<lparr> r_buf := (r_buf r)[unat h := copy_field f x (r_buf r ! unat h)] \<rparr>,
         q_prod := (if fs' = [] then P_Publish x h else P_Store x h fs') \<rparr>)"

definition prod_publish :: "gov_telem_record \<Rightarrow> u32 \<Rightarrow> spsc \<Rightarrow> spsc" where
  "prod_publish x h s =
     s\<lparr> q_ring := (q_ring s)\<lparr> r_head := next_slot h \<rparr>, q_prod := P_Idle, q_in := q_in s @ [x] \<rparr>"

text \<open>The consumer copies into \<open>*out\<close>, which holds anything before.\<close>

definition cons_check :: "gov_telem_record \<Rightarrow> spsc \<Rightarrow> spsc" where
  "cons_check out s =
     (let r = q_ring s; t = r_tail r in
      if t = r_head r then s else s\<lparr> q_cons := C_Load out t telem_fields \<rparr>)"

definition cons_load :: "telem_field \<Rightarrow> gov_telem_record \<Rightarrow> u32 \<Rightarrow> telem_field list \<Rightarrow> spsc \<Rightarrow> spsc" where
  "cons_load f out t fs s =
     (let out' = copy_field f (r_buf (q_ring s) ! unat t) out; fs' = removeAll f fs in
      s\<lparr> q_cons := (if fs' = [] then C_Release out' t else C_Load out' t fs') \<rparr>)"

definition cons_release :: "gov_telem_record \<Rightarrow> u32 \<Rightarrow> spsc \<Rightarrow> spsc" where
  "cons_release x t s =
     s\<lparr> q_ring := (q_ring s)\<lparr> r_tail := next_slot t \<rparr>, q_cons := C_Idle, q_out := q_out s @ [x] \<rparr>"

inductive spsc_step :: "spsc \<Rightarrow> spsc \<Rightarrow> bool" where
  check: "q_prod s = P_Idle \<Longrightarrow> spsc_step s (prod_check x s)"
| store: "q_prod s = P_Store x h fs \<Longrightarrow> f \<in> set fs \<Longrightarrow> spsc_step s (prod_store f x h fs s)"
| publish: "q_prod s = P_Publish x h \<Longrightarrow> spsc_step s (prod_publish x h s)"
| look: "q_cons s = C_Idle \<Longrightarrow> spsc_step s (cons_check out s)"
| load: "q_cons s = C_Load out t fs \<Longrightarrow> f \<in> set fs \<Longrightarrow> spsc_step s (cons_load f out t fs s)"
| release: "q_cons s = C_Release x t \<Longrightarrow> spsc_step s (cons_release x t s)"

definition spsc_init :: "gov_telem_record list \<Rightarrow> spsc" where
  "spsc_init buf = \<lparr> q_ring = gov_telem_ring_init \<lparr> r_buf = buf, r_head = 0, r_tail = 0, r_drops = 0 \<rparr>,
     q_prod = P_Idle, q_cons = C_Idle, q_in = [], q_out = [] \<rparr>"

definition spsc_inv :: "spsc \<Rightarrow> bool" where
  "spsc_inv s \<longleftrightarrow>
     ring_inv (q_ring s) \<and> q_in s = q_out s @ ring_list (q_ring s) \<and>
     (case q_prod s of P_Idle \<Rightarrow> True
      | P_Store x h fs \<Rightarrow> h = r_head (q_ring s) \<and> ring_len (q_ring s) < 8 \<and>
          (\<forall>f. f \<notin> set fs \<longrightarrow> same_field f (r_buf (q_ring s) ! unat h) x)
      | P_Publish x h \<Rightarrow> h = r_head (q_ring s) \<and> ring_len (q_ring s) < 8 \<and>
          r_buf (q_ring s) ! unat h = x) \<and>
     (case q_cons s of C_Idle \<Rightarrow> True
      | C_Load out t fs \<Rightarrow> t = r_tail (q_ring s) \<and> 0 < ring_len (q_ring s) \<and>
          (\<forall>f. f \<notin> set fs \<longrightarrow> same_field f out (r_buf (q_ring s) ! unat t))
      | C_Release x t \<Rightarrow> t = r_tail (q_ring s) \<and> 0 < ring_len (q_ring s) \<and>
          r_buf (q_ring s) ! unat t = x)"

section \<open>Queues of bounded length\<close>

datatype 'a queue_event = Push 'a | Pop

datatype 'a queue_out = Taken 'a | Refused 'a | Gave 'a | Nothing

definition taken :: "'a queue_out list \<Rightarrow> 'a list" where
  "taken os = concat (map (\<lambda>x. case x of Taken a \<Rightarrow> [a] | _ \<Rightarrow> []) os)"

definition gave :: "'a queue_out list \<Rightarrow> 'a list" where
  "gave os = concat (map (\<lambda>x. case x of Gave a \<Rightarrow> [a] | _ \<Rightarrow> []) os)"

definition refused :: "'a queue_out list \<Rightarrow> 'a list" where
  "refused os = concat (map (\<lambda>x. case x of Refused a \<Rightarrow> [a] | _ \<Rightarrow> []) os)"

definition queue_step ::
  "('s \<Rightarrow> 'a \<Rightarrow> 's \<times> bool) \<Rightarrow> ('s \<Rightarrow> 's \<times> 'a option) \<Rightarrow> 's \<Rightarrow> 'a queue_event \<Rightarrow> 's \<times> 'a queue_out list" where
  "queue_step push pop s e =
     (case e of
        Push x \<Rightarrow> (let (s', ok) = push s x in (s', [if ok then Taken x else Refused x]))
      | Pop \<Rightarrow> (let (s', r) = pop s in (s', [case r of None \<Rightarrow> Nothing | Some x \<Rightarrow> Gave x])))"

text \<open>The reference: a list that takes at most \<open>cap\<close> elements at its end and gives them at its front.\<close>

definition list_push :: "nat \<Rightarrow> 'a list \<Rightarrow> 'a \<Rightarrow> 'a list \<times> bool" where
  "list_push cap xs x = (if length xs < cap then (xs @ [x], True) else (xs, False))"

fun list_pop :: "'a list \<Rightarrow> 'a list \<times> 'a option" where
  "list_pop [] = ([], None)"
| "list_pop (x # xs) = (xs, Some x)"

lemma queue_step_simps:
  "queue_step push pop s (Push x) = (fst (push s x), [if snd (push s x) then Taken x else Refused x])"
  "queue_step push pop s Pop = (fst (pop s), [case snd (pop s) of None \<Rightarrow> Nothing | Some x \<Rightarrow> Gave x])"
  by (simp_all add: queue_step_def case_prod_beta)

lemma out_simps [simp]:
  "taken [] = []" "taken (Taken a # os) = a # taken os" "taken (Refused a # os) = taken os"
  "taken (Gave a # os) = taken os" "taken (Nothing # os) = taken os" "taken (os @ ps) = taken os @ taken ps"
  "gave [] = []" "gave (Taken a # os) = gave os" "gave (Refused a # os) = gave os"
  "gave (Gave a # os) = a # gave os" "gave (Nothing # os) = gave os" "gave (os @ ps) = gave os @ gave ps"
  "refused [] = []" "refused (Taken a # os) = refused os" "refused (Refused a # os) = a # refused os"
  "refused (Gave a # os) = refused os" "refused (Nothing # os) = refused os"
  "refused (os @ ps) = refused os @ refused ps"
  by (simp_all add: taken_def gave_def refused_def)

locale bounded_queue =
  fixes push :: "'s \<Rightarrow> 'a \<Rightarrow> 's \<times> bool"
    and pop :: "'s \<Rightarrow> 's \<times> 'a option"
    and contents :: "'s \<Rightarrow> 'a list"
    and invar :: "'s \<Rightarrow> bool"
    and lost :: "'s \<Rightarrow> u32"
    and cap :: nat
  assumes push_invar: "invar s \<Longrightarrow> invar (fst (push s x))"
    and pop_invar: "invar s \<Longrightarrow> invar (fst (pop s))"
    and bounded: "invar s \<Longrightarrow> length (contents s) \<le> cap"
    and push_ok: "invar s \<Longrightarrow> snd (push s x) \<longleftrightarrow> length (contents s) < cap"
    and push_contents: "invar s \<Longrightarrow>
      contents (fst (push s x)) = contents s @ (if length (contents s) < cap then [x] else [])"
    and push_lost: "invar s \<Longrightarrow>
      lost (fst (push s x)) = lost s + (if length (contents s) < cap then 0 else 1)"
    and pop_result: "invar s \<Longrightarrow> snd (pop s) = (case contents s of [] \<Rightarrow> None | x # _ \<Rightarrow> Some x)"
    and pop_contents: "invar s \<Longrightarrow> contents (fst (pop s)) = tl (contents s)"
    and pop_lost: "invar s \<Longrightarrow> lost (fst (pop s)) = lost s"
begin

text \<open>What went in comes out, in order; what was refused was counted.\<close>

lemma fifo:
  assumes "invar s"
  shows "invar (fst (run (queue_step push pop) s es)) \<and>
    contents s @ taken (snd (run (queue_step push pop) s es)) =
      gave (snd (run (queue_step push pop) s es)) @ contents (fst (run (queue_step push pop) s es)) \<and>
    lost (fst (run (queue_step push pop) s es)) =
      lost s + of_nat (length (refused (snd (run (queue_step push pop) s es))))"
  using assms
proof (induction es arbitrary: s)
  case Nil
  then show ?case by simp
next
  case (Cons e es)
  show ?case
  proof (cases e)
    case (Push x)
    let ?s = "fst (push s x)"
    from Cons.IH [of ?s] Cons.prems show ?thesis
      by (auto simp: Push queue_step_def case_prod_beta push_invar push_ok push_contents push_lost)
  next
    case Pop
    let ?s = "fst (pop s)"
    from Cons.IH [of ?s] Cons.prems show ?thesis
      by (cases "contents s")
        (auto simp: Pop queue_step_def case_prod_beta pop_invar pop_result pop_contents pop_lost)
  qed
qed

text \<open>Every result is that of the reference, and the contents follow it.\<close>

lemma refines_list:
  assumes "invar s"
  shows "snd (run (queue_step push pop) s es) =
      snd (run (queue_step (list_push cap) list_pop) (contents s) es) \<and>
    contents (fst (run (queue_step push pop) s es)) =
      fst (run (queue_step (list_push cap) list_pop) (contents s) es)"
  using assms
proof (induction es arbitrary: s)
  case Nil
  then show ?case by simp
next
  case (Cons e es)
  show ?case
  proof (cases e)
    case (Push x)
    from Cons.IH [of "fst (push s x)"] Cons.prems show ?thesis
      by (simp add: Push queue_step_simps push_invar push_ok push_contents list_push_def)
  next
    case Pop
    from Cons.IH [of "fst (pop s)"] Cons.prems show ?thesis
      by (cases "contents s")
        (simp_all add: Pop queue_step_simps pop_invar pop_result pop_contents)
  qed
qed

end

section \<open>Slot arithmetic\<close>

lemma mod9: "a < 9 \<Longrightarrow> b \<le> 9 \<Longrightarrow> (a + b) mod 9 = (if a + b < 9 then a + b else a + b - (9 :: nat))"
  by (auto simp: mod_if)

lemma ring_len_eq:
  assumes "ring_inv r"
  shows "ring_len r = (if unat (r_tail r) \<le> unat (r_head r) then unat (r_head r) - unat (r_tail r)
      else unat (r_head r) + 9 - unat (r_tail r))"
  using assms by (auto simp: ring_len_def ring_inv_def mod_if)

lemma unat_next:
  assumes "unat x < 9"
  shows "unat (next_slot x) = (if unat x = 8 then 0 else unat x + 1)"
proof -
  have "unat (x + 1) = unat x + 1" using assms by (subst unat_word_ariths(1)) simp
  then show ?thesis by (auto simp: next_slot_def word_unat_eq_iff gov_defs)
qed

lemma length_ring_list [simp]: "length (ring_list r) = ring_len r"
  by (simp add: ring_list_def)

lemma nth_ring_list: "i < ring_len r \<Longrightarrow> ring_list r ! i = r_buf r ! ((unat (r_tail r) + i) mod 9)"
  by (simp add: ring_list_def)

lemma next_eq_tail:
  assumes "ring_inv r"
  shows "next_slot (r_head r) = r_tail r \<longleftrightarrow> ring_len r = 8"
proof -
  have "unat (next_slot (r_head r)) = (if unat (r_head r) = 8 then 0 else unat (r_head r) + 1)"
    using assms by (intro unat_next) (simp add: ring_inv_def)
  with assms show ?thesis
    by (auto simp: word_unat_eq_iff ring_len_eq) (auto simp: ring_inv_def)
qed

lemma empty_iff: "ring_inv r \<Longrightarrow> r_head r = r_tail r \<longleftrightarrow> ring_len r = 0"
  by (auto simp: word_unat_eq_iff ring_len_eq) (auto simp: ring_inv_def)

lemma ring_len_le: "ring_inv r \<Longrightarrow> ring_len r \<le> 8"
  by (auto simp: ring_len_eq ring_inv_def)

lemma head_slot: "ring_inv r \<Longrightarrow> unat (r_head r) = (unat (r_tail r) + ring_len r) mod 9"
  using ring_len_le [of r] by (subst mod9) (auto simp: ring_len_eq ring_inv_def)

lemma slot_other:
  assumes "ring_inv r" and "i < ring_len r"
  shows "(unat (r_tail r) + i) mod 9 \<noteq> unat (r_head r)"
  using assms ring_len_le [OF assms(1)] mod9 [of "unat (r_tail r)" i]
  by (auto simp: ring_len_eq ring_inv_def split: if_splits)

section \<open>The ring is a queue of eight\<close>

lemma store_contents:
  assumes "ring_inv r"
  shows "ring_list (r\<lparr> r_buf := (r_buf r)[unat (r_head r) := x] \<rparr>) = ring_list r"
proof -
  have "(r_buf r)[unat (r_head r) := x] ! ((unat (r_tail r) + i) mod 9) = r_buf r ! ((unat (r_tail r) + i) mod 9)"
    if "i < ring_len r" for i
    using slot_other [OF assms that] by (simp add: nth_list_update)
  then show ?thesis by (auto simp: ring_list_def ring_len_def)
qed

lemma publish_contents:
  assumes "ring_inv r" and "ring_len r < 8"
  shows "ring_list (r\<lparr> r_head := next_slot (r_head r) \<rparr>) = ring_list r @ [r_buf r ! unat (r_head r)]"
    and "ring_inv (r\<lparr> r_head := next_slot (r_head r) \<rparr>)"
proof -
  let ?r = "r\<lparr> r_head := next_slot (r_head r) \<rparr>"
  have n: "unat (next_slot (r_head r)) = (if unat (r_head r) = 8 then 0 else unat (r_head r) + 1)"
    using assms(1) by (intro unat_next) (simp add: ring_inv_def)
  then show inv: "ring_inv ?r" using assms(1) by (auto simp: ring_inv_def)
  have "ring_len ?r = Suc (ring_len r)"
    using assms ring_len_eq [OF inv] ring_len_eq [OF assms(1)] n by (auto simp: ring_inv_def split: if_splits)
  then show "ring_list ?r = ring_list r @ [r_buf r ! unat (r_head r)]"
    using head_slot [OF assms(1)] by (simp add: ring_list_def)
qed

lemma release_contents:
  assumes "ring_inv r" and "0 < ring_len r"
  shows "ring_list r = r_buf r ! unat (r_tail r) # ring_list (r\<lparr> r_tail := next_slot (r_tail r) \<rparr>)"
    and "ring_inv (r\<lparr> r_tail := next_slot (r_tail r) \<rparr>)"
proof -
  let ?r = "r\<lparr> r_tail := next_slot (r_tail r) \<rparr>"
  have n: "unat (next_slot (r_tail r)) = (if unat (r_tail r) = 8 then 0 else unat (r_tail r) + 1)"
    using assms(1) by (intro unat_next) (simp add: ring_inv_def)
  then show inv: "ring_inv ?r" using assms(1) by (auto simp: ring_inv_def)
  have len: "ring_len r = Suc (ring_len ?r)"
    using assms ring_len_eq [OF inv] ring_len_eq [OF assms(1)] n by (auto simp: ring_inv_def split: if_splits)
  have "(unat (r_tail r) + Suc i) mod 9 = (unat (next_slot (r_tail r)) + i) mod 9" for i
    using n assms(1) by (auto simp: ring_inv_def mod_simps)
  then have "ring_list r ! Suc i = ring_list ?r ! i" if "i < ring_len ?r" for i
    using that len nth_ring_list [of "Suc i" r] nth_ring_list [of i ?r] by simp
  moreover have "ring_list r ! 0 = r_buf r ! unat (r_tail r)"
    using assms nth_ring_list [of 0 r] by (simp add: ring_inv_def)
  ultimately show "ring_list r = r_buf r ! unat (r_tail r) # ring_list ?r"
    using len by (intro nth_equalityI) (auto simp: nth_Cons split: nat.split)
qed

lemma push_cases:
  assumes "ring_inv r"
  shows "ring_inv (fst (gov_telem_ring_push r x)) \<and>
    snd (gov_telem_ring_push r x) = (ring_len r < 8) \<and>
    ring_list (fst (gov_telem_ring_push r x)) = ring_list r @ (if ring_len r < 8 then [x] else []) \<and>
    r_drops (fst (gov_telem_ring_push r x)) = r_drops r + (if ring_len r < 8 then 0 else 1)"
proof (cases "ring_len r = 8")
  case True
  then show ?thesis using assms next_eq_tail [OF assms]
    by (simp add: gov_telem_ring_push_def ring_list_def ring_len_def ring_inv_def)
next
  case False
  let ?r = "r\<lparr> r_buf := (r_buf r)[unat (r_head r) := x] \<rparr>"
  have inv: "ring_inv ?r" using assms by (simp add: ring_inv_def)
  have len: "ring_len ?r < 8" using False ring_len_le [OF assms] by (simp add: ring_len_def)
  have "r_buf ?r ! unat (r_head ?r) = x" using assms by (simp add: ring_inv_def)
  with publish_contents [OF inv len] store_contents [OF assms, of x] next_eq_tail [OF assms] False len
  show ?thesis by (simp add: gov_telem_ring_push_def ring_len_def Let_def)
qed

lemma pop_cases:
  assumes "ring_inv r"
  shows "ring_inv (fst (ring_pop r)) \<and>
    snd (ring_pop r) = (case ring_list r of [] \<Rightarrow> None | x # _ \<Rightarrow> Some x) \<and>
    ring_list (fst (ring_pop r)) = tl (ring_list r) \<and> r_drops (fst (ring_pop r)) = r_drops r"
proof (cases "ring_len r = 0")
  case True
  then have "ring_list r = []" by (simp add: ring_list_def)
  then show ?thesis using assms empty_iff [OF assms] True
    by (simp add: ring_pop_def gov_telem_ring_pop_def)
next
  case False
  then show ?thesis using assms empty_iff [OF assms] release_contents [OF assms]
    by (simp add: ring_pop_def gov_telem_ring_pop_def Let_def)
qed

interpretation telem_queue: bounded_queue gov_telem_ring_push ring_pop ring_list ring_inv r_drops 8
proof
  fix r x assume r: "ring_inv r"
  show "length (ring_list r) \<le> 8" using ring_len_le [OF r] by simp
qed (simp_all add: push_cases pop_cases)

section \<open>The interleaved ring\<close>

lemma ring_fields [simp]:
  "ring_len (r\<lparr> r_drops := n \<rparr>) = ring_len r" "ring_list (r\<lparr> r_drops := n \<rparr>) = ring_list r"
  "ring_inv (r\<lparr> r_drops := n \<rparr>) = ring_inv r" "ring_len (r\<lparr> r_buf := b \<rparr>) = ring_len r"
  by (simp_all add: ring_len_def ring_list_def ring_inv_def)

lemma all_fields: "telem_fields \<noteq> []" "f \<in> set telem_fields"
  by (simp add: telem_fields_def) (cases f; simp add: telem_fields_def)

lemma copied_field: "same_field f (copy_field f a b) a"
  by (cases f) simp_all

lemma other_field: "g \<noteq> f \<Longrightarrow> same_field g (copy_field f a b) c = same_field g b c"
  by (cases f; cases g) simp_all

lemma same_fields: "(\<And>f. same_field f a b) \<Longrightarrow> a = (b :: gov_telem_record)"
  using same_field.simps [of a b] by (intro gov_telem_record.equality) simp_all

text \<open>One more field copied; with none left, the record is whole.\<close>

lemma copy_progress:
  assumes "\<forall>g. g \<notin> set fs \<longrightarrow> same_field g b a"
  shows "\<forall>g. g \<notin> set (removeAll f fs) \<longrightarrow> same_field g (copy_field f a b) a"
    and "removeAll f fs = [] \<Longrightarrow> copy_field f a b = a"
proof -
  show p: "\<forall>g. g \<notin> set (removeAll f fs) \<longrightarrow> same_field g (copy_field f a b) a"
  proof (intro allI impI)
    fix g assume "g \<notin> set (removeAll f fs)"
    then show "same_field g (copy_field f a b) a"
      using assms by (cases "g = f") (simp_all add: copied_field other_field)
  qed
  show "copy_field f a b = a" if "removeAll f fs = []"
    by (rule same_fields) (use p that in simp)
qed

lemma spsc_step_inv:
  assumes "spsc_step s s'" and "spsc_inv s"
  shows "spsc_inv s'"
  using assms(1)
proof cases
  case (check x)
  have r: "ring_inv (q_ring s)" using assms(2) by (simp add: spsc_inv_def)
  then show ?thesis
    using check assms(2) next_eq_tail [OF r] ring_len_le [OF r]
    by (auto simp: spsc_inv_def prod_check_def Let_def all_fields split: consumer.splits)
next
  case (store x h fs f)
  have r: "ring_inv (q_ring s)" "h = r_head (q_ring s)" "ring_len (q_ring s) < 8"
      "\<forall>g. g \<notin> set fs \<longrightarrow> same_field g (r_buf (q_ring s) ! unat h) x"
    using assms(2) store by (auto simp: spsc_inv_def)
  have l: "unat (r_head (q_ring s)) < length (r_buf (q_ring s))" using r(1) by (simp add: ring_inv_def)
  have "unat (r_tail (q_ring s)) \<noteq> unat (r_head (q_ring s))" if "0 < ring_len (q_ring s)"
    using slot_other [OF r(1) that] r(1) by (simp add: ring_inv_def)
  then show ?thesis
    using store assms(2) store_contents [OF r(1)] copy_progress [OF r(4), of f] r(1-3) l
    by (auto simp: spsc_inv_def prod_store_def Let_def ring_inv_def nth_list_update
        simp del: removeAll.simps split: consumer.splits)
next
  case (publish x h)
  have r: "ring_inv (q_ring s)" "h = r_head (q_ring s)" "ring_len (q_ring s) < 8"
      "r_buf (q_ring s) ! unat h = x"
    using assms(2) publish by (auto simp: spsc_inv_def)
  note p = publish_contents [OF r(1,3)]
  have "ring_len ((q_ring s)\<lparr> r_head := next_slot h \<rparr>) = Suc (ring_len (q_ring s))"
    using p(1) r(2) by (metis length_ring_list length_append_singleton)
  then show ?thesis
    using publish assms(2) p r by (auto simp: spsc_inv_def prod_publish_def split: consumer.splits)
next
  case look
  then show ?thesis
    using assms(2) empty_iff [of "q_ring s"]
    by (auto simp: spsc_inv_def cons_check_def Let_def all_fields split: producer.splits)
next
  case (load out t fs f)
  then have "\<forall>g. g \<notin> set fs \<longrightarrow> same_field g out (r_buf (q_ring s) ! unat t)"
    using assms(2) by (auto simp: spsc_inv_def)
  from copy_progress [OF this, of f] load assms(2) show ?thesis
    by (auto simp: spsc_inv_def cons_load_def Let_def split: producer.splits)
next
  case (release x t)
  have r: "ring_inv (q_ring s)" "t = r_tail (q_ring s)" "0 < ring_len (q_ring s)"
      "r_buf (q_ring s) ! unat t = x"
    using assms(2) release by (auto simp: spsc_inv_def)
  note p = release_contents [OF r(1,3)]
  have "Suc (ring_len ((q_ring s)\<lparr> r_tail := next_slot t \<rparr>)) = ring_len (q_ring s)"
    using p(1) r(2) by (metis length_ring_list length_Cons)
  then show ?thesis
    using release assms(2) p r by (auto simp: spsc_inv_def cons_release_def split: producer.splits)
qed

lemma spsc_reach_inv: "spsc_step\<^sup>*\<^sup>* s s' \<Longrightarrow> spsc_inv s \<Longrightarrow> spsc_inv s'"
  by (induction rule: rtranclp_induct) (auto intro: spsc_step_inv)

lemma spsc_init_inv: "length buf = 9 \<Longrightarrow> spsc_inv (spsc_init buf)"
  by (simp add: spsc_inv_def spsc_init_def gov_telem_ring_init_def ring_inv_def ring_list_def ring_len_def)

text \<open>Run without interruption, the steps of one side are the functions of the interface.\<close>

lemma store_run:
  assumes "q_prod s = P_Store x h fs" and "fs \<noteq> []" and "unat h < length (r_buf (q_ring s))"
    and "\<forall>f. f \<notin> set fs \<longrightarrow> same_field f (r_buf (q_ring s) ! unat h) x"
  shows "spsc_step\<^sup>*\<^sup>* s
    (s\<lparr> q_ring := (q_ring s)\<lparr> r_buf := (r_buf (q_ring s))[unat h := x] \<rparr>, q_prod := P_Publish x h \<rparr>)"
  using assms
proof (induction "length fs" arbitrary: s fs rule: less_induct)
  case less
  then obtain f fs' where fs: "fs = f # fs'" by (cases fs) auto
  let ?s = "prod_store f x h fs s"
  have st: "spsc_step s ?s" by (rule spsc_step.store [OF less.prems(1)]) (simp add: fs)
  note c = copy_progress [OF less.prems(4), of f]
  show ?case
  proof (cases "removeAll f fs = []")
    case True
    then show ?thesis using st c(2) [OF True] by (simp add: prod_store_def Let_def r_into_rtranclp)
  next
    case False
    have len: "length (removeAll f fs) < length fs"
      by (simp add: fs) (metis le_imp_less_Suc length_filter_le removeAll_filter_not_eq)
    have s': "q_prod ?s = P_Store x h (removeAll f fs)"
      "r_buf (q_ring ?s) = (r_buf (q_ring s))[unat h := copy_field f x (r_buf (q_ring s) ! unat h)]"
      using False by (simp_all add: prod_store_def Let_def)
    have "spsc_step\<^sup>*\<^sup>* ?s (?s\<lparr> q_ring := (q_ring ?s)\<lparr> r_buf := (r_buf (q_ring ?s))[unat h := x] \<rparr>,
        q_prod := P_Publish x h \<rparr>)"
      by (rule less.hyps [OF len s'(1) False]) (use less.prems(3) c(1) s'(2) in auto)
    then show ?thesis
      using st by (simp add: prod_store_def Let_def converse_rtranclp_into_rtranclp)
  qed
qed

lemma load_run:
  assumes "q_cons s = C_Load out t fs" and "fs \<noteq> []"
    and "\<forall>f. f \<notin> set fs \<longrightarrow> same_field f out (r_buf (q_ring s) ! unat t)"
  shows "spsc_step\<^sup>*\<^sup>* s (s\<lparr> q_cons := C_Release (r_buf (q_ring s) ! unat t) t \<rparr>)"
  using assms
proof (induction "length fs" arbitrary: s fs out rule: less_induct)
  case less
  then obtain f fs' where fs: "fs = f # fs'" by (cases fs) auto
  let ?s = "cons_load f out t fs s"
  have st: "spsc_step s ?s" by (rule spsc_step.load [OF less.prems(1)]) (simp add: fs)
  note c = copy_progress [OF less.prems(3), of f]
  show ?case
  proof (cases "removeAll f fs = []")
    case True
    then show ?thesis using st c(2) [OF True] by (simp add: cons_load_def Let_def r_into_rtranclp)
  next
    case False
    have len: "length (removeAll f fs) < length fs"
      by (simp add: fs) (metis le_imp_less_Suc length_filter_le removeAll_filter_not_eq)
    have s': "q_cons ?s = C_Load (copy_field f (r_buf (q_ring s) ! unat t) out) t (removeAll f fs)"
      "q_ring ?s = q_ring s"
      using False by (simp_all add: cons_load_def Let_def)
    have "spsc_step\<^sup>*\<^sup>* ?s (?s\<lparr> q_cons := C_Release (r_buf (q_ring ?s) ! unat t) t \<rparr>)"
      by (rule less.hyps [OF len s'(1) False]) (use c(1) s'(2) in simp)
    then show ?thesis
      using st by (simp add: cons_load_def Let_def converse_rtranclp_into_rtranclp)
  qed
qed

lemma between_steps:
  "spsc_step s s1 \<Longrightarrow> spsc_step\<^sup>*\<^sup>* s1 s2 \<Longrightarrow> spsc_step s2 s3 \<Longrightarrow> s3 = s' \<Longrightarrow> spsc_step\<^sup>*\<^sup>* s s'"
  by (blast intro: converse_rtranclp_into_rtranclp rtranclp.rtrancl_into_rtrancl)

lemma push_run:
  assumes "q_prod s = P_Idle" and "ring_inv (q_ring s)" and "ring_len (q_ring s) < 8"
  shows "spsc_step\<^sup>*\<^sup>* s (s\<lparr> q_ring := fst (gov_telem_ring_push (q_ring s) x), q_in := q_in s @ [x] \<rparr>)"
proof -
  let ?h = "r_head (q_ring s)"
  let ?s1 = "s\<lparr> q_prod := P_Store x ?h telem_fields \<rparr>"
  let ?s2 = "s\<lparr> q_ring := (q_ring s)\<lparr> r_buf := (r_buf (q_ring s))[unat ?h := x] \<rparr>, q_prod := P_Publish x ?h \<rparr>"
  have room: "next_slot ?h \<noteq> r_tail (q_ring s)" using next_eq_tail [OF assms(2)] assms(3) by simp
  have "spsc_step s ?s1"
    using spsc_step.check [OF assms(1), of x] room by (simp add: prod_check_def Let_def)
  moreover have "spsc_step\<^sup>*\<^sup>* ?s1 ?s2"
    using store_run [of ?s1 x ?h telem_fields] assms(2) all_fields by (simp add: ring_inv_def)
  moreover have "spsc_step ?s2 (prod_publish x ?h ?s2)"
    by (rule spsc_step.publish) simp
  moreover have "prod_publish x ?h ?s2 =
      s\<lparr> q_ring := fst (gov_telem_ring_push (q_ring s) x), q_in := q_in s @ [x] \<rparr>"
    using room assms(1) by (simp add: prod_publish_def gov_telem_ring_push_def Let_def)
  ultimately show ?thesis by (auto intro: between_steps)
qed

lemma pop_run:
  assumes "q_cons s = C_Idle" and "gov_telem_ring_pop (q_ring s) out = (r', x, True)"
  shows "spsc_step\<^sup>*\<^sup>* s (s\<lparr> q_ring := r', q_out := q_out s @ [x] \<rparr>)"
proof -
  let ?t = "r_tail (q_ring s)"
  let ?s1 = "s\<lparr> q_cons := C_Load out ?t telem_fields \<rparr>"
  let ?s2 = "s\<lparr> q_cons := C_Release (r_buf (q_ring s) ! unat ?t) ?t \<rparr>"
  have p: "?t \<noteq> r_head (q_ring s)" "r' = (q_ring s)\<lparr> r_tail := next_slot ?t \<rparr>" "x = r_buf (q_ring s) ! unat ?t"
    using assms(2) by (auto simp: gov_telem_ring_pop_def Let_def split: if_splits)
  have "spsc_step s ?s1"
    using spsc_step.look [OF assms(1), of out] p(1) by (simp add: cons_check_def Let_def)
  moreover have "spsc_step\<^sup>*\<^sup>* ?s1 ?s2"
    using load_run [of ?s1 out ?t telem_fields] all_fields by simp
  moreover have "spsc_step ?s2 (cons_release x ?t ?s2)"
    by (rule spsc_step.release) (simp add: p(3))
  moreover have "cons_release x ?t ?s2 = s\<lparr> q_ring := r', q_out := q_out s @ [x] \<rparr>"
    using assms(1) by (simp add: cons_release_def p(2))
  ultimately show ?thesis by (auto intro: between_steps)
qed

section \<open>Properties\<close>

lemma unat_count:
  assumes "ring_inv r"
  shows "unat (gov_telem_ring_count r) = ring_len r"
proof -
  have h: "unat (r_head r) < 9" and t: "unat (r_tail r) < 9" using assms by (simp_all add: ring_inv_def)
  have e: "r_head r - r_tail r + 9 = (r_head r + 9) - r_tail r" by simp
  have p: "unat (r_head r + 9) = unat (r_head r) + 9"
    using h by (subst unat_word_ariths(1)) simp
  have "r_tail r \<le> r_head r + 9" using p t by (simp add: word_le_nat_alt)
  then have u: "unat (r_head r - r_tail r + 9) = unat (r_head r) + 9 - unat (r_tail r)"
    unfolding e by (simp add: unat_sub p)
  have "GOV_TELEM_RING_SLOTS = 9" by (simp add: gov_defs)
  then have "unat (gov_telem_ring_count r) = unat (r_head r - r_tail r + 9) mod unat (9 :: u32)"
    by (simp only: gov_telem_ring_count_def unat_mod)
  then show ?thesis by (simp only: u ring_len_def) simp
qed

text \<open>
  C24. The ring is a queue of eight: from an initialised ring, after any pushes and pops, each call
  has had the result it has on a list of at most eight records (a push is accepted exactly when
  fewer than eight are queued, a pop gives the oldest), and the ring holds that list. So the
  records accepted are those handed out followed by those still queued, in order; the records
  refused are counted (modulo the width of the counter); the count, empty and full functions tell
  the length of the queue, that it is zero, and that it is eight; and the next push is accepted
  and appended when fewer than eight are queued, and otherwise refused, counted, and changes
  nothing else.
\<close>

theorem ring_is_queue:
  fixes r :: gov_telem_ring
  assumes "length (r_buf r0) = 9"
    and "(r, outs) = run (queue_step gov_telem_ring_push ring_pop) (gov_telem_ring_init r0) es"
  shows "(ring_list r, outs) = run (queue_step (list_push 8) list_pop) [] es \<and>
    taken outs = gave outs @ ring_list r \<and> length (ring_list r) \<le> 8 \<and>
    gov_telem_ring_drops r = of_nat (length (refused outs)) \<and>
    unat (gov_telem_ring_count r) = length (ring_list r) \<and>
    gov_telem_ring_empty r = (ring_list r = []) \<and>
    gov_telem_ring_full r = (length (ring_list r) = 8) \<and>
    (length (ring_list r) < 8 \<longrightarrow> (\<exists>r'. gov_telem_ring_push r x = (r', True) \<and>
       ring_list r' = ring_list r @ [x] \<and> gov_telem_ring_drops r' = gov_telem_ring_drops r)) \<and>
    (length (ring_list r) = 8 \<longrightarrow> gov_telem_ring_push r x = (r\<lparr> r_drops := r_drops r + 1 \<rparr>, False))"
proof -
  have i: "ring_inv (gov_telem_ring_init r0)" "ring_list (gov_telem_ring_init r0) = []"
      "r_drops (gov_telem_ring_init r0) = 0"
    using assms(1) by (simp_all add: ring_inv_def gov_telem_ring_init_def ring_list_def ring_len_def)
  have f: "ring_inv r" "taken outs = gave outs @ ring_list r"
      "r_drops r = of_nat (length (refused outs))"
    using telem_queue.fifo [OF i(1), of es] i(2,3) assms(2) [symmetric] by simp_all
  have l: "(ring_list r, outs) = run (queue_step (list_push 8) list_pop) [] es"
    using telem_queue.refines_list [OF i(1), of es] i(2) assms(2) [symmetric] by (simp add: prod_eq_iff)
  have room: "\<exists>r'. gov_telem_ring_push r x = (r', True) \<and> ring_list r' = ring_list r @ [x] \<and>
      gov_telem_ring_drops r' = gov_telem_ring_drops r" if "length (ring_list r) < 8"
    using push_cases [OF f(1), of x] that
    by (intro exI [of _ "fst (gov_telem_ring_push r x)"]) (simp add: prod_eq_iff gov_telem_ring_drops_def)
  have full: "gov_telem_ring_push r x = (r\<lparr> r_drops := r_drops r + 1 \<rparr>, False)" if "length (ring_list r) = 8"
    using that next_eq_tail [OF f(1)] by (simp add: gov_telem_ring_push_def)
  have "gov_telem_ring_drops r = of_nat (length (refused outs))" "length (ring_list r) \<le> 8"
      "unat (gov_telem_ring_count r) = length (ring_list r)"
      "gov_telem_ring_empty r = (ring_list r = [])" "gov_telem_ring_full r = (length (ring_list r) = 8)"
    using f unat_count [OF f(1)] ring_len_le [OF f(1)] empty_iff [OF f(1)] next_eq_tail [OF f(1)]
    by (auto simp: gov_telem_ring_drops_def gov_telem_ring_empty_def gov_telem_ring_full_def
        length_0_conv [symmetric] simp del: length_0_conv)
  with f(2) l room full show ?thesis by blast
qed

text \<open>Nine pushes into an empty ring: eight are accepted and the ninth is refused and counted.\<close>

theorem ring_is_queue_witness:
  "let es = map (\<lambda>k. Push (telem_zero\<lparr> t_tick := k \<rparr>)) [1, 2, 3, 4, 5, 6, 7, 8, 9];
       (r, outs) = run (queue_step gov_telem_ring_push ring_pop)
         (gov_telem_ring_init \<lparr> r_buf = replicate 9 telem_zero, r_head = 5, r_tail = 3, r_drops = 1 \<rparr>) es
   in map t_tick (ring_list r) = [1, 2, 3, 4, 5, 6, 7, 8] \<and>
      refused outs = [telem_zero\<lparr> t_tick := 9 \<rparr>] \<and> gov_telem_ring_drops r = 1 \<and> gov_telem_ring_full r"
proof -
  let ?r0 = "\<lparr> r_buf = replicate 9 telem_zero, r_head = 5, r_tail = 3, r_drops = 1 \<rparr>"
  let ?es = "map (\<lambda>k. Push (telem_zero\<lparr> t_tick := k \<rparr>)) [1, 2, 3, 4, 5, 6, 7, 8, 9]"
  obtain r outs where run: "(r, outs) = run (queue_step gov_telem_ring_push ring_pop) (gov_telem_ring_init ?r0) ?es"
    by (metis prod.collapse)
  have len: "length (r_buf ?r0) = 9" by simp
  note q = ring_is_queue [OF len run, of telem_zero]
  have "run (queue_step (list_push 8) list_pop) [] ?es =
      (map (\<lambda>k. telem_zero\<lparr> t_tick := k \<rparr>) [1, 2, 3, 4, 5, 6, 7, 8],
       map (\<lambda>k. Taken (telem_zero\<lparr> t_tick := k \<rparr>)) [1, 2, 3, 4, 5, 6, 7, 8] @ [Refused (telem_zero\<lparr> t_tick := 9 \<rparr>)])"
    by (simp add: run_Cons queue_step_simps list_push_def)
  with q have "ring_list r = map (\<lambda>k. telem_zero\<lparr> t_tick := k \<rparr>) [1, 2, 3, 4, 5, 6, 7, 8]"
    and "outs = map (\<lambda>k. Taken (telem_zero\<lparr> t_tick := k \<rparr>)) [1, 2, 3, 4, 5, 6, 7, 8] @ [Refused (telem_zero\<lparr> t_tick := 9 \<rparr>)]"
    by simp_all
  with q show ?thesis unfolding Let_def run [symmetric] by simp
qed

text \<open>
  C25. No lock is needed: in every interleaving of the single loads and stores of one producer
  and one consumer, the records copied field by field in any order, each record reaches the
  consumer whole, once and in order, and no record that is still queued is overwritten.
\<close>

theorem ring_interleaving_safe:
  assumes "length buf = 9" and "spsc_step\<^sup>*\<^sup>* (spsc_init buf) s"
  shows "q_in s = q_out s @ ring_list (q_ring s) \<and> length (ring_list (q_ring s)) \<le> 8"
proof -
  have "spsc_inv s" using spsc_reach_inv [OF assms(2)] spsc_init_inv [OF assms(1)] by simp
  then show ?thesis using ring_len_le [of "q_ring s"] by (simp add: spsc_inv_def)
qed

text \<open>
  Two records pushed, one of them popped, and a third under way: the producer has stored its
  status fields only. What is queued is the second record.
\<close>

theorem ring_interleaving_safe_witness:
  "\<exists>s. spsc_step\<^sup>*\<^sup>* (spsc_init (replicate 9 telem_zero)) s \<and>
     map t_tick (q_out s) = [4] \<and> map t_tick (ring_list (q_ring s)) = [5] \<and>
     q_prod s = P_Store (telem_zero\<lparr> t_tick := 6, t_state := 1 \<rparr>) 2
       [F_tick, F_setpoint, F_measurement, F_output, F_fault_flags]"
proof -
  let ?x = "telem_zero\<lparr> t_tick := 4 \<rparr>" and ?y = "telem_zero\<lparr> t_tick := 5 \<rparr>"
    and ?z = "telem_zero\<lparr> t_tick := 6, t_state := 1 \<rparr>"
  let ?r = "\<lambda>b h t. \<lparr> r_buf = b, r_head = h, r_tail = t, r_drops = 0 \<rparr>"
  let ?st = "\<lambda>r p i k. \<lparr> q_ring = r, q_prod = p, q_cons = C_Idle, q_in = i, q_out = k \<rparr>"
  let ?wa = "spsc_init (replicate 9 telem_zero)"
  let ?wb = "?st (?r (?x # replicate 8 telem_zero) 1 0) P_Idle [?x] []"
  let ?wc = "?st (?r (?x # ?y # replicate 7 telem_zero) 2 0) P_Idle [?x, ?y] []"
  let ?wd = "?st (?r (?x # ?y # replicate 7 telem_zero) 2 1) P_Idle [?x, ?y] [?x]"
  let ?we = "?st (?r (?x # ?y # replicate 7 telem_zero) 2 1) (P_Store ?z 2 telem_fields) [?x, ?y] [?x]"
  let ?wf = "?st (?r (?x # ?y # telem_zero\<lparr> t_state := 1 \<rparr> # replicate 6 telem_zero) 2 1)
    (P_Store ?z 2 [F_tick, F_setpoint, F_measurement, F_output, F_fault_flags]) [?x, ?y] [?x]"
  have rp: "replicate 9 telem_zero = telem_zero # replicate 8 telem_zero"
    "replicate 8 telem_zero = telem_zero # replicate 7 telem_zero"
    "replicate 7 telem_zero = telem_zero # replicate 6 telem_zero"
    by (simp_all add: numeral_eq_Suc)
  have two: "(a # b # c # l)[2 := v] = a # b # v # l" for a b c v :: gov_telem_record and l
    by (simp add: numeral_2_eq_2)
  note ev = spsc_init_def gov_telem_ring_init_def gov_telem_ring_push_def gov_telem_ring_pop_def
    next_slot_def gov_defs Let_def ring_inv_def ring_len_def
  have path: "spsc_step\<^sup>*\<^sup>* a f" if "spsc_step\<^sup>*\<^sup>* a b" "spsc_step\<^sup>*\<^sup>* b c" "spsc_step\<^sup>*\<^sup>* c d"
    "spsc_step d e" "spsc_step e f" for a b c d e f
    using that by (meson rtranclp_trans rtranclp.rtrancl_into_rtrancl)
  have ab: "spsc_step\<^sup>*\<^sup>* ?wa ?wb" using push_run [of ?wa ?x] by (simp add: ev rp(1))
  have bc: "spsc_step\<^sup>*\<^sup>* ?wb ?wc" using push_run [of ?wb ?y] by (simp add: ev rp(2))
  have cd: "spsc_step\<^sup>*\<^sup>* ?wc ?wd" using pop_run [of ?wc telem_zero] by (simp add: ev)
  have de: "spsc_step ?wd ?we"
    using spsc_step.check [of ?wd ?z] by (simp add: prod_check_def next_slot_def gov_defs Let_def)
  have ef: "spsc_step ?we ?wf"
    using spsc_step.store [of ?we ?z 2 telem_fields F_state]
    by (simp add: prod_store_def Let_def telem_fields_def rp(3) two)
  have reach: "spsc_step\<^sup>*\<^sup>* ?wa ?wf"
    by (rule path [OF ab bc cd de ef])
  have len: "length (replicate 9 telem_zero) = 9" by simp
  have "ring_list (q_ring ?wf) = [?y]"
    using conjunct1 [OF ring_interleaving_safe [OF len reach]] by (simp only: spsc.simps append_Cons append_Nil list.inject simp_thms)
  then show ?thesis
    by (intro exI [of _ ?wf] conjI reach) simp_all
qed

end
