(* ===== verification/Gov_Health.thy ===== *)
theory Gov_Health
  imports Gov_Prelude
begin

text \<open>
  The health aggregator, \<^verbatim>\<open>lib/telem/health.h\<close> and \<^verbatim>\<open>lib/telem/health.c\<close>, with the task periods and the
  miss limit of \<^verbatim>\<open>lib/telem/telem_config.h\<close>: when each subsystem last reported, how many control
  deadlines in a row were missed, and whether the watchdog may be fed. A subsystem is passed as
  the number of the enumeration, so that the range check of the code is in the model.
\<close>

section \<open>The code\<close>

definition GOV_MISS_LIMIT :: u32 where [gov_defs]: "GOV_MISS_LIMIT = 3"
definition GOV_TELEM_PERIOD_MS :: u32 where [gov_defs]: "GOV_TELEM_PERIOD_MS = 100"
definition GOV_HEALTH_PERIOD_MS :: u32 where [gov_defs]: "GOV_HEALTH_PERIOD_MS = 50"

definition GOV_HS_CONTROL :: u32 where [gov_defs]: "GOV_HS_CONTROL = 0"
definition GOV_HS_LINK :: u32 where [gov_defs]: "GOV_HS_LINK = 1"
definition GOV_HS_SENSOR :: u32 where [gov_defs]: "GOV_HS_SENSOR = 2"
definition GOV_HEALTH_SUBSYS_COUNT :: u32 where [gov_defs]: "GOV_HEALTH_SUBSYS_COUNT = 3"

record gov_health =
  h_last_seen :: "u32 list"
  h_seen :: "bool list"
  h_consec_misses :: u32

text \<open>The loop of the initialisation writes every entry of the two arrays.\<close>

definition gov_health_init :: gov_health where
  "gov_health_init = \<lparr> h_last_seen = replicate (unat GOV_HEALTH_SUBSYS_COUNT) 0,
     h_seen = replicate (unat GOV_HEALTH_SUBSYS_COUNT) False, h_consec_misses = 0 \<rparr>"

definition gov_health_note_alive :: "gov_health \<Rightarrow> u32 \<Rightarrow> u32 \<Rightarrow> gov_health" where
  "gov_health_note_alive h sys tick =
     (if sys \<ge> GOV_HEALTH_SUBSYS_COUNT then h
      else h\<lparr> h_last_seen := (h_last_seen h)[unat sys := tick], h_seen := (h_seen h)[unat sys := True] \<rparr>)"

definition gov_health_note_deadline :: "gov_health \<Rightarrow> bool \<Rightarrow> gov_health" where
  "gov_health_note_deadline h met =
     (if met then h\<lparr> h_consec_misses := 0 \<rparr>
      else h\<lparr> h_consec_misses := h_consec_misses h + 1 \<rparr>)"

definition gov_health_subsys_alive :: "gov_health \<Rightarrow> u32 \<Rightarrow> u32 \<Rightarrow> u32 \<Rightarrow> bool" where
  "gov_health_subsys_alive h sys now threshold =
     (if sys \<ge> GOV_HEALTH_SUBSYS_COUNT then False
      else if \<not> h_seen h ! unat sys then False
      else (let age = now - h_last_seen h ! unat sys in age \<le> threshold))"

definition gov_health_all_alive :: "gov_health \<Rightarrow> u32 \<Rightarrow> u32 \<Rightarrow> bool" where
  "gov_health_all_alive h now threshold =
     list_all (\<lambda>i. gov_health_subsys_alive h (of_nat i) now threshold) [0..<unat GOV_HEALTH_SUBSYS_COUNT]"

definition gov_health_timing_fault :: "gov_health \<Rightarrow> bool" where
  "gov_health_timing_fault h \<longleftrightarrow> h_consec_misses h \<ge> GOV_MISS_LIMIT"

definition gov_health_consec_misses :: "gov_health \<Rightarrow> u32" where
  "gov_health_consec_misses h = h_consec_misses h"

definition gov_health_feed_watchdog :: "gov_health \<Rightarrow> u32 \<Rightarrow> u32 \<Rightarrow> bool" where
  "gov_health_feed_watchdog h now threshold \<longleftrightarrow>
     gov_health_all_alive h now threshold \<and> \<not> gov_health_timing_fault h"

text \<open>The null-pointer guards.\<close>

definition gov_health_init_ptr :: "gov_health ptr \<Rightarrow> gov_health ptr \<times> unit" where
  "gov_health_init_ptr = with_ptr () (\<lambda>_. (gov_health_init, ()))"

definition gov_health_note_alive_ptr :: "u32 \<Rightarrow> u32 \<Rightarrow> gov_health ptr \<Rightarrow> gov_health ptr \<times> unit" where
  "gov_health_note_alive_ptr sys tick = with_ptr () (\<lambda>h. (gov_health_note_alive h sys tick, ()))"

definition gov_health_note_deadline_ptr :: "bool \<Rightarrow> gov_health ptr \<Rightarrow> gov_health ptr \<times> unit" where
  "gov_health_note_deadline_ptr met = with_ptr () (\<lambda>h. (gov_health_note_deadline h met, ()))"

definition gov_health_subsys_alive_ptr :: "u32 \<Rightarrow> u32 \<Rightarrow> u32 \<Rightarrow> gov_health ptr \<Rightarrow> bool" where
  "gov_health_subsys_alive_ptr sys now threshold =
     read_ptr False (\<lambda>h. gov_health_subsys_alive h sys now threshold)"

definition gov_health_all_alive_ptr :: "u32 \<Rightarrow> u32 \<Rightarrow> gov_health ptr \<Rightarrow> bool" where
  "gov_health_all_alive_ptr now threshold = read_ptr False (\<lambda>h. gov_health_all_alive h now threshold)"

definition gov_health_timing_fault_ptr :: "gov_health ptr \<Rightarrow> bool" where
  "gov_health_timing_fault_ptr = read_ptr False gov_health_timing_fault"

definition gov_health_consec_misses_ptr :: "gov_health ptr \<Rightarrow> u32" where
  "gov_health_consec_misses_ptr = read_ptr 0 gov_health_consec_misses"

definition gov_health_feed_watchdog_ptr :: "u32 \<Rightarrow> u32 \<Rightarrow> gov_health ptr \<Rightarrow> bool" where
  "gov_health_feed_watchdog_ptr now threshold =
     read_ptr False (\<lambda>h. gov_health_feed_watchdog h now threshold)"

section \<open>Histories\<close>

datatype health_event = Alive u32 u32 | Deadline bool

fun health_step :: "gov_health \<Rightarrow> health_event \<Rightarrow> gov_health \<times> unit list" where
  "health_step h (Alive sys t) = (gov_health_note_alive h sys t, [])"
| "health_step h (Deadline met) = (gov_health_note_deadline h met, [])"

text \<open>The last report of a subsystem and the deadlines missed since the last one met.\<close>

fun last_report :: "nat \<Rightarrow> health_event list \<Rightarrow> u32 option" where
  "last_report i [] = None"
| "last_report i (e # es) =
     (case last_report i es of
        Some t \<Rightarrow> Some t
      | None \<Rightarrow> (case e of Alive sys t \<Rightarrow> (if unat sys = i then Some t else None) | Deadline _ \<Rightarrow> None))"

fun recent_misses :: "nat \<Rightarrow> health_event list \<Rightarrow> nat" where
  "recent_misses n [] = n"
| "recent_misses n (Alive _ _ # es) = recent_misses n es"
| "recent_misses n (Deadline met # es) = recent_misses (if met then 0 else Suc n) es"

definition health_wf :: "gov_health \<Rightarrow> bool" where
  "health_wf h \<longleftrightarrow> length (h_last_seen h) = 3 \<and> length (h_seen h) = 3"

text \<open>What the aggregator knows of one subsystem.\<close>

definition known_report :: "gov_health \<Rightarrow> nat \<Rightarrow> u32 option" where
  "known_report h i = (if h_seen h ! i then Some (h_last_seen h ! i) else None)"

section \<open>The state is a function of the history\<close>

lemma health_step_wf: "health_wf h \<Longrightarrow> health_wf (fst (health_step h e))"
  by (cases e) (simp_all add: health_wf_def gov_health_note_alive_def gov_health_note_deadline_def)

interpretation health: machine health_step "\<lambda>_. True" health_wf
  by unfold_locales (rule health_step_wf)

lemma known_step:
  assumes "health_wf h" and "i < 3"
  shows "known_report (fst (health_step h e)) i =
    (case e of Alive sys t \<Rightarrow> (if unat sys = i then Some t else known_report h i)
     | Deadline _ \<Rightarrow> known_report h i)"
  using assms by (cases e)
    (auto simp: known_report_def health_wf_def gov_health_note_alive_def gov_health_note_deadline_def
      GOV_HEALTH_SUBSYS_COUNT_def nth_list_update word_le_nat_alt)

lemma known_run:
  assumes "health_wf h" and "i < 3"
  shows "known_report (fst (run health_step h es)) i =
    (case last_report i es of Some t \<Rightarrow> Some t | None \<Rightarrow> known_report h i)"
  using assms
proof (induction es arbitrary: h)
  case Nil
  then show ?case by simp
next
  case (Cons e es)
  then show ?case using known_step [of h i e] health_step_wf [of h e]
    by (auto split: option.splits health_event.splits)
qed

lemma misses_run:
  "h_consec_misses h = of_nat n \<Longrightarrow> h_consec_misses (fst (run health_step h es)) = of_nat (recent_misses n es)"
proof (induction es arbitrary: h n)
  case Nil
  then show ?case by simp
next
  case (Cons e es)
  then show ?case
    by (cases e) (simp_all add: gov_health_note_alive_def gov_health_note_deadline_def add.commute)
qed

lemma all_alive_iff:
  "gov_health_all_alive h now thr \<longleftrightarrow> (\<forall>i < 3. \<exists>t. known_report h i = Some t \<and> now - t \<le> thr)"
proof -
  have "gov_health_subsys_alive h (of_nat i) now thr \<longleftrightarrow> (\<exists>t. known_report h i = Some t \<and> now - t \<le> thr)"
    if "i < 3" for i
  proof -
    have "unat (of_nat i :: u32) = i" using that by (simp add: unsigned_of_nat take_bit_eq_mod)
    with that show ?thesis
      by (auto simp: gov_health_subsys_alive_def known_report_def GOV_HEALTH_SUBSYS_COUNT_def
          word_le_nat_alt)
  qed
  then show ?thesis by (auto simp: gov_health_all_alive_def list_all_iff GOV_HEALTH_SUBSYS_COUNT_def)
qed

section \<open>Properties\<close>

text \<open>
  C27. The watchdog is fed exactly when the history allows it: after any sequence of liveness
  reports and deadline results, every one of the three subsystems has reported and its last
  report is at most the threshold old (across the wrap of the tick), and fewer than three
  deadlines were missed since the last one met, modulo the 32-bit counter. Reports of an unknown
  subsystem have no effect.
\<close>

theorem feed_watchdog_exact:
  "gov_health_feed_watchdog (fst (run health_step gov_health_init es)) now thr \<longleftrightarrow>
     (\<forall>i < 3. \<exists>t. last_report i es = Some t \<and> now - t \<le> thr) \<and> recent_misses 0 es mod 2 ^ 32 < 3"
proof -
  let ?h = "fst (run health_step gov_health_init es)"
  have wf: "health_wf gov_health_init"
    by (simp add: health_wf_def gov_health_init_def GOV_HEALTH_SUBSYS_COUNT_def)
  have k: "known_report ?h i = last_report i es" if "i < 3" for i
    using known_run [OF wf that, of es] that
    by (simp add: known_report_def gov_health_init_def GOV_HEALTH_SUBSYS_COUNT_def split: option.splits)
  have "h_consec_misses ?h = of_nat (recent_misses 0 es)"
    by (rule misses_run) (simp add: gov_health_init_def)
  then have "gov_health_timing_fault ?h \<longleftrightarrow> 3 \<le> recent_misses 0 es mod 2 ^ 32"
    by (simp add: gov_health_timing_fault_def GOV_MISS_LIMIT_def word_le_nat_alt unsigned_of_nat take_bit_eq_mod)
  then show ?thesis using k by (auto simp: gov_health_feed_watchdog_def all_alive_iff not_le)
qed

theorem feed_watchdog_exact_witness:
  "gov_health_feed_watchdog (fst (run health_step gov_health_init
     [Alive 0 0xFFFFFFF0, Alive 1 3, Alive 7 0, Deadline False, Alive 2 5])) 10 150"
proof -
  let ?es = "[Alive 0 0xFFFFFFF0, Alive 1 3, Alive 7 0, Deadline False, Alive 2 5]"
  have "last_report 0 ?es = Some 0xFFFFFFF0" "last_report 1 ?es = Some 3" "last_report 2 ?es = Some 5"
    by (simp_all)
  then have "\<exists>t. last_report i ?es = Some t \<and> 10 - t \<le> (150 :: u32)" if "i < 3" for i
    using that by (cases "i = 0"; cases "i = 1"; cases "i = 2") (simp_all add: word_le_nat_alt)
  then show ?thesis
    using feed_watchdog_exact [of ?es 10 150] by (simp del: last_report.simps)
qed

end
