(* ===== verification/Gov_Main.thy ===== *)
theory Gov_Main
  imports Gov_Runtime Gov_Sensor Gov_Persist Gov_Sender Gov_Ring Gov_Health
begin

text \<open>
  The application, \<^verbatim>\<open>src/main.c\<close>: boot, the five threads, the interrupt handler of the link and the
  timer of the control loop over one shared state. Each thread is a program counter with its live
  local variables; a step of a thread ends at its next access to an object that other threads use:
  a section under \<^verbatim>\<open>node_lock\<close> or \<^verbatim>\<open>slot_lock\<close>, a call on the health record, one statement of an
  operation of the link sender (\<open>Gov_Sender\<close>), one byte written to the UART. Every time stamp is an
  argument, read before the call and before the lock is taken, and so in an earlier step than the
  call. Calls on objects of one thread only (decoder and receiver, sensor, ring) share a step with
  what precedes or follows them. The scheduler may run any thread next, so every interleaving of
  these steps is a schedule, the ones that priorities rule out included. Of the log, the two lines
  with a meaning for tools are outputs: the timing trace and the status line. What a board provides
  (Kconfig and device tree) is a record of booleans; the Zephyr drivers are parameters. A step is
  \<open>None\<close> where C leaves the behaviour undefined (a conversion out of range, an index past a buffer,
  a call through a null pointer) or a call does not return.
\<close>

section \<open>Board and platform\<close>

record build =
  HAVE_LINK_UART :: bool
  HAVE_WDT :: bool
  HAVE_SENSOR :: bool
  CONFIG_HWINFO :: bool
  CONFIG_SETTINGS :: bool
  CONFIG_GOV_TIMING_TRACE :: bool

record ('b, 'n) platform =
  pf_i2c :: "'b i2c_api"
  pf_sensor_bus :: "'b ptr gov_bus"
  pf_settings :: "'n settings_api"
  pf_reset_cause :: "int \<times> u32"
  pf_RESET_WATCHDOG :: u32
  pf_wdt_ready :: bool
  pf_wdt_install :: int
  pf_uart_ready :: bool

section \<open>Threads and shared state\<close>

datatype control_pc = C_Start | C_Wait | C_Sampled | C_Step u32 | C_Stepped | C_Alive | C_Note u32

datatype rx_pc = X_Get | X_TxAck ack_pc | X_Post gov_event u32 "u8 list list" | X_Write "u8 list list" nat
  | X_Poll | X_Stamp | X_Note u32 bool u32 | X_Alive | X_NoteAlive u32

datatype tx_pc = T_Start | T_Poll poll_pc | T_Stamp bool | T_Note bool u32 | T_Clear clear_pc

datatype telem_pc = M_Fill | M_Push gov_telem_record | M_Send gov_telem_record send_pc | M_Status gov_telem_record

datatype health_pc = H_Start | H_Alive u32 | H_Stamp | H_Note bool u32 | H_FeedStamp | H_Feed u32

record 'b sys =
  y_node :: gov_node
  y_link_rx :: gov_rx
  y_link_tx :: gov_tx
  y_decoder :: gov_decoder
  y_ring :: gov_telem_ring
  y_health :: gov_health
  y_slot :: gov_sample_slot
  y_sensor :: gov_sensor
  y_bus :: "'b ptr gov_bus ptr"
  y_dev :: "'b ptr"
  y_byteq :: "u8 list"
  y_tick_sem :: bool
  y_timer_on :: bool
  y_last_tick :: u32
  y_telem_tick :: u32
  y_wdt_channel :: int
  y_uart_irq :: bool
  y_clock :: u32
  y_measurement :: f32
  y_control :: control_pc
  y_rx :: rx_pc
  y_tx :: tx_pc
  y_telem :: telem_pc
  y_hlth :: health_pc

text \<open>
  What leaves the node: the applied output, one byte on the link (the thread that writes, what it
  is writing and the index of the byte), a feed of the watchdog, the trace and the status line.
\<close>

datatype writer = Rx_Thread | Tx_Thread | Telem_Thread

datatype sys_out = Applied f32 | WireByte writer "u8 list" nat | WdtFeed | CtrlTick u32 | StatusLine string u32 i32 i32

text \<open>One iteration of the loop over the bytes; without a UART the callback only logs.\<close>

definition link_wire_out :: "build \<Rightarrow> writer \<Rightarrow> wire_byte \<Rightarrow> sys_out list" where
  "link_wire_out b th x = (if HAVE_LINK_UART b then [WireByte th (fst x) (snd x)] else [])"

text \<open>The bytes on the UART, in order.\<close>

definition uart_bytes :: "sys_out list \<Rightarrow> u8 list" where
  "uart_bytes out = concat (map (\<lambda>x. case x of WireByte th w i \<Rightarrow> [w ! i] | _ \<Rightarrow> []) out)"

section \<open>Interrupts\<close>

text \<open>The queue of received bytes holds 256; a byte that finds it full is dropped.\<close>

definition RX_BYTEQ_LEN :: nat where "RX_BYTEQ_LEN = 256"

definition msgq_put :: "u8 list \<Rightarrow> u8 \<Rightarrow> u8 list" where
  "msgq_put q b = (if length q < RX_BYTEQ_LEN then q @ [b] else q)"

definition link_uart_isr :: "'b sys \<Rightarrow> u8 list \<Rightarrow> 'b sys" where
  "link_uart_isr s bs = s\<lparr> y_byteq := foldl msgq_put (y_byteq s) bs \<rparr>"

text \<open>The timer fires once it has been started; the semaphore counts to one.\<close>

definition control_timer_fn :: "'b sys \<Rightarrow> 'b sys" where
  "control_timer_fn s = (if y_timer_on s then s\<lparr> y_tick_sem := True \<rparr> else s)"

section \<open>Sections under the node's lock\<close>

definition locked_post_event :: "'b sys \<Rightarrow> gov_event \<Rightarrow> u32 \<Rightarrow> 'b sys" where
  "locked_post_event s ev t = s\<lparr> y_node := gov_node_post_event (y_node s) ev t \<rparr>"

definition locked_note_sensor :: "'b sys \<Rightarrow> u32 \<Rightarrow> bool \<Rightarrow> u32 \<Rightarrow> 'b sys" where
  "locked_note_sensor s sflags ok t = s\<lparr> y_node := gov_node_note_sensor (y_node s) sflags ok t \<rparr>"

definition locked_note_link :: "'b sys \<Rightarrow> bool \<Rightarrow> u32 \<Rightarrow> 'b sys" where
  "locked_note_link s ok t = s\<lparr> y_node := gov_node_note_link (y_node s) ok t \<rparr>"

definition locked_note_timing :: "'b sys \<Rightarrow> bool \<Rightarrow> u32 \<Rightarrow> 'b sys" where
  "locked_note_timing s ok t = s\<lparr> y_node := gov_node_note_timing (y_node s) ok t \<rparr>"

definition locked_control_step :: "'b sys \<Rightarrow> f32 \<Rightarrow> u32 \<Rightarrow> ('b sys \<times> f32) option" where
  "locked_control_step s meas t =
     map_option (\<lambda>(n, applied). (s\<lparr> y_node := n \<rparr>, applied)) (gov_node_control_step (y_node s) meas t)"

definition locked_fill_telemetry :: "'b sys \<Rightarrow> gov_telem_record option" where
  "locked_fill_telemetry s = gov_node_fill_telemetry (y_node s)"

definition locked_selftest_ok :: "'b sys \<Rightarrow> u32 \<Rightarrow> 'b sys" where
  "locked_selftest_ok s t = s\<lparr> y_node := gov_node_selftest_ok (y_node s) t \<rparr>"

section \<open>Link callbacks\<close>

text \<open>The event that a delivered frame posts, if any.\<close>

definition on_app_deliver :: "gov_frame \<Rightarrow> gov_event option" where
  "on_app_deliver f =
     (if f_type f \<noteq> GOV_TYPE_CMD \<or> length (f_payload f) < 1 then None
      else if f_payload f ! 0 = 0xE5 then Some GOV_EV_OPERATOR_STOP
      else if f_payload f ! 0 = 0xC1 then Some GOV_EV_OPERATOR_CLEAR
      else None)"

text \<open>
  An acknowledgement starts the operation of the sender; any other frame goes to the receiver,
  whose delivery callback runs before its acknowledgement is written.
\<close>

definition on_decoded_frame :: "'b sys \<Rightarrow> gov_frame \<Rightarrow> 'b sys" where
  "on_decoded_frame s f =
     (if f_type f = GOV_TYPE_ACK \<and> length (f_payload f) \<ge> 1
      then s\<lparr> y_rx := X_TxAck (A_State (f_payload f ! 0)) \<rparr>
      else
        let (rx, out) = gov_rx_on_frame (y_link_rx s) f;
            s1 = s\<lparr> y_link_rx := rx \<rparr>
        in case (case apps out of [] \<Rightarrow> None | g # _ \<Rightarrow> on_app_deliver g) of
             None \<Rightarrow> s1\<lparr> y_rx := X_Write (wires out) 0 \<rparr>
           | Some ev \<Rightarrow> s1\<lparr> y_rx := X_Post ev (y_clock s1) (wires out) \<rparr>)"

section \<open>The threads\<close>

definition control_step ::
  "build \<Rightarrow> 'b sys \<Rightarrow> ('b sys \<times> sys_out list) option" where
  "control_step b s =
     (case y_control s of
        C_Start \<Rightarrow> Some (s\<lparr> y_last_tick := y_clock s, y_timer_on := True, y_control := C_Wait \<rparr>, [])
      | C_Wait \<Rightarrow>
          (if \<not> y_tick_sem s then Some (s, [])
           else let (slot, v, have_sample) = gov_slot_get (y_slot s) 0 in
             Some (s\<lparr> y_tick_sem := False, y_last_tick := y_clock s, y_slot := slot,
                      y_measurement := (if have_sample then f32_of_int (sint v) else y_measurement s),
                      y_control := C_Sampled \<rparr>,
                   if CONFIG_GOV_TIMING_TRACE b then [CtrlTick (y_clock s - y_last_tick s)] else []))
      | C_Sampled \<Rightarrow> Some (s\<lparr> y_control := C_Step (y_clock s) \<rparr>, [])
      | C_Step t \<Rightarrow>
          map_option (\<lambda>(s', applied). (s'\<lparr> y_control := C_Stepped \<rparr>, [Applied applied]))
            (locked_control_step s (y_measurement s) t)
      | C_Stepped \<Rightarrow>
          (let s1 = (if \<not> HAVE_SENSOR b then s\<lparr> y_measurement := gov_plant_output (n_plant (y_node s)) \<rparr> else s)
           in Some (s1\<lparr> y_health := gov_health_note_deadline (y_health s1) True, y_control := C_Alive \<rparr>, []))
      | C_Alive \<Rightarrow> Some (s\<lparr> y_control := C_Note (y_clock s) \<rparr>, [])
      | C_Note t \<Rightarrow>
          Some (s\<lparr> y_health := gov_health_note_alive (y_health s) GOV_HS_CONTROL t, y_control := C_Wait \<rparr>, []))"

text \<open>What follows the queue. A push of the decoder delivers at most one frame.\<close>

definition rx_next :: "build \<Rightarrow> rx_pc" where
  "rx_next b = (if HAVE_SENSOR b then X_Poll else X_Alive)"

definition rx_receive :: "build \<Rightarrow> 'b sys \<Rightarrow> 'b sys" where
  "rx_receive b s =
     (case y_byteq s of [] \<Rightarrow> s\<lparr> y_rx := rx_next b \<rparr>
      | byte # q \<Rightarrow>
        let (d, fs) = gov_decoder_push (y_decoder s) byte;
            s1 = s\<lparr> y_byteq := q, y_decoder := d \<rparr>
        in case fs of [] \<Rightarrow> s1\<lparr> y_rx := rx_next b \<rparr>
           | f # _ \<Rightarrow> on_decoded_frame s1 f)"

text \<open>The poll calls through the pointer to the bus in the driver's configuration, here \<open>y_bus\<close>.\<close>

definition rx_poll :: "'b sys \<Rightarrow> 'b sys option" where
  "rx_poll s =
     (case y_bus s of None \<Rightarrow> None
      | Some bus \<Rightarrow>
        case gov_sensor_poll bus (y_sensor s) None (y_dev s) of None \<Rightarrow> None
        | Some (sn, _, dev, h) \<Rightarrow>
          let s1 = s\<lparr> y_sensor := sn, y_dev := dev \<rparr> in
          Some ((if h = GOV_SENSOR_HEALTHY \<and> gov_sensor_has_value sn
                 then s1\<lparr> y_slot := gov_slot_push (y_slot s1) (gov_sensor_value sn) \<rparr> else s1)
                \<lparr> y_rx := X_Stamp \<rparr>))"

definition link_rx_step ::
  "build \<Rightarrow> 'b sys \<Rightarrow> ('b sys \<times> sys_out list) option" where
  "link_rx_step b s =
     (case y_rx s of
        X_Get \<Rightarrow> Some (rx_receive b s, [])
      | X_TxAck pc \<Rightarrow>
          (if pc = A_Done then Some (s\<lparr> y_rx := rx_next b \<rparr>, [])
           else let (tx, pc') = ack_step (y_link_tx s) pc in Some (s\<lparr> y_link_tx := tx, y_rx := X_TxAck pc' \<rparr>, []))
      | X_Post ev t ws \<Rightarrow> Some ((locked_post_event s ev t)\<lparr> y_rx := X_Write ws 0 \<rparr>, [])
      | X_Write ws i \<Rightarrow>
          (case ws of [] \<Rightarrow> Some (s\<lparr> y_rx := rx_next b \<rparr>, [])
           | w # ws' \<Rightarrow>
             if i < length w then Some (s\<lparr> y_rx := X_Write ws (i + 1) \<rparr>, link_wire_out b Rx_Thread (w, i))
             else Some (s\<lparr> y_rx := X_Write ws' 0 \<rparr>, []))
      | X_Poll \<Rightarrow> map_option (\<lambda>s'. (s', [])) (rx_poll s)
      | X_Stamp \<Rightarrow>
          (let sensor_ok = (gov_sensor_health_of (y_sensor s) \<noteq> GOV_SENSOR_FAULTED) in
           Some (s\<lparr> y_rx := X_Note (gov_sensor_faults (y_sensor s)) sensor_ok (y_clock s) \<rparr>, []))
      | X_Note sflags ok t \<Rightarrow> Some ((locked_note_sensor s sflags ok t)\<lparr> y_rx := X_Alive \<rparr>, [])
      | X_Alive \<Rightarrow> Some (s\<lparr> y_rx := X_NoteAlive (y_clock s) \<rparr>, [])
      | X_NoteAlive t \<Rightarrow>
          Some (s\<lparr> y_health := gov_health_note_alive (y_health s) GOV_HS_LINK t, y_rx := X_Get \<rparr>, []))"

definition link_tx_step :: "build \<Rightarrow> 'b sys \<Rightarrow> ('b sys \<times> sys_out list) option" where
  "link_tx_step b s =
     (case y_tx s of
        T_Start \<Rightarrow> Some (s\<lparr> y_tx := T_Poll (P_State (y_clock s)) \<rparr>, [])
      | T_Poll (P_Done st) \<Rightarrow> Some (s\<lparr> y_tx := T_Stamp (st \<noteq> GOV_TX_LINK_FAULT) \<rparr>, [])
      | T_Poll pc \<Rightarrow>
          map_option (\<lambda>(tx, pc', out). (s\<lparr> y_link_tx := tx, y_tx := T_Poll pc' \<rparr>, concat (map (link_wire_out b Tx_Thread) out)))
            (poll_step (y_link_tx s) pc)
      | T_Stamp link_ok \<Rightarrow> Some (s\<lparr> y_tx := T_Note link_ok (y_clock s) \<rparr>, [])
      | T_Note link_ok t \<Rightarrow>
          Some ((locked_note_link s link_ok t)\<lparr> y_tx := (if \<not> link_ok then T_Clear K_State else T_Start) \<rparr>, [])
      | T_Clear pc \<Rightarrow>
          (if pc = K_Done then Some (s\<lparr> y_tx := T_Start \<rparr>, [])
           else let (tx, pc') = clear_step (y_link_tx s) pc in Some (s\<lparr> y_link_tx := tx, y_tx := T_Clear pc' \<rparr>, [])))"

text \<open>The cast of the state byte of a record to the enumeration.\<close>

definition gov_state_of :: "u8 \<Rightarrow> gov_state" where
  "gov_state_of x = (if x = 0 then GOV_ST_INIT else if x = 1 then GOV_ST_RUN else if x = 2 then GOV_ST_DEGRADED
     else if x = 3 then GOV_ST_SAFE_STOP else if x = 4 then GOV_ST_FAULT_HALT else GOV_ST_COUNT)"

text \<open>The record that is popped and the payload buffer are on the stack.\<close>

definition telemetry_push :: "build \<Rightarrow> 'b sys \<Rightarrow> gov_telem_record \<Rightarrow> 'b sys" where
  "telemetry_push b s rec =
     (let (ring1, _) = gov_telem_ring_push (y_ring s) rec;
          s1 = s\<lparr> y_ring := ring1, y_telem := M_Status rec \<rparr>
      in if \<not> HAVE_LINK_UART b then s1
         else let (ring2, out, got) = gov_telem_ring_pop ring1 telem_zero;
                  s2 = s1\<lparr> y_ring := ring2 \<rparr>
              in if \<not> got then s2
                 else let (payload, n) = gov_telem_encode (Some out) (Some (replicate GOV_TELEM_DATA_LEN 0)) GOV_TELEM_DATA_LEN
                      in if n = 0 then s2
                         else s2\<lparr> y_telem := M_Send rec (S_State GOV_TYPE_DATA payload (of_nat n) (y_clock s2)) \<rparr>)"

definition telemetry_step :: "build \<Rightarrow> 'b sys \<Rightarrow> ('b sys \<times> sys_out list) option" where
  "telemetry_step b s =
     (case y_telem s of
        M_Fill \<Rightarrow> map_option (\<lambda>rec. (s\<lparr> y_telem := M_Push rec \<rparr>, [])) (locked_fill_telemetry s)
      | M_Push rec \<Rightarrow> Some (telemetry_push b s rec, [])
      | M_Send rec (S_Done st) \<Rightarrow> Some (s\<lparr> y_telem := M_Status rec \<rparr>, [])
      | M_Send rec pc \<Rightarrow>
          map_option (\<lambda>(tx, pc', out). (s\<lparr> y_link_tx := tx, y_telem := M_Send rec pc' \<rparr>,
                                       concat (map (link_wire_out b Telem_Thread) out)))
            (send_step (y_link_tx s) pc)
      | M_Status rec \<Rightarrow>
          Some (s\<lparr> y_telem_tick := y_telem_tick s + 1, y_telem := M_Fill \<rparr>,
                if y_telem_tick s mod 10 = 0
                then [StatusLine (gov_safety_state_name (gov_state_of (t_state rec))) (t_fault_flags rec)
                        (t_measurement rec) (t_output rec)]
                else []))"

definition watchdog_feed :: "build \<Rightarrow> 'b sys \<Rightarrow> sys_out list" where
  "watchdog_feed b s = (if HAVE_WDT b \<and> y_wdt_channel s \<ge> 0 then [WdtFeed] else [])"

definition health_thread_step :: "build \<Rightarrow> 'b sys \<Rightarrow> ('b sys \<times> sys_out list) option" where
  "health_thread_step b s =
     (case y_hlth s of
        H_Start \<Rightarrow> Some (s\<lparr> y_hlth := H_Alive (y_clock s) \<rparr>, [])
      | H_Alive t \<Rightarrow>
          Some (s\<lparr> y_health := gov_health_note_alive (y_health s) GOV_HS_SENSOR t, y_hlth := H_Stamp \<rparr>, [])
      | H_Stamp \<Rightarrow> Some (s\<lparr> y_hlth := H_Note (\<not> gov_health_timing_fault (y_health s)) (y_clock s) \<rparr>, [])
      | H_Note ok t \<Rightarrow> Some ((locked_note_timing s ok t)\<lparr> y_hlth := H_FeedStamp \<rparr>, [])
      | H_FeedStamp \<Rightarrow> Some (s\<lparr> y_hlth := H_Feed (y_clock s) \<rparr>, [])
      | H_Feed t \<Rightarrow>
          Some (s\<lparr> y_hlth := H_Start \<rparr>,
                if gov_health_feed_watchdog (y_health s) t (3 * GOV_HEALTH_PERIOD_MS)
                then watchdog_feed b s else []))"

section \<open>Schedules\<close>

text \<open>
  The scheduler picks a thread, the timer fires, the clock of 32 bits goes on by some
  milliseconds, or the link interrupt brings bytes (only once it is enabled).
\<close>

datatype move = Control | LinkRx | LinkTx | Telemetry | Health | Timer | Clock u32 | Uart "u8 list"

definition sys_step ::
  "build \<Rightarrow> 'b sys \<Rightarrow> move \<Rightarrow> ('b sys \<times> sys_out list) option" where
  "sys_step b s m =
     (case m of
        Control \<Rightarrow> control_step b s
      | LinkRx \<Rightarrow> link_rx_step b s
      | LinkTx \<Rightarrow> link_tx_step b s
      | Telemetry \<Rightarrow> telemetry_step b s
      | Health \<Rightarrow> health_thread_step b s
      | Timer \<Rightarrow> Some (control_timer_fn s, [])
      | Clock d \<Rightarrow> Some (s\<lparr> y_clock := y_clock s + d \<rparr>, [])
      | Uart bs \<Rightarrow> Some (if y_uart_irq s then link_uart_isr s bs else s, []))"

section \<open>Boot\<close>

definition was_watchdog_reset :: "build \<Rightarrow> ('b, 'n) platform \<Rightarrow> bool" where
  "was_watchdog_reset b pf =
     (if CONFIG_HWINFO b then
        (let (rc, cause) = pf_reset_cause pf in rc = 0 \<and> cause AND pf_RESET_WATCHDOG pf \<noteq> 0)
      else False)"

definition SENSOR_CFG :: gov_sensor_cfg where
  "SENSOR_CFG = \<lparr> sc_addr = GOV_SENSOR_I2C_ADDR, sc_reg = GOV_SENSOR_I2C_REG, sc_read_len = 2,
     sc_range_min = 0, sc_range_max = 100, sc_dropout_limit = 5, sc_stuck_limit = 50, sc_nak_retries = 3 \<rparr>"

definition sensor_setup :: "build \<Rightarrow> ('b, 'n) platform \<Rightarrow> 'b \<Rightarrow> 'b sys \<Rightarrow> 'b sys \<times> bool" where
  "sensor_setup b pf dev s =
     (if \<not> HAVE_SENSOR b then (s, True)
      else let (bus, ok) = gov_hal_zephyr_init (pf_i2c pf) dev (Some (pf_sensor_bus pf)) in
        if \<not> ok then (s, False)
        else (s\<lparr> y_bus := bus, y_dev := Some dev, y_sensor := gov_sensor_init SENSOR_CFG \<rparr>, True))"

definition watchdog_setup :: "build \<Rightarrow> ('b, 'n) platform \<Rightarrow> 'b sys \<Rightarrow> 'b sys" where
  "watchdog_setup b pf s =
     (if \<not> HAVE_WDT b \<or> \<not> pf_wdt_ready pf then s else s\<lparr> y_wdt_channel := pf_wdt_install pf \<rparr>)"

text \<open>The setpoint: the persisted one, with the boot counter bumped and saved, or the default.\<close>

definition boot_setpoint :: "build \<Rightarrow> ('b, 'n) platform \<Rightarrow> 'n persist \<Rightarrow> f32 \<times> 'n persist" where
  "boot_setpoint b pf p =
     (if \<not> CONFIG_SETTINGS b then (f32_lit 50 1, p)
      else case gov_persist_init (pf_settings pf) p of
             (Some (ctx, cfg), p1, True) \<Rightarrow>
               (let (ctx', p2, ok) = gov_persist_save ctx (cfg\<lparr> cfg_boot_count := cfg_boot_count cfg + 1 \<rparr>) p1
                in (f32_of_int (sint (cfg_setpoint cfg)), p2))
           | (_, p1, _) \<Rightarrow> (f32_lit 50 1, p1))"

text \<open>The static objects before \<^verbatim>\<open>main\<close> runs: all zero.\<close>

definition zero_pid :: gov_pid where
  "zero_pid = \<lparr> pd_cfg = \<lparr> pc_kp = Fin 0, pc_ki = Fin 0, pc_kd = Fin 0, pc_out_min = Fin 0, pc_out_max = Fin 0,
       pc_integ_min = Fin 0, pc_integ_max = Fin 0, pc_diverge_limit = Fin 0, pc_diverge_ms = 0 \<rparr>,
     pd_integ = Fin 0, pd_prev_meas = Fin 0, pd_has_prev = False, pd_saturated = False, pd_div_accum_ms = 0,
     pd_diverging = False \<rparr>"

definition zero_node :: gov_node where
  "zero_node = \<lparr> n_safety = gov_safety_init, n_pid = zero_pid,
     n_plant = \<lparr> pl_cfg = \<lparr> lc_tau_s = Fin 0, lc_gain = Fin 0, lc_y0 = Fin 0 \<rparr>, pl_y = Fin 0, pl_disturbance = Fin 0 \<rparr>,
     n_setpoint = Fin 0, n_tick_ms = 0, n_seq = 0, n_last_output = Fin 0, n_last_measurement = Fin 0,
     n_driver_faults = 0, n_active_causes = 0 \<rparr>"

definition zero_sensor :: gov_sensor where
  "zero_sensor = \<lparr> sn_cfg = \<lparr> sc_addr = 0, sc_reg = 0, sc_read_len = 0, sc_range_min = 0, sc_range_max = 0,
       sc_dropout_limit = 0, sc_stuck_limit = 0, sc_nak_retries = 0 \<rparr>,
     sn_flags = 0, sn_last_good = 0, sn_has_last_good = False, sn_nodata_cnt = 0, sn_stuck_cnt = 0 \<rparr>"

definition zero_ring :: gov_telem_ring where
  "zero_ring = \<lparr> r_buf = replicate (unat GOV_TELEM_RING_SLOTS) telem_zero, r_head = 0, r_tail = 0, r_drops = 0 \<rparr>"

definition main_init :: "build \<Rightarrow> ('b, 'n) platform \<Rightarrow> f32 \<Rightarrow> u32 \<Rightarrow> 'b sys" where
  "main_init b pf setpoint t0 =
     \<lparr> y_node = (let n = gov_node_init zero_node setpoint in
                 if was_watchdog_reset b pf then n\<lparr> n_safety := gov_safety_init_sticky GOV_FAULT_WATCHDOG \<rparr> else n),
       y_link_rx = gov_rx_init True True, y_link_tx = gov_tx_init True, y_decoder = gov_decoder_init True,
       y_ring = gov_telem_ring_init zero_ring, y_health = gov_health_init, y_slot = gov_slot_init,
       y_sensor = zero_sensor, y_bus = None, y_dev = None, y_byteq = [], y_tick_sem = False, y_timer_on = False,
       y_last_tick = 0, y_telem_tick = 0, y_wdt_channel = - 1,
       y_uart_irq = False, y_clock = t0, y_measurement = Fin 0, y_control = C_Start, y_rx = X_Get, y_tx = T_Start,
       y_telem = M_Fill, y_hlth = H_Start \<rparr>"

definition gov_main :: "build \<Rightarrow> ('b, 'n) platform \<Rightarrow> 'b \<Rightarrow> 'n persist \<Rightarrow> u32 \<Rightarrow> 'b sys \<times> 'n persist" where
  "gov_main b pf dev p t0 =
     (let (setpoint, p') = boot_setpoint b pf p;
          s1 = main_init b pf setpoint t0;
          (s2, ok) = sensor_setup b pf dev s1;
          s3 = watchdog_setup b pf s2;
          s4 = (if HAVE_LINK_UART b \<and> pf_uart_ready pf then s3\<lparr> y_uart_irq := True \<rparr> else s3);
          s5 = (if ok then locked_selftest_ok s4 (y_clock s4)
                else locked_post_event s4 GOV_EV_SELFTEST_FAIL (y_clock s4))
      in (s5, p'))"

section \<open>The invariant\<close>

fun rx_pc_ok :: "build \<Rightarrow> rx_pc \<Rightarrow> bool" where
  "rx_pc_ok b (X_Post ev t ws) =
     ((ev = GOV_EV_OPERATOR_STOP \<or> ev = GOV_EV_OPERATOR_CLEAR) \<and> list_all is_frame ws)"
| "rx_pc_ok b (X_Write ws i) = list_all is_frame ws"
| "rx_pc_ok b X_Poll = HAVE_SENSOR b"
| "rx_pc_ok b X_Stamp = HAVE_SENSOR b"
| "rx_pc_ok b (X_Note sflags ok t) = bits_in sflags GOV_FAULT_SENSOR_ANY_DRIVER"
| "rx_pc_ok b pc = True"

fun tx_pc_ok :: "gov_tx \<Rightarrow> tx_pc \<Rightarrow> bool" where
  "tx_pc_ok tx (T_Poll pc) = poll_ok tx pc"
| "tx_pc_ok tx pc = True"

definition rec_ok :: "gov_telem_record \<Rightarrow> bool" where
  "rec_ok rec \<longleftrightarrow> t_state rec < 5 \<and> 0 \<le> sint (t_output rec) \<and> sint (t_output rec) \<le> 100"

fun telem_pc_ok :: "gov_tx \<Rightarrow> telem_pc \<Rightarrow> bool" where
  "telem_pc_ok tx M_Fill = True"
| "telem_pc_ok tx (M_Push rec) = rec_ok rec"
| "telem_pc_ok tx (M_Send rec pc) = (rec_ok rec \<and> send_ok tx pc)"
| "telem_pc_ok tx (M_Status rec) = rec_ok rec"

text \<open>
  The node keeps its invariant; measurements and the mailbox are within 0 to 100; the driver's
  state is explained by a history of reads; the link's sender is safe at the point where each
  thread is in its operations; with a link the telemetry ring is empty between iterations. The
  decoder is in a state of its specification with its buffer at full size, so that its indices are
  within the buffer; the arrays of the health record have their size and the queue of received
  bytes its bound.
\<close>

definition sensor_ok :: "'b i2c_api \<Rightarrow> 'b sys \<Rightarrow> bool" where
  "sensor_ok api s \<longleftrightarrow> y_bus s = Some (zbus api) \<and> (\<exists>rs. explains SENSOR_CFG rs (y_sensor s))"

definition node_ok :: "gov_node \<Rightarrow> bool" where
  "node_ok n \<longleftrightarrow> node_inv n \<and> below_2_31 (n_setpoint n) \<and> f32_in (n_last_measurement n) 0 100"

definition ring_idle :: "build \<Rightarrow> gov_telem_ring \<Rightarrow> bool" where
  "ring_idle b r \<longleftrightarrow> ring_inv r \<and> (HAVE_LINK_UART b \<longrightarrow> ring_list r = [])"

definition slot_ok :: "gov_sample_slot \<Rightarrow> bool" where
  "slot_ok x \<longleftrightarrow> (slot_fresh x \<longrightarrow> 0 \<le> sint (slot_value x) \<and> sint (slot_value x) \<le> 100)"

definition decoder_ok :: "gov_decoder \<Rightarrow> bool" where
  "decoder_ok d \<longleftrightarrow> (\<exists>c. represents d c) \<and> length (d_payload d) = GOV_MAX_PAYLOAD"

definition rx_callbacks :: "gov_rx \<Rightarrow> bool" where
  "rx_callbacks rx \<longleftrightarrow> rx_wire rx \<and> rx_deliver rx"

definition sender_ok :: "'b sys \<Rightarrow> bool" where
  "sender_ok s \<longleftrightarrow> tx_mem (y_link_tx s) \<and> tx_pc_ok (y_link_tx s) (y_tx s) \<and> telem_pc_ok (y_link_tx s) (y_telem s)"

definition sys_inv :: "build \<Rightarrow> 'b i2c_api \<Rightarrow> 'b sys \<Rightarrow> bool" where
  "sys_inv b api s \<longleftrightarrow>
     node_ok (y_node s) \<and> f32_in (y_measurement s) 0 100 \<and> slot_ok (y_slot s) \<and>
     (HAVE_SENSOR b \<longrightarrow> sensor_ok api s) \<and> sender_ok s \<and> ring_idle b (y_ring s) \<and>
     rx_pc_ok b (y_rx s) \<and> rx_callbacks (y_link_rx s) \<and> decoder_ok (y_decoder s) \<and> health_wf (y_health s) \<and>
     length (y_byteq s) \<le> RX_BYTEQ_LEN"

text \<open>
  An output on the actuator is a whole number from 0 to 100. A byte on the link is within what its
  thread is writing, which is one complete frame: always for acknowledgements and new frames, but
  not for retransmissions, which read the buffer of the sender while it may change. The status
  line names one of the five states.
\<close>

definition state_names :: "string list" where
  "state_names = map gov_safety_state_name [GOV_ST_INIT, GOV_ST_RUN, GOV_ST_DEGRADED, GOV_ST_SAFE_STOP, GOV_ST_FAULT_HALT]"

fun out_ok :: "sys_out \<Rightarrow> bool" where
  "out_ok (Applied u) = percent u"
| "out_ok (WireByte th w i) = (i < length w \<and> (th \<noteq> Tx_Thread \<longrightarrow> is_frame w))"
| "out_ok WdtFeed = True"
| "out_ok (CtrlTick dt) = True"
| "out_ok (StatusLine nm fl m u) = (nm \<in> set state_names \<and> 0 \<le> sint u \<and> sint u \<le> 100)"

lemma wire_out_ok [intro]:
  "x \<in> set (link_wire_out b th (w, i)) \<Longrightarrow> i < length w \<Longrightarrow> (th \<noteq> Tx_Thread \<Longrightarrow> is_frame w) \<Longrightarrow> out_ok x"
  by (auto simp: link_wire_out_def split: if_splits)

section \<open>The node inside the system\<close>

lemma node_call_ok:
  assumes "node_ok n" and "call_ok c" and "node_step n c t = Some (n', us)" and "\<And>m. c \<noteq> ControlStep m"
  shows "node_ok n'"
proof -
  have inv: "node_inv n'" using node_step_inv [of n c t] assms(1-3) by (auto simp: node_ok_def)
  have "n_setpoint n' = n_setpoint n \<and> n_last_measurement n' = n_last_measurement n"
    using assms(3,4)
    by (cases c) (auto simp: note_sensor_keeps post_event_keeps gov_node_note_link_def gov_node_note_timing_def
        gov_node_selftest_ok_def safety_call_def)
  with inv assms(1) show ?thesis by (simp add: node_ok_def)
qed

lemma percent_mag: "f32_in m 0 100 \<Longrightarrow> mag m 31"
  by (rule in_mag [of m 0 100]) simp_all

lemma percent_below: "f32_in m 0 100 \<Longrightarrow> below_2_31 m"
  by (cases m) (auto simp: f32_in_def below_2_31_def)

lemma control_ok:
  assumes "node_ok n" and "f32_in m 0 100"
  shows "\<exists>n' u. gov_node_control_step n m t = Some (n', u) \<and> node_ok n' \<and> percent u"
proof -
  obtain n' k where n': "gov_node_control_step n m t = Some (n', Fin (of_int (let_through (gov_node_state n') k)))"
    "0 \<le> k" "k \<le> 100" "node_inv n'" "n_last_measurement n' = m" "n_setpoint n' = n_setpoint n"
    using control_step_ok [of n m t] percent_mag [OF assms(2)] assms(1) unfolding node_ok_def by blast
  then show ?thesis
    using assms let_through_bounds [OF n'(2,3)] by (auto simp: node_ok_def percent_def)
qed

section \<open>The sensor inside the system\<close>

lemma sensor_bits: "sflags_all = GOV_FAULT_SENSOR_ANY_DRIVER"
  by (simp add: sflags_all_def gov_defs fault_values)

lemma sensor_flags_ok: "explains SENSOR_CFG rs sn \<Longrightarrow> bits_in (gov_sensor_faults sn) GOV_FAULT_SENSOR_ANY_DRIVER"
  by (simp add: explains_def gov_sensor_faults_def sensor_bits)

lemma sensor_value_ok:
  assumes "explains SENSOR_CFG rs sn" and "gov_sensor_has_value sn"
  shows "0 \<le> sint (gov_sensor_value sn) \<and> sint (gov_sensor_value sn) \<le> 100"
proof -
  have "accepted SENSOR_CFG rs \<noteq> []" "gov_sensor_value sn = last (accepted SENSOR_CFG rs)"
    using assms by (auto simp: explains_def gov_sensor_has_value_def gov_sensor_value_def)
  then have "gov_sensor_value sn \<in> set (accepted SENSOR_CFG rs)" by simp
  then have "in_range SENSOR_CFG (gov_sensor_value sn)" by (simp add: accepted_def)
  then show ?thesis by (simp add: in_range_def SENSOR_CFG_def)
qed

lemma rx_poll_ok:
  assumes "sensor_ok api s" and "slot_ok (y_slot s)"
  shows "\<exists>sn dev slot. rx_poll s = Some (s\<lparr> y_sensor := sn, y_dev := dev, y_slot := slot, y_rx := X_Stamp \<rparr>) \<and>
    (\<exists>rs. explains SENSOR_CFG rs sn) \<and> slot_ok slot"
proof -
  obtain rs where e: "explains SENSOR_CFG rs (y_sensor s)" and b: "y_bus s = Some (zbus api)"
    using assms(1) by (auto simp: sensor_ok_def)
  have c: "sn_cfg (y_sensor s) = SENSOR_CFG" using e by (simp add: explains_def)
  obtain dev r where t: "try_reads (zbus api) (sn_cfg (y_sensor s)) (unat (sc_nak_retries (sn_cfg (y_sensor s)))) (y_dev s) = (dev, r)"
    by (metis surj_pair)
  have n: "sc_nak_retries (sn_cfg (y_sensor s)) \<noteq> 255" by (simp add: c SENSOR_CFG_def)
  obtain sn sl where o: "on_status (y_sensor s) (fst r) (snd r) None = (sn, sl)" by fastforce
  have e': "explains SENSOR_CFG (rs @ [r]) sn" using on_status_explains [OF e, of r None] o by simp
  let ?slot = "if gov_sensor_health_of sn = GOV_SENSOR_HEALTHY \<and> gov_sensor_has_value sn
    then gov_slot_push (y_slot s) (gov_sensor_value sn) else y_slot s"
  have "slot_ok ?slot"
    using assms(2) sensor_value_ok [OF e'] by (auto simp: slot_ok_def gov_slot_push_def)
  moreover have "rx_poll s = Some (s\<lparr> y_sensor := sn, y_dev := dev, y_slot := ?slot, y_rx := X_Stamp \<rparr>)"
    using poll_spec [OF n t, of None] o b by (auto simp: rx_poll_def Let_def)
  ultimately show ?thesis using e' by blast
qed

section \<open>The threads keep the invariant\<close>

lemma of_int_percent:
  assumes "0 \<le> k" "k \<le> 100"
  shows "f32_in (f32_of_int k) 0 100"
  using assms by (simp add: f32_of_int_exact f32_in_def)

lemma health_ok:
  assumes "health_wf h"
  shows "health_wf (gov_health_note_alive h i t)" and "health_wf (gov_health_note_deadline h met)"
  using health.step_invar [OF assms, of "Alive i t"] health.step_invar [OF assms, of "Deadline met"] by simp_all

lemma control_thread_ok:
  assumes "sys_inv b api s"
  shows "\<exists>s' out. control_step b s = Some (s', out) \<and> sys_inv b api s' \<and> (\<forall>x \<in> set out. out_ok x)"
proof (cases "y_control s")
  case C_Wait
  then show ?thesis
    using assms of_int_percent
    by (auto simp: control_step_def sys_inv_def slot_ok_def gov_slot_get_def sensor_ok_def sender_ok_def)
next
  case (C_Step t)
  obtain n' u where "gov_node_control_step (y_node s) (y_measurement s) t = Some (n', u)" "node_ok n'" "percent u"
    using control_ok [of "y_node s" "y_measurement s" t] assms by (auto simp: sys_inv_def)
  then show ?thesis
    using C_Step assms by (auto simp: control_step_def locked_control_step_def sys_inv_def sensor_ok_def sender_ok_def)
next
  case C_Stepped
  have "f32_in (gov_plant_output (n_plant (y_node s))) 0 100"
    using assms by (simp add: sys_inv_def node_ok_def node_inv_def plant_ok_def gov_plant_output_def)
  then show ?thesis
    using C_Stepped assms by (auto simp: control_step_def sys_inv_def sensor_ok_def sender_ok_def health_ok Let_def)
qed (use assms in \<open>auto simp: control_step_def sys_inv_def sensor_ok_def sender_ok_def health_ok\<close>)

lemma note_ok:
  assumes "node_ok n"
  shows "bits_in sf GOV_FAULT_SENSOR_ANY_DRIVER \<Longrightarrow> node_ok (gov_node_note_sensor n sf h t)"
    and "node_ok (gov_node_note_link n h t)" and "node_ok (gov_node_note_timing n h t)"
    and "node_ok (gov_node_selftest_ok n t)"
    and "ev \<noteq> GOV_EV_CAUSE_CLEARED \<Longrightarrow> node_ok (gov_node_post_event n ev t)"
  using node_call_ok [OF assms, of "NoteSensor sf h" t] node_call_ok [OF assms, of "NoteLink h" t]
    node_call_ok [OF assms, of "NoteTiming h" t] node_call_ok [OF assms, of SelftestOk t]
    node_call_ok [OF assms, of "PostEvent ev" t]
  by simp_all

lemma deliver_event: "on_app_deliver f = Some ev \<Longrightarrow> ev = GOV_EV_OPERATOR_STOP \<or> ev = GOV_EV_OPERATOR_CLEAR"
  by (auto simp: on_app_deliver_def split: if_splits)

text \<open>The receiver writes whole frames.\<close>

lemma rx_wires_ok: "list_all is_frame (wires (snd (gov_rx_on_frame rx f)))"
proof -
  have "is_frame (frame_bytes (ack_frame (f_seq f)))"
    by (auto simp: is_frame_def frame_ok_def ack_frame_def GOV_MAX_PAYLOAD_def intro!: exI [of _ "ack_frame (f_seq f)"])
  then show ?thesis by (auto simp: gov_rx_on_frame_def send_ack_eq)
qed

lemma decoder_push_ok: "decoder_ok d \<Longrightarrow> decoder_ok (fst (gov_decoder_push d b))"
  using refinesD(1,5) [OF decoder_refines] by (fastforce simp: decoder_ok_def)

lemma isr_bound: "length q \<le> RX_BYTEQ_LEN \<Longrightarrow> length (foldl msgq_put q bs) \<le> RX_BYTEQ_LEN"
  by (induction bs arbitrary: q) (simp_all add: msgq_put_def)

lemma decoded_frame_ok:
  "\<exists>rx pc. on_decoded_frame s f = s\<lparr> y_link_rx := rx, y_rx := pc \<rparr> \<and> rx_pc_ok b pc \<and>
     (rx_callbacks (y_link_rx s) \<longrightarrow> rx_callbacks rx)"
proof (cases "f_type f = GOV_TYPE_ACK \<and> length (f_payload f) \<ge> 1")
  case True
  then show ?thesis
    by (intro exI [of _ "y_link_rx s"] exI [of _ "X_TxAck (A_State (f_payload f ! 0))"]) (simp add: on_decoded_frame_def)
next
  case False
  obtain rx out where o: "gov_rx_on_frame (y_link_rx s) f = (rx, out)" by fastforce
  have cb: "rx_callbacks (y_link_rx s) \<longrightarrow> rx_callbacks rx"
    using rx_step(3,4) [of "y_link_rx s" f] o by (simp add: rx_callbacks_def)
  have w: "list_all is_frame (wires out)" using rx_wires_ok [of "y_link_rx s" f] o by simp
  define ev where "ev = (case apps out of [] \<Rightarrow> None | g # _ \<Rightarrow> on_app_deliver g)"
  define pc where "pc = (case ev of None \<Rightarrow> X_Write (wires out) 0 | Some e \<Rightarrow> X_Post e (y_clock s) (wires out))"
  have "e = GOV_EV_OPERATOR_STOP \<or> e = GOV_EV_OPERATOR_CLEAR" if "ev = Some e" for e
    using that deliver_event by (auto simp: ev_def split: list.splits)
  then have "rx_pc_ok b pc" using w by (cases ev) (auto simp: pc_def)
  moreover have "on_decoded_frame s f = s\<lparr> y_link_rx := rx, y_rx := pc \<rparr>"
    unfolding on_decoded_frame_def if_not_P [OF False] o by (cases ev) (simp_all add: pc_def ev_def [symmetric])
  ultimately show ?thesis using cb by blast
qed

lemma rx_next_ok [simp]: "rx_pc_ok b (rx_next b)"
  by (simp add: rx_next_def)

lemma rx_receive_ok:
  assumes "sys_inv b api s"
  shows "sys_inv b api (rx_receive b s)"
proof (cases "y_byteq s")
  case Nil
  then show ?thesis using assms by (simp add: rx_receive_def sys_inv_def sensor_ok_def sender_ok_def)
next
  case (Cons byte q)
  obtain d fs where p: "gov_decoder_push (y_decoder s) byte = (d, fs)" by fastforce
  have d: "decoder_ok d" using decoder_push_ok [of "y_decoder s" byte] assms p by (simp add: sys_inv_def)
  let ?s = "s\<lparr> y_byteq := q, y_decoder := d \<rparr>"
  have "\<exists>rx pc. rx_receive b s = ?s\<lparr> y_link_rx := rx, y_rx := pc \<rparr> \<and> rx_pc_ok b pc \<and>
      (rx_callbacks (y_link_rx s) \<longrightarrow> rx_callbacks rx)"
  proof (cases fs)
    case Nil
    then show ?thesis
      using Cons p by (intro exI [of _ "y_link_rx s"] exI [of _ "rx_next b"]) (simp add: rx_receive_def)
  next
    case (Cons f fs')
    then have "rx_receive b s = on_decoded_frame ?s f" using p \<open>y_byteq s = byte # q\<close> by (simp add: rx_receive_def)
    then show ?thesis using decoded_frame_ok [of ?s f b] by simp
  qed
  then show ?thesis using assms Cons d by (auto simp: sys_inv_def sensor_ok_def sender_ok_def)
qed

lemma tx_pc_ok_mono: "\<forall>pc. poll_ok tx pc \<longrightarrow> poll_ok tx' pc \<Longrightarrow> tx_pc_ok tx p \<Longrightarrow> tx_pc_ok tx' p"
  by (cases p) auto

lemma telem_pc_ok_mono: "\<forall>pc. send_ok tx pc \<longrightarrow> send_ok tx' pc \<Longrightarrow> telem_pc_ok tx p \<Longrightarrow> telem_pc_ok tx' p"
  by (cases p) auto

text \<open>A step of one thread on the sender, seen from the invariant.\<close>

lemma sender_ok_ack:
  assumes "sender_ok s"
  shows "sender_ok (s\<lparr> y_link_tx := fst (ack_step (y_link_tx s) pc), y_rx := x \<rparr>)"
  using assms ack_step_ok [of "y_link_tx s" pc] tx_pc_ok_mono telem_pc_ok_mono
  unfolding sender_ok_def by simp blast

lemma sender_ok_clear:
  assumes "sender_ok s"
  shows "sender_ok (s\<lparr> y_link_tx := fst (clear_step (y_link_tx s) pc), y_tx := T_Clear pc' \<rparr>)"
  using assms clear_step_ok [of "y_link_tx s" pc] telem_pc_ok_mono
  unfolding sender_ok_def by simp blast

lemma sender_ok_poll:
  assumes "sender_ok s" and "y_tx s = T_Poll pc"
  shows "\<exists>tx pc' out. poll_step (y_link_tx s) pc = Some (tx, pc', out) \<and>
    sender_ok (s\<lparr> y_link_tx := tx, y_tx := T_Poll pc' \<rparr>) \<and> (\<forall>x \<in> set out. snd x < length (fst x))"
proof -
  have "tx_mem (y_link_tx s)" "poll_ok (y_link_tx s) pc" "telem_pc_ok (y_link_tx s) (y_telem s)"
    using assms by (auto simp: sender_ok_def)
  with poll_step_ok [OF this(1,2)] telem_pc_ok_mono show ?thesis unfolding sender_ok_def by fastforce
qed

lemma sender_ok_send:
  assumes "sender_ok s" and "y_telem s = M_Send rec pc"
  shows "\<exists>tx pc' out. send_step (y_link_tx s) pc = Some (tx, pc', out) \<and>
    sender_ok (s\<lparr> y_link_tx := tx, y_telem := M_Send rec pc' \<rparr>) \<and> (\<forall>x \<in> set out. is_frame (fst x) \<and> snd x < length (fst x))"
proof -
  have "tx_mem (y_link_tx s)" "send_ok (y_link_tx s) pc" "tx_pc_ok (y_link_tx s) (y_tx s)" "rec_ok rec"
    using assms by (auto simp: sender_ok_def)
  with send_step_ok [OF this(1,2)] tx_pc_ok_mono show ?thesis unfolding sender_ok_def by fastforce
qed

text \<open>The rest of the invariant does not look at the sender and the points in its operations.\<close>

definition rest_inv :: "build \<Rightarrow> 'b i2c_api \<Rightarrow> 'b sys \<Rightarrow> bool" where
  "rest_inv b api s \<longleftrightarrow>
     node_ok (y_node s) \<and> f32_in (y_measurement s) 0 100 \<and> slot_ok (y_slot s) \<and>
     (HAVE_SENSOR b \<longrightarrow> sensor_ok api s) \<and> ring_idle b (y_ring s) \<and> rx_callbacks (y_link_rx s) \<and>
     decoder_ok (y_decoder s) \<and> health_wf (y_health s) \<and> length (y_byteq s) \<le> RX_BYTEQ_LEN"

lemma sys_inv_split: "sys_inv b api s \<longleftrightarrow> rest_inv b api s \<and> sender_ok s \<and> rx_pc_ok b (y_rx s)"
  by (auto simp: sys_inv_def rest_inv_def)

lemma rest_inv_simps [simp]:
  "rest_inv b api (s\<lparr> y_link_tx := tx \<rparr>) = rest_inv b api s" "rest_inv b api (s\<lparr> y_rx := x \<rparr>) = rest_inv b api s"
  "rest_inv b api (s\<lparr> y_tx := t \<rparr>) = rest_inv b api s" "rest_inv b api (s\<lparr> y_telem := m \<rparr>) = rest_inv b api s"
  by (simp_all add: rest_inv_def sensor_ok_def)

lemma sender_ok_rx [simp]: "sender_ok (s\<lparr> y_rx := x \<rparr>) = sender_ok s"
  by (simp add: sender_ok_def)

lemma link_rx_thread_ok:
  assumes "sys_inv b api s"
  shows "\<exists>s' out. link_rx_step b s = Some (s', out) \<and> sys_inv b api s' \<and> (\<forall>x \<in> set out. out_ok x)"
proof (cases "y_rx s")
  case X_Get
  then show ?thesis using rx_receive_ok [OF assms] by (simp add: link_rx_step_def)
next
  case (X_TxAck pc)
  then show ?thesis
    using assms sender_ok_ack [of s _ pc] unfolding sys_inv_split
    by (auto simp: link_rx_step_def case_prod_beta Let_def)
next
  case (X_Post ev t ws)
  with assms have "node_ok (gov_node_post_event (y_node s) ev t)" by (intro note_ok) (auto simp: sys_inv_def)
  with X_Post assms show ?thesis
    by (auto simp: link_rx_step_def locked_post_event_def sys_inv_def sensor_ok_def sender_ok_def)
next
  case (X_Write ws i)
  then show ?thesis
    using assms unfolding sys_inv_split by (cases ws) (auto simp: link_rx_step_def)
next
  case X_Poll
  with assms have "sensor_ok api s" "slot_ok (y_slot s)" by (auto simp: sys_inv_def)
  from rx_poll_ok [OF this] X_Poll assms show ?thesis
    by (auto simp: link_rx_step_def sys_inv_def sensor_ok_def sender_ok_def)
next
  case X_Stamp
  with assms have "bits_in (gov_sensor_faults (y_sensor s)) GOV_FAULT_SENSOR_ANY_DRIVER"
    using sensor_flags_ok by (auto simp: sys_inv_def sensor_ok_def)
  with X_Stamp assms show ?thesis by (auto simp: link_rx_step_def sys_inv_def sensor_ok_def sender_ok_def Let_def)
next
  case (X_Note sf ok t)
  with assms have "node_ok (gov_node_note_sensor (y_node s) sf ok t)" by (intro note_ok) (auto simp: sys_inv_def)
  with X_Note assms show ?thesis
    by (auto simp: link_rx_step_def locked_note_sensor_def sys_inv_def sensor_ok_def sender_ok_def)
qed (use assms in \<open>auto simp: link_rx_step_def sys_inv_def sensor_ok_def sender_ok_def health_ok\<close>)

lemma poll_pc_step:
  "y_tx s = T_Poll pc \<Longrightarrow> \<forall>st. pc \<noteq> P_Done st \<Longrightarrow> link_tx_step b s =
    map_option (\<lambda>(tx, pc', out). (s\<lparr> y_link_tx := tx, y_tx := T_Poll pc' \<rparr>, concat (map (link_wire_out b Tx_Thread) out)))
      (poll_step (y_link_tx s) pc)"
  by (cases pc) (simp_all add: link_tx_step_def)

lemma send_pc_step:
  "y_telem s = M_Send rec pc \<Longrightarrow> \<forall>st. pc \<noteq> S_Done st \<Longrightarrow> telemetry_step b s =
    map_option (\<lambda>(tx, pc', out). (s\<lparr> y_link_tx := tx, y_telem := M_Send rec pc' \<rparr>, concat (map (link_wire_out b Telem_Thread) out)))
      (send_step (y_link_tx s) pc)"
  by (cases pc) (simp_all add: telemetry_step_def)

lemma link_tx_thread_ok:
  assumes "sys_inv b api s"
  shows "\<exists>s' out. link_tx_step b s = Some (s', out) \<and> sys_inv b api s' \<and> (\<forall>x \<in> set out. out_ok x)"
proof (cases "y_tx s")
  case (T_Poll pc)
  show ?thesis
  proof (cases "\<exists>st. pc = P_Done st")
    case True
    then show ?thesis using T_Poll assms by (auto simp: link_tx_step_def sys_inv_def sensor_ok_def sender_ok_def)
  next
    case False
    have "sender_ok s" using assms by (simp add: sys_inv_def)
    from sender_ok_poll [OF this T_Poll] obtain tx pc' out where "poll_step (y_link_tx s) pc = Some (tx, pc', out)"
      "sender_ok (s\<lparr> y_link_tx := tx, y_tx := T_Poll pc' \<rparr>)" "\<forall>x \<in> set out. snd x < length (fst x)" by blast
    with poll_pc_step [OF T_Poll, of b] False assms show ?thesis
      unfolding sys_inv_split by (fastforce simp: link_wire_out_def)
  qed
next
  case (T_Note ok t)
  have "node_ok (y_node s)" using assms by (auto simp: sys_inv_def)
  with T_Note assms note_ok(2) show ?thesis
    by (auto simp: link_tx_step_def locked_note_link_def sys_inv_def sensor_ok_def sender_ok_def)
next
  case (T_Clear pc)
  have "sender_ok s" using assms by (simp add: sys_inv_def)
  from sender_ok_clear [OF this, of "snd (clear_step (y_link_tx s) pc)" pc] T_Clear assms show ?thesis
    unfolding sys_inv_split by (auto simp: link_tx_step_def case_prod_beta Let_def sender_ok_def)
qed (use assms in \<open>auto simp: link_tx_step_def sys_inv_def sensor_ok_def sender_ok_def\<close>)

lemma health_thread_ok:
  assumes "sys_inv b api s"
  shows "\<exists>s' out. health_thread_step b s = Some (s', out) \<and> sys_inv b api s' \<and> (\<forall>x \<in> set out. out_ok x)"
proof -
  have n: "node_ok (y_node s)" using assms by (auto simp: sys_inv_def)
  show ?thesis
    using assms note_ok(3) [OF n]
    by (cases "y_hlth s") (auto simp: health_thread_step_def locked_note_timing_def watchdog_feed_def sys_inv_def sensor_ok_def
        sender_ok_def health_ok)
qed

lemma fill_defined: "node_ok n \<Longrightarrow> \<exists>rec. gov_node_fill_telemetry n = Some rec \<and> rec_ok rec"
proof -
  assume a: "node_ok n"
  then obtain k where k: "n_last_output n = Fin (of_int k)" "0 \<le> k" "k \<le> 100" by (auto simp: node_ok_def node_inv_def)
  then have "below_2_31 (n_last_output n)" by (simp add: below_2_31_def)
  then obtain w where w: "f32_to_i32 (n_last_output n) = Some w" "sint w = k"
    using to_i32_below [of "n_last_output n"] k(1) by auto
  have "s_state (n_safety n) \<noteq> GOV_ST_COUNT" using a by (simp add: node_ok_def node_inv_def safety_inv_def)
  then have "(of_nat (gov_state_code (gov_safety_state (n_safety n))) :: u8) < 5"
    by (cases "s_state (n_safety n)") (simp_all add: gov_safety_state_def gov_state_code_def)
  then show ?thesis
    using a to_i32_below [of "n_setpoint n"] to_i32_below [of "n_last_measurement n"] percent_below [of "n_last_measurement n"] w k
    by (auto simp: node_ok_def gov_node_fill_telemetry_def rec_ok_def)
qed

text \<open>With a link, one iteration puts its record through the ring and offers it to the sender.\<close>

lemma ring_through:
  assumes "ring_inv r" and "ring_list r = []"
  shows "\<exists>r1 r2. gov_telem_ring_push r rec = (r1, True) \<and> gov_telem_ring_pop r1 telem_zero = (r2, rec, True) \<and>
    ring_inv r2 \<and> ring_list r2 = []"
proof -
  let ?r1 = "fst (gov_telem_ring_push r rec)"
  have r1: "ring_inv ?r1" "ring_list ?r1 = [rec]" "snd (gov_telem_ring_push r rec)"
    using telem_queue.push_invar [OF assms(1)] telem_queue.push_contents [OF assms(1), of rec]
      telem_queue.push_ok [OF assms(1)] assms(2) by simp_all
  have r2: "ring_inv (fst (ring_pop ?r1))" "ring_list (fst (ring_pop ?r1)) = []" "snd (ring_pop ?r1) = Some rec"
    using telem_queue.pop_invar [OF r1(1)] telem_queue.pop_contents [OF r1(1)] telem_queue.pop_result [OF r1(1)] r1(2)
    by simp_all
  obtain r3 x ok where p: "gov_telem_ring_pop ?r1 telem_zero = (r3, x, ok)" by (metis prod_cases3)
  with r2 have "ring_inv r3" "ring_list r3 = []" "x = rec" "ok" by (simp_all add: ring_pop_def split: if_splits)
  with r1(3) p show ?thesis by (intro exI [of _ ?r1] exI [of _ r3]) (simp add: prod_eq_iff)
qed

lemma telemetry_push_eq:
  assumes "ring_inv (y_ring s)" and "ring_list (y_ring s) = []" and "HAVE_LINK_UART b"
  shows "\<exists>r2. telemetry_push b s rec = s\<lparr> y_ring := r2,
      y_telem := M_Send rec (S_State GOV_TYPE_DATA (Some (telem_bytes rec)) (of_nat (length (telem_bytes rec))) (y_clock s)) \<rparr> \<and>
    ring_inv r2 \<and> ring_list r2 = []"
proof -
  obtain r1 r2 where r: "gov_telem_ring_push (y_ring s) rec = (r1, True)" "gov_telem_ring_pop r1 telem_zero = (r2, rec, True)"
    "ring_inv r2" "ring_list r2 = []"
    using ring_through [OF assms(1,2)] by blast
  have l: "length (telem_bytes rec) = 21" using telem.length_enc by (simp add: GOV_TELEM_DATA_LEN_def)
  have e: "gov_telem_encode (Some rec) (Some (replicate GOV_TELEM_DATA_LEN 0)) GOV_TELEM_DATA_LEN =
      (Some (telem_bytes rec), GOV_TELEM_DATA_LEN)"
    by (simp add: telem_encode_success)
  show ?thesis
    using r(3,4) assms(3) r(1,2) l e
    by (intro exI [of _ r2]) (simp add: telemetry_push_def GOV_TELEM_DATA_LEN_def)
qed

lemma state_name_ok: "x < 5 \<Longrightarrow> gov_safety_state_name (gov_state_of x) \<in> set state_names"
proof -
  assume "x < (5 :: u8)"
  then have "unat x < 5" by (simp add: word_less_nat_alt)
  then have "x \<in> of_nat ` {0, 1, 2, 3, 4 :: nat}" by (intro image_eqI [of _ _ "unat x"]) auto
  then show ?thesis by (auto simp: gov_state_of_def state_names_def)
qed

lemma telemetry_thread_ok:
  assumes "sys_inv b api s"
  shows "\<exists>s' out. telemetry_step b s = Some (s', out) \<and> sys_inv b api s' \<and> (\<forall>x \<in> set out. out_ok x)"
proof (cases "y_telem s")
  case M_Fill
  then show ?thesis
    using assms fill_defined [of "y_node s"]
    by (auto simp: telemetry_step_def locked_fill_telemetry_def sys_inv_def sensor_ok_def sender_ok_def)
next
  case (M_Push rec)
  have r: "ring_inv (y_ring s)" and ok: "rec_ok rec" using assms M_Push by (auto simp: sys_inv_def ring_idle_def sender_ok_def)
  show ?thesis
  proof (cases "HAVE_LINK_UART b")
    case False
    then show ?thesis
      using M_Push assms telem_queue.push_invar [OF r, of rec] ok
      by (auto simp: telemetry_step_def telemetry_push_def sys_inv_def sensor_ok_def sender_ok_def ring_idle_def case_prod_beta Let_def)
  next
    case True
    then have e: "ring_list (y_ring s) = []" using assms by (auto simp: sys_inv_def ring_idle_def)
    have "unat (of_nat (length (telem_bytes rec)) :: u16) \<le> length (telem_bytes rec)"
      using telem.length_enc by (simp add: GOV_TELEM_DATA_LEN_def)
    with telemetry_push_eq [OF r e True, of rec] M_Push assms ok show ?thesis
      by (auto simp: telemetry_step_def sys_inv_def sensor_ok_def sender_ok_def ring_idle_def)
  qed
next
  case (M_Send rec pc)
  show ?thesis
  proof (cases "\<exists>st. pc = S_Done st")
    case True
    then show ?thesis using M_Send assms by (auto simp: telemetry_step_def sys_inv_def sensor_ok_def sender_ok_def)
  next
    case False
    have "sender_ok s" using assms by (simp add: sys_inv_def)
    from sender_ok_send [OF this M_Send] obtain tx pc' out where "send_step (y_link_tx s) pc = Some (tx, pc', out)"
      "sender_ok (s\<lparr> y_link_tx := tx, y_telem := M_Send rec pc' \<rparr>)" "\<forall>x \<in> set out. is_frame (fst x) \<and> snd x < length (fst x)"
      by blast
    with send_pc_step [OF M_Send, of b] False assms show ?thesis
      unfolding sys_inv_split by (fastforce simp: link_wire_out_def)
  qed
next
  case (M_Status rec)
  then have "rec_ok rec" using assms by (simp add: sys_inv_def sender_ok_def)
  with M_Status assms show ?thesis
    by (auto simp: telemetry_step_def sys_inv_def sensor_ok_def sender_ok_def rec_ok_def state_name_ok)
qed

text \<open>Every schedule: no step is undefined and the invariant holds throughout.\<close>

interpretation system: partial_machine "sys_step b" "\<lambda>_. True" "sys_inv b api" out_ok
  for b :: build and api :: "'b i2c_api"
proof
  fix s :: "'b sys" and m
  assume "sys_inv b api s"
  then show "\<exists>s' out. sys_step b s m = Some (s', out) \<and> sys_inv b api s' \<and> (\<forall>x \<in> set out. out_ok x)"
    using control_thread_ok [of b api s] link_rx_thread_ok [of b api s] link_tx_thread_ok [of b api s]
      telemetry_thread_ok [of b api s] health_thread_ok [of b api s]
    by (cases m) (auto simp: sys_step_def sys_inv_def sensor_ok_def control_timer_fn_def link_uart_isr_def isr_bound sender_ok_def)
qed

section \<open>Boot\<close>

lemma sensor_cfg_init: "sn_cfg (gov_sensor_init SENSOR_CFG) = SENSOR_CFG"
  by (simp add: gov_sensor_init_def SENSOR_CFG_def GOV_SENSOR_MAX_READ_def)

lemma node_ok_init:
  assumes "below_2_31 sp"
  shows "node_ok (gov_node_init n sp)" "node_ok ((gov_node_init n sp)\<lparr> n_safety := gov_safety_init_sticky x \<rparr>)"
proof -
  have "mag sp 31" using assms by (cases sp) (auto simp: below_2_31_def mag_Fin)
  then have i: "node_inv (gov_node_init n sp)" by (rule node_inv_init)
  have f: "n_setpoint (gov_node_init n sp) = sp" "n_last_measurement (gov_node_init n sp) = Fin 0"
    by (simp_all add: gov_node_init_def)
  with i assms show "node_ok (gov_node_init n sp)" by (simp add: node_ok_def f32_in_def)
  have "shadow_ok ((gov_node_init n sp)\<lparr> n_safety := gov_safety_init_sticky x \<rparr>)"
    by (simp add: shadow_ok_def gov_node_init_def)
  with i have "node_inv ((gov_node_init n sp)\<lparr> n_safety := gov_safety_init_sticky x \<rparr>)"
    by (simp add: node_inv_def safety_inv_init_sticky)
  with f assms show "node_ok ((gov_node_init n sp)\<lparr> n_safety := gov_safety_init_sticky x \<rparr>)"
    by (simp add: node_ok_def f32_in_def)
qed

text \<open>
  Boot succeeds into the invariant when the setpoint fits a 32-bit integer and, on boards with the
  sensor, the I2C controller is ready.
\<close>

lemma watchdog_setup_eq:
  "watchdog_setup b pf s = s\<lparr> y_wdt_channel := (if HAVE_WDT b \<and> pf_wdt_ready pf then pf_wdt_install pf else y_wdt_channel s) \<rparr>"
  by (simp add: watchdog_setup_def)

lemma sensor_setup_eq:
  "sensor_setup b pf dev s = (if HAVE_SENSOR b \<and> i2c_ready (pf_i2c pf) dev
     then (s\<lparr> y_bus := Some (zbus (pf_i2c pf)), y_dev := Some dev, y_sensor := gov_sensor_init SENSOR_CFG \<rparr>, True)
     else (s, \<not> HAVE_SENSOR b))"
  by (simp add: sensor_setup_def gov_hal_zephyr_init_def)

lemma main_init_simps:
  "y_measurement (main_init b pf sp t0) = Fin 0" "y_slot (main_init b pf sp t0) = gov_slot_init"
  "y_link_tx (main_init b pf sp t0) = gov_tx_init True" "y_ring (main_init b pf sp t0) = gov_telem_ring_init zero_ring"
  "y_rx (main_init b pf sp t0) = X_Get" "y_telem (main_init b pf sp t0) = M_Fill" "y_tx (main_init b pf sp t0) = T_Start"
  "y_clock (main_init b pf sp t0) = t0" "y_bus (main_init b pf sp t0) = None"
  "y_link_rx (main_init b pf sp t0) = gov_rx_init True True"
  "y_decoder (main_init b pf sp t0) = gov_decoder_init True" "y_health (main_init b pf sp t0) = gov_health_init"
  "y_byteq (main_init b pf sp t0) = []"
  "y_node (main_init b pf sp t0) = (if was_watchdog_reset b pf
     then (gov_node_init zero_node sp)\<lparr> n_safety := gov_safety_init_sticky GOV_FAULT_WATCHDOG \<rparr>
     else gov_node_init zero_node sp)"
  by (simp_all add: main_init_def Let_def)

text \<open>A boot whose sensor is set up, or that has none.\<close>

lemma gov_main_eq:
  assumes "boot_setpoint b pf p = (sp, p')" and "sensor_setup b pf dev (main_init b pf sp t0) = (s2, True)"
  shows "fst (gov_main b pf dev p t0) = s2\<lparr>
      y_wdt_channel := (if HAVE_WDT b \<and> pf_wdt_ready pf then pf_wdt_install pf else y_wdt_channel s2),
      y_uart_irq := (if HAVE_LINK_UART b \<and> pf_uart_ready pf then True else y_uart_irq s2),
      y_node := gov_node_selftest_ok (y_node s2) (y_clock s2) \<rparr>"
  by (simp add: gov_main_def assms watchdog_setup_def locked_selftest_ok_def Let_def)

lemma ring_init_ok: "ring_idle b (gov_telem_ring_init zero_ring)"
  by (simp add: ring_idle_def ring_inv_def ring_list_def ring_len_def gov_telem_ring_init_def zero_ring_def gov_defs)

lemma decoder_init_ok: "decoder_ok (gov_decoder_init cb)"
  unfolding decoder_ok_def using init_represents by blast

lemma health_init_ok: "health_wf gov_health_init"
  by (simp add: health_wf_def gov_health_init_def GOV_HEALTH_SUBSYS_COUNT_def)

lemma tx_mem_init: "tx_mem (gov_tx_init True)"
  by (simp add: tx_mem_def gov_tx_init_def)

lemma gov_main_ok:
  assumes "below_2_31 (fst (boot_setpoint b pf p))" and "HAVE_SENSOR b \<Longrightarrow> i2c_ready (pf_i2c pf) dev"
  shows "sys_inv b (pf_i2c pf) (fst (gov_main b pf dev p t0))"
proof -
  obtain sp p' where sp: "boot_setpoint b pf p = (sp, p')" by fastforce
  obtain s2 where s2: "sensor_setup b pf dev (main_init b pf sp t0) = (s2, True)"
    using assms(2) by (cases "HAVE_SENSOR b") (simp_all add: sensor_setup_eq)
  have n: "node_ok (y_node s2)"
    using s2 node_ok_init [of sp] assms(1) sp by (auto simp: sensor_setup_eq main_init_simps split: if_splits)
  have sn: "HAVE_SENSOR b \<Longrightarrow> sensor_ok (pf_i2c pf) s2"
    using s2 explains_init [of SENSOR_CFG] assms(2) unfolding sensor_cfg_init sensor_ok_def
    by (auto simp: sensor_setup_eq)
  have f: "y_measurement s2 = Fin 0" "y_slot s2 = gov_slot_init" "y_link_tx s2 = gov_tx_init True"
    "y_ring s2 = gov_telem_ring_init zero_ring" "y_rx s2 = X_Get" "y_telem s2 = M_Fill" "y_tx s2 = T_Start"
    "y_link_rx s2 = gov_rx_init True True" "y_decoder s2 = gov_decoder_init True" "y_health s2 = gov_health_init" "y_byteq s2 = []"
    using s2 by (auto simp: sensor_setup_eq main_init_simps split: if_splits)
  show ?thesis
    using note_ok(4) [OF n, of "y_clock s2"] sn ring_init_ok [of b]
    unfolding gov_main_eq [OF sp s2]
    by (simp add: sys_inv_def sensor_ok_def slot_ok_def gov_slot_init_def f32_in_def f decoder_init_ok health_init_ok sender_ok_def tx_mem_init
        rx_callbacks_def gov_rx_init_def)
qed

section \<open>Stale time stamps\<close>

lemma step_stale: "now < s_now_ms s \<Longrightarrow> s_state (gov_safety_step s ev now) = GOV_ST_FAULT_HALT"
  by (simp add: gov_safety_step_def)

lemma step_now: "s_now_ms s \<le> now \<Longrightarrow> s_now_ms (gov_safety_step s ev now) = now"
  by (cases "s_state s"; cases ev) (auto simp: dispatch_defs Let_def split: gov_state.splits)

lemma note_sensor_stale:
  assumes "t < s_now_ms (n_safety n)"
  shows "gov_node_state (gov_node_note_sensor n fl False t) = GOV_ST_FAULT_HALT"
  using step_stale [OF assms]
  by (simp add: gov_node_note_sensor_def note_cause_def Let_def gov_node_state_def gov_safety_state_def)

lemma note_sensor_first:
  assumes "node_inv n" and "gov_node_state n = GOV_ST_RUN" and "s_now_ms (n_safety n) \<le> t"
  shows "gov_node_state (gov_node_note_sensor n fl False t) = GOV_ST_DEGRADED"
proof -
  have "timers_ok (n_safety n)" "n_active_causes n = 0"
    using assms(1,2) by (auto simp: node_inv_def safety_inv_def shadow_ok_def gov_node_state_def gov_safety_state_def)
  with step_first_fault [OF _ assms(3), of GOV_EV_SENSOR_FAULT] assms(2) show ?thesis
    by (simp add: gov_node_note_sensor_def note_cause_def Let_def gov_node_state_def gov_safety_state_def fault_event_def)
qed

lemma control_now:
  assumes "node_ok n" and "f32_in m 0 100" and "s_now_ms (n_safety n) \<le> t"
  shows "\<exists>n' u. gov_node_control_step n m t = Some (n', u) \<and> s_now_ms (n_safety n') = t"
proof -
  have "node_inv n" using assms(1) by (simp add: node_ok_def)
  from control_step_ok [OF this percent_mag [OF assms(2)], of t] step_now [OF assms(3)] show ?thesis by fastforce
qed

text \<open>
  The stamp of the watchdog decision is read before the call as well: when another thread reports
  itself alive after that and one tick later, its age wraps around and the feed is left out.
\<close>

lemma stale_feed_skipped:
  assumes "y_hlth s = H_Feed t" and "y_control s = C_Note (t + 1)" and "health_wf (y_health s)"
  shows "\<exists>s'. run_opt (sys_step b) s [Control, Health] = Some (s', [])"
proof -
  let ?h = "gov_health_note_alive (y_health s) GOV_HS_CONTROL (t + 1)"
  have wrapped: "\<not> (- 1 :: u32) \<le> 150" by code_simp
  have "\<not> gov_health_subsys_alive ?h 0 t (3 * GOV_HEALTH_PERIOD_MS)"
    using assms(3) wrapped
    by (simp add: gov_health_subsys_alive_def health_wf_def gov_health_note_alive_def gov_defs)
  then have "\<not> gov_health_feed_watchdog ?h t (3 * GOV_HEALTH_PERIOD_MS)"
    by (auto simp: gov_health_feed_watchdog_def gov_health_all_alive_def GOV_HEALTH_SUBSYS_COUNT_def list_all_iff
        intro!: bexI [of _ 0])
  then show ?thesis
    using assms(1,2) by (simp add: sys_step_def control_step_def health_thread_step_def)
qed

end
