(* ===== verification/Gov_System.thy ===== *)
theory Gov_System
  imports Gov_Main
begin

text \<open>
  Runs of the application that the properties of the whole system rest on: a thread that is not
  interrupted in an operation of the sender, iterations of the receiving thread, a frame that
  arrives on the link, and what no schedule can raise.
\<close>

lemma sys_step_simps:
  "sys_step b s Control = control_step b s" "sys_step b s LinkRx = link_rx_step b s" "sys_step b s LinkTx = link_tx_step b s"
  "sys_step b s Telemetry = telemetry_step b s" "sys_step b s Health = health_thread_step b s"
  "sys_step b s (Uart bs) = Some (if y_uart_irq s then link_uart_isr s bs else s, [])"
  by (simp_all add: sys_step_def)

section \<open>Bytes on the link\<close>

lemma uart_bytes_simps [simp]:
  "uart_bytes [] = []" "uart_bytes (xs @ ys) = uart_bytes xs @ uart_bytes ys"
  "uart_bytes (WireByte th w i # xs) = w ! i # uart_bytes xs"
  by (simp_all add: uart_bytes_def)

lemma uart_bytes_writes:
  "HAVE_LINK_UART b \<Longrightarrow> uart_bytes (concat (map (link_wire_out b th) out)) = map byte_of out"
  by (induction out) (simp_all add: link_wire_out_def byte_of_def)

lemma replicate_run:
  assumes "run_opt f s (replicate j m) = Some (s1, o1)" and "run_opt f s1 (replicate k m) = Some (s2, o2)"
  shows "run_opt f s (replicate (j + k) m) = Some (s2, o1 @ o2)"
  using run_opt_append [OF assms] by (simp add: replicate_add)

section \<open>A send without interruption\<close>

lemma send_moves:
  assumes "exec send_step k tx pc = Some (tx', pc', out)"
  shows "\<exists>j. run_opt (sys_step b) (s\<lparr> y_link_tx := tx, y_telem := M_Send rec pc \<rparr>) (replicate j Telemetry) =
    Some (s\<lparr> y_link_tx := tx', y_telem := M_Send rec pc' \<rparr>, concat (map (link_wire_out b Telem_Thread) out))"
  using assms
proof (induction k arbitrary: tx pc out)
  case 0
  then show ?case by (intro exI [of _ 0]) simp
next
  case (Suc k)
  show ?case
  proof (cases "\<exists>st0. pc = S_Done st0")
    case True
    then obtain st0 where "pc = S_Done st0" by blast
    moreover have "exec send_step n tx (S_Done st0) = Some (tx, S_Done st0, [])" for n by (induction n) simp_all
    ultimately show ?thesis using Suc.prems by (intro exI [of _ 0]) (simp del: exec.simps)
  next
    case False
    obtain tx1 pc1 o1 o2 where 1: "send_step tx pc = Some (tx1, pc1, o1)"
      and 2: "exec send_step k tx1 pc1 = Some (tx', pc', o2)" and out: "out = o1 @ o2"
      using Suc.prems by (auto split: option.splits prod.splits)
    let ?s = "s\<lparr> y_link_tx := tx, y_telem := M_Send rec pc \<rparr>"
    have "sys_step b ?s Telemetry =
        Some (s\<lparr> y_link_tx := tx1, y_telem := M_Send rec pc1 \<rparr>, concat (map (link_wire_out b Telem_Thread) o1))"
      using send_pc_step [of ?s rec pc b] False 1 by (simp add: sys_step_def)
    moreover obtain j where "run_opt (sys_step b) (s\<lparr> y_link_tx := tx1, y_telem := M_Send rec pc1 \<rparr>) (replicate j Telemetry) =
        Some (s\<lparr> y_link_tx := tx', y_telem := M_Send rec pc' \<rparr>, concat (map (link_wire_out b Telem_Thread) o2))"
      using Suc.IH [OF 2] by blast
    ultimately show ?thesis unfolding out by (intro exI [of _ "Suc j"]) simp
  qed
qed

text \<open>
  From the start of an iteration with the sender idle to the first byte of the frame, and the rest
  of the bytes.
\<close>

lemma send_start:
  assumes "tx_mem tx" and "tx_state tx = GOV_TX_IDLE" and "length bs \<le> GOV_MAX_PAYLOAD"
  shows "\<exists>tx'. exec send_step 9 tx (S_State ty (Some bs) (of_nat (length bs)) t) =
      Some (tx', S_Bytes 0 (length (frame_bytes (Frame ty (tx_next_seq tx) bs))), []) \<and>
    take (length (frame_bytes (Frame ty (tx_next_seq tx) bs))) (tx_frame tx') = frame_bytes (Frame ty (tx_next_seq tx) bs) \<and>
    length (frame_bytes (Frame ty (tx_next_seq tx) bs)) \<le> length (tx_frame tx') \<and> tx_mem tx' \<and>
    tx_state tx' = GOV_TX_WAIT_ACK \<and> tx_cur_seq tx' = tx_next_seq tx"
proof -
  let ?f = "Frame ty (tx_next_seq tx) bs"
  have n: "unat (of_nat (length bs) :: u16) = length bs" using assms(3) by (simp add: GOV_MAX_PAYLOAD_def unsigned_of_nat take_bit_eq_mod)
  have l: "length (tx_frame tx) = 72" "tx_wire tx" using assms(1) by (simp_all add: tx_mem_def GOV_FRAME_MAX_def gov_defs)
  have fl: "length (frame_bytes ?f) = 8 + length bs" by (simp add: frame_bytes_def frame_body_def Let_def)
  have e: "gov_frame_encode ty (tx_next_seq tx) (Some bs) (of_nat (length bs)) (Some (tx_frame tx)) (length (tx_frame tx)) =
      (Some (frame_bytes ?f @ drop (8 + length bs) (tx_frame tx)), 8 + length bs)"
    using encode_success [of "of_nat (length bs)" "Some bs" "length (tx_frame tx)" "tx_frame tx"] n l assms(3)
    by (simp add: GOV_MAX_PAYLOAD_def)
  let ?tx = "tx\<lparr> tx_frame := frame_bytes ?f @ drop (8 + length bs) (tx_frame tx), tx_frame_len := 8 + length bs,
      tx_cur_seq := tx_next_seq tx, tx_next_seq := tx_next_seq tx + 1, tx_retries := 0, tx_last_tx_ms := t,
      tx_state := GOV_TX_WAIT_ACK \<rparr>"
  have "exec send_step 9 tx (S_State ty (Some bs) (of_nat (length bs)) t) = Some (?tx, S_Bytes 0 (length (frame_bytes ?f)), [])"
    using assms(2) l e fl by (simp add: eval_nat_numeral)
  moreover have "tx_mem ?tx" using assms(1,3) l fl by (simp add: tx_mem_def GOV_MAX_PAYLOAD_def GOV_FRAME_MAX_def gov_defs)
  ultimately show ?thesis using fl l assms(3) by (intro exI [of _ ?tx]) (simp add: GOV_MAX_PAYLOAD_def)
qed

lemma bytes_exec:
  assumes "i + k \<le> n" and "n \<le> length (tx_frame tx)"
  shows "exec send_step k tx (S_Bytes i n) = Some (tx, S_Bytes (i + k) n, map (Pair (take n (tx_frame tx))) [i..<i + k])"
  using byte_loop [of n send_step tx "\<lambda>i. S_Bytes i n" "take n (tx_frame tx)" i k] assms by (simp add: wire_read_def)

section \<open>The receiving thread\<close>

text \<open>The fields that an iteration of the receiving thread leaves alone.\<close>

definition same_link :: "'b sys \<Rightarrow> 'b sys \<Rightarrow> bool" where
  "same_link s s' \<longleftrightarrow>
     y_link_rx s' = y_link_rx s \<and> y_link_tx s' = y_link_tx s \<and> y_decoder s' = y_decoder s \<and> y_byteq s' = y_byteq s \<and>
     y_tx s' = y_tx s \<and> y_telem s' = y_telem s \<and> y_control s' = y_control s \<and> y_clock s' = y_clock s"

lemma same_link_refl [simp]: "same_link s s" and same_link_trans: "same_link s t \<Longrightarrow> same_link t u \<Longrightarrow> same_link s u"
  by (simp_all add: same_link_def)

text \<open>After the queue: the sensor where there is one, then the report of being alive.\<close>

lemma rx_tail:
  assumes "sys_inv b api s" and "y_rx s = rx_next b"
  shows "\<exists>k s'. run_opt (sys_step b) s (replicate k LinkRx) = Some (s', []) \<and> sys_inv b api s' \<and> y_rx s' = X_Get \<and> same_link s s'"
proof -
  have alive: "\<exists>s'. run_opt (sys_step b) t (replicate 2 LinkRx) = Some (s', []) \<and> y_rx s' = X_Get \<and> same_link t s'"
    if "y_rx t = X_Alive" for t :: "'a sys"
    using that by (simp add: numeral_2_eq_2 sys_step_def link_rx_step_def same_link_def)
  have "\<exists>k s'. run_opt (sys_step b) s (replicate k LinkRx) = Some (s', []) \<and> y_rx s' = X_Get \<and> same_link s s'"
  proof (cases "HAVE_SENSOR b")
    case False
    then show ?thesis using alive [of s] assms(2) by (auto simp: rx_next_def)
  next
    case True
    then have so: "sensor_ok api s" "slot_ok (y_slot s)" using assms(1) by (auto simp: sys_inv_def)
    obtain sn dev slot where p: "rx_poll s = Some (s\<lparr> y_sensor := sn, y_dev := dev, y_slot := slot, y_rx := X_Stamp \<rparr>)"
      using rx_poll_ok [OF so] by blast
    have "\<exists>t. run_opt (sys_step b) s (replicate 3 LinkRx) = Some (t, []) \<and> y_rx t = X_Alive \<and> same_link s t"
      using p assms(2) True
      by (simp add: numeral_3_eq_3 sys_step_def link_rx_step_def rx_next_def same_link_def locked_note_sensor_def Let_def)
    then obtain t where t: "run_opt (sys_step b) s (replicate 3 LinkRx) = Some (t, [])" "y_rx t = X_Alive" "same_link s t"
      by blast
    from alive [OF t(2)] obtain s' where s': "run_opt (sys_step b) t (replicate 2 LinkRx) = Some (s', [])"
      "y_rx s' = X_Get" "same_link t s'" by blast
    from replicate_run [OF t(1) s'(1)] s'(2) same_link_trans [OF t(3) s'(3)] show ?thesis by auto
  qed
  then obtain k s' where k: "run_opt (sys_step b) s (replicate k LinkRx) = Some (s', [])" "y_rx s' = X_Get" "same_link s s'"
    by blast
  moreover have "sys_inv b api s'" using system.run_defined [OF assms(1), of "replicate k LinkRx"] k(1) by simp
  ultimately show ?thesis by blast
qed

text \<open>Bytes that complete no frame.\<close>

lemma rx_bytes:
  assumes "sys_inv b api s" and "y_rx s = X_Get" and "y_byteq s = bs @ rest" and "snd (run gov_decoder_push (y_decoder s) bs) = []"
  shows "\<exists>k s'. run_opt (sys_step b) s (replicate k LinkRx) = Some (s', []) \<and> sys_inv b api s' \<and> y_rx s' = X_Get \<and>
    same_link (s\<lparr> y_byteq := rest, y_decoder := fst (run gov_decoder_push (y_decoder s) bs) \<rparr>) s'"
  using assms
proof (induction bs arbitrary: s)
  case Nil
  then show ?case by (intro exI [of _ 0] exI [of _ s]) (simp add: same_link_def)
next
  case (Cons byte bs)
  obtain d where d: "gov_decoder_push (y_decoder s) byte = (d, [])" using Cons.prems(4) by (cases "gov_decoder_push (y_decoder s) byte") auto
  let ?s1 = "s\<lparr> y_byteq := bs @ rest, y_decoder := d, y_rx := rx_next b \<rparr>"
  have 1: "run_opt (sys_step b) s (replicate 1 LinkRx) = Some (?s1, [])"
    using Cons.prems(2,3) d by (simp add: sys_step_def link_rx_step_def rx_receive_def)
  have i1: "sys_inv b api ?s1" using system.run_defined [OF Cons.prems(1), of "replicate 1 LinkRx"] 1 by simp
  from rx_tail [OF i1] obtain k2 s2 where 2: "run_opt (sys_step b) ?s1 (replicate k2 LinkRx) = Some (s2, [])"
    "sys_inv b api s2" "y_rx s2 = X_Get" "same_link ?s1 s2" by auto
  have e: "y_byteq s2 = bs @ rest" "y_decoder s2 = d" using 2(4) by (simp_all add: same_link_def)
  moreover have "snd (run gov_decoder_push d bs) = []" using Cons.prems(4) d by simp
  ultimately obtain k3 s3 where 3: "run_opt (sys_step b) s2 (replicate k3 LinkRx) = Some (s3, [])"
    "sys_inv b api s3" "y_rx s3 = X_Get" "same_link (s2\<lparr> y_byteq := rest, y_decoder := fst (run gov_decoder_push d bs) \<rparr>) s3"
    using Cons.IH [OF 2(2,3)] by auto
  from replicate_run [OF replicate_run [OF 1 2(1)] 3(1)]
  have "run_opt (sys_step b) s (replicate (1 + k2 + k3) LinkRx) = Some (s3, [])" by simp
  moreover have "same_link (s\<lparr> y_byteq := rest, y_decoder := fst (run gov_decoder_push (y_decoder s) (byte # bs)) \<rparr>) s3"
    using 2(4) 3(4) d by (simp add: same_link_def)
  ultimately show ?case using 3(2,3) by blast
qed

text \<open>A stream that delivers one frame has a byte that completes it.\<close>

lemma completing_byte:
  assumes "snd (run gov_decoder_push d bs) = [f]"
  shows "\<exists>pre byte post. bs = pre @ byte # post \<and> snd (run gov_decoder_push d pre) = [] \<and>
    snd (gov_decoder_push (fst (run gov_decoder_push d pre)) byte) = [f]"
  using assms
proof (induction bs arbitrary: d)
  case (Cons byte bs)
  show ?case
  proof (cases "snd (gov_decoder_push d byte)")
    case Nil
    with Cons.prems Cons.IH [of "fst (gov_decoder_push d byte)"] obtain pre byte' post where
      "bs = pre @ byte' # post" "snd (run gov_decoder_push (fst (gov_decoder_push d byte)) pre) = []"
      "snd (gov_decoder_push (fst (run gov_decoder_push (fst (gov_decoder_push d byte)) pre)) byte') = [f]"
      by auto
    with Nil show ?thesis by (intro exI [of _ "byte # pre"] exI [of _ byte'] exI [of _ post]) simp
  next
    case (Cons g gs)
    with Cons.prems show ?thesis by (intro exI [of _ "[]"] exI [of _ byte] exI [of _ bs]) simp
  qed
qed simp

text \<open>A frame in the queue of received bytes is decoded and dispatched.\<close>

lemma frame_arrives:
  assumes "sys_inv b api s" and "y_rx s = X_Get" and "y_byteq s = frame_bytes f" and "dec_ready (y_decoder s)" and "deliverable f"
  shows "\<exists>k s1. run_opt (sys_step b) s (replicate k LinkRx) = Some (on_decoded_frame s1 f, []) \<and>
    sys_inv b api (on_decoded_frame s1 f) \<and> y_link_rx s1 = y_link_rx s \<and> y_link_tx s1 = y_link_tx s \<and> y_clock s1 = y_clock s \<and>
    y_tx s1 = y_tx s \<and> y_telem s1 = y_telem s \<and> y_control s1 = y_control s"
proof -
  have "snd (run gov_decoder_push (y_decoder s) (frame_bytes f)) = [f]" using link.feed_enc [OF assms(4,5)] by blast
  then obtain pre byte post where bs: "frame_bytes f = pre @ byte # post" "snd (run gov_decoder_push (y_decoder s) pre) = []"
    "snd (gov_decoder_push (fst (run gov_decoder_push (y_decoder s) pre)) byte) = [f]"
    using completing_byte by blast
  obtain k s1 where 1: "run_opt (sys_step b) s (replicate k LinkRx) = Some (s1, [])" "sys_inv b api s1" "y_rx s1 = X_Get"
    "same_link (s\<lparr> y_byteq := byte # post, y_decoder := fst (run gov_decoder_push (y_decoder s) pre) \<rparr>) s1"
    using rx_bytes [OF assms(1,2) _ bs(2), of "byte # post"] assms(3) bs(1) by auto
  obtain d where d: "gov_decoder_push (y_decoder s1) byte = (d, [f])"
    using bs(3) 1(4) by (cases "gov_decoder_push (y_decoder s1) byte") (simp add: same_link_def)
  let ?s2 = "s1\<lparr> y_byteq := post, y_decoder := d \<rparr>"
  have 2: "run_opt (sys_step b) s1 (replicate 1 LinkRx) = Some (on_decoded_frame ?s2 f, [])"
    using 1(3,4) d by (simp add: sys_step_def link_rx_step_def rx_receive_def same_link_def)
  have "sys_inv b api (on_decoded_frame ?s2 f)" using system.run_defined [OF 1(2), of "replicate 1 LinkRx"] 2 by simp
  with replicate_run [OF 1(1) 2] 1(4) show ?thesis
    by (intro exI [of _ "k + 1"] exI [of _ ?s2]) (simp add: same_link_def)
qed

text \<open>The acknowledgement of a frame, and the event that it posts.\<close>

lemma write_moves:
  assumes "i + k \<le> length w"
  shows "run_opt (sys_step b) (s\<lparr> y_rx := X_Write (w # ws) i \<rparr>) (replicate k LinkRx) =
    Some (s\<lparr> y_rx := X_Write (w # ws) (i + k) \<rparr>, concat (map (link_wire_out b Rx_Thread) (map (Pair w) [i..<i + k])))"
  using assms
proof (induction k arbitrary: i)
  case (Suc k)
  have "sys_step b (s\<lparr> y_rx := X_Write (w # ws) i \<rparr>) LinkRx =
      Some (s\<lparr> y_rx := X_Write (w # ws) (Suc i) \<rparr>, link_wire_out b Rx_Thread (w, i))"
    using Suc.prems by (simp add: sys_step_simps link_rx_step_def)
  moreover have "[i..<i + Suc k] = i # [Suc i..<Suc i + k]" by (subst upt_conv_Cons) simp_all
  ultimately show ?case using Suc.IH [of "Suc i"] Suc.prems by (simp del: upt_Suc)
qed simp

lemma dispatch_acks:
  assumes "rx_callbacks (y_link_rx s)" and "HAVE_LINK_UART b" and "\<not> (f_type f = GOV_TYPE_ACK \<and> length (f_payload f) \<ge> 1)"
  shows "\<exists>k s' out. run_opt (sys_step b) (on_decoded_frame s f) (replicate k LinkRx) = Some (s', out) \<and>
    uart_bytes out = frame_bytes (ack_frame (f_seq f)) \<and> y_link_tx s' = y_link_tx s \<and> y_telem s' = y_telem s \<and>
    y_node s' = (case (if rx_last (y_link_rx s) = Some (f_seq f) then None else on_app_deliver f) of
       None \<Rightarrow> y_node s | Some ev \<Rightarrow> gov_node_post_event (y_node s) ev (y_clock s))"
proof -
  let ?a = "frame_bytes (ack_frame (f_seq f))"
  define ev where "ev = (if rx_last (y_link_rx s) = Some (f_seq f) then None else on_app_deliver f)"
  obtain rx out where o: "gov_rx_on_frame (y_link_rx s) f = (rx, out)" by fastforce
  have "out = (if rx_last (y_link_rx s) = Some (f_seq f) then [] else [App f]) @ [Wire ?a]"
    using rx_step(1) [of "y_link_rx s" f] assms(1) o by (simp add: rx_callbacks_def)
  then have a: "wires out = [?a]" "(case apps out of [] \<Rightarrow> None | g # _ \<Rightarrow> on_app_deliver g) = ev"
    by (auto simp: ev_def)
  let ?n = "case ev of None \<Rightarrow> y_node s | Some e \<Rightarrow> gov_node_post_event (y_node s) e (y_clock s)"
  let ?t = "s\<lparr> y_link_rx := rx, y_node := ?n \<rparr>"
  have "\<exists>j. run_opt (sys_step b) (on_decoded_frame s f) (replicate j LinkRx) = Some (?t\<lparr> y_rx := X_Write [?a] 0 \<rparr>, [])"
  proof (cases ev)
    case None
    then show ?thesis unfolding on_decoded_frame_def if_not_P [OF assms(3)] o
      by (intro exI [of _ 0]) (simp add: a)
  next
    case (Some e)
    then show ?thesis unfolding on_decoded_frame_def if_not_P [OF assms(3)] o
      by (intro exI [of _ 1]) (simp add: a sys_step_def link_rx_step_def locked_post_event_def)
  qed
  then obtain j where "run_opt (sys_step b) (on_decoded_frame s f) (replicate j LinkRx) = Some (?t\<lparr> y_rx := X_Write [?a] 0 \<rparr>, [])"
    by blast
  from replicate_run [OF this write_moves [where i = 0 and k = "length ?a" and w = ?a and ws = "[]"]]
  have run: "run_opt (sys_step b) (on_decoded_frame s f) (replicate (j + length ?a) LinkRx) =
      Some (?t\<lparr> y_rx := X_Write [?a] (length ?a) \<rparr>, concat (map (link_wire_out b Rx_Thread) (map (Pair ?a) [0..<length ?a])))"
    by (simp del: map_map)
  have "uart_bytes (concat (map (link_wire_out b Rx_Thread) (map (Pair ?a) [0..<length ?a]))) = ?a"
    unfolding uart_bytes_writes [OF assms(2)] by (rule bytes_of_write)
  with run show ?thesis unfolding ev_def [symmetric]
    by (intro exI [of _ "j + length ?a"] exI [of _ "?t\<lparr> y_rx := X_Write [?a] (length ?a) \<rparr>"] exI) (intro conjI; simp)
qed

section \<open>A frame on the wire\<close>

text \<open>The receiving thread waits for a byte, and the node is between frames.\<close>

definition listening :: "'b sys \<Rightarrow> bool" where
  "listening s \<longleftrightarrow> y_rx s = X_Get \<and> y_uart_irq s \<and> y_byteq s = [] \<and> dec_ready (y_decoder s)"

lemma queue_room: "length q + length bs \<le> RX_BYTEQ_LEN \<Longrightarrow> foldl msgq_put q bs = q @ bs"
  by (induction bs arbitrary: q) (simp_all add: msgq_put_def)

lemma arrival:
  assumes "sys_inv b api s" and "listening s" and "deliverable f"
  shows "\<exists>k s1. run_opt (sys_step b) s (Uart (frame_bytes f) # replicate k LinkRx) = Some (on_decoded_frame s1 f, []) \<and>
    y_link_rx s1 = y_link_rx s \<and> y_link_tx s1 = y_link_tx s \<and> y_clock s1 = y_clock s \<and> y_telem s1 = y_telem s"
proof -
  have "length (frame_bytes f) \<le> RX_BYTEQ_LEN"
    using assms(3) by (simp add: deliverable_def frame_ok_def frame_bytes_def frame_body_def RX_BYTEQ_LEN_def GOV_MAX_PAYLOAD_def Let_def)
  then have "foldl msgq_put [] (frame_bytes f) = frame_bytes f" using queue_room [of "[]" "frame_bytes f"] by simp
  then have u: "sys_step b s (Uart (frame_bytes f)) = Some (s\<lparr> y_byteq := frame_bytes f \<rparr>, [])"
    using assms(2) by (simp add: sys_step_simps link_uart_isr_def listening_def)
  have "sys_inv b api (s\<lparr> y_byteq := frame_bytes f \<rparr>)" using system.step_defined [OF assms(1), of "Uart (frame_bytes f)"] u by simp
  from frame_arrives [OF this _ _ _ assms(3)] assms(2) obtain k s1 where
    "run_opt (sys_step b) (s\<lparr> y_byteq := frame_bytes f \<rparr>) (replicate k LinkRx) = Some (on_decoded_frame s1 f, [])"
    "y_link_rx s1 = y_link_rx s" "y_link_tx s1 = y_link_tx s" "y_clock s1 = y_clock s" "y_telem s1 = y_telem s"
    by (auto simp: listening_def)
  with u show ?thesis by (intro exI [of _ k] exI [of _ s1]) simp
qed

text \<open>A frame that is not an acknowledgement: its event is posted once and the acknowledgement leaves.\<close>

lemma command_arrives:
  assumes "sys_inv b api s" and "listening s" and "deliverable f" and "f_type f \<noteq> GOV_TYPE_ACK" and "HAVE_LINK_UART b"
  shows "\<exists>k s' out n. run_opt (sys_step b) s (Uart (frame_bytes f) # replicate k LinkRx) = Some (s', out) \<and>
    uart_bytes out = frame_bytes (ack_frame (f_seq f)) \<and> y_link_tx s' = y_link_tx s \<and> y_telem s' = y_telem s \<and>
    y_node s' = (case (if rx_last (y_link_rx s) = Some (f_seq f) then None else on_app_deliver f) of
       None \<Rightarrow> n | Some ev \<Rightarrow> gov_node_post_event n ev (y_clock s))"
proof -
  obtain k1 s1 where 1: "run_opt (sys_step b) s (Uart (frame_bytes f) # replicate k1 LinkRx) = Some (on_decoded_frame s1 f, [])"
    "y_link_rx s1 = y_link_rx s" "y_link_tx s1 = y_link_tx s" "y_clock s1 = y_clock s" "y_telem s1 = y_telem s"
    using arrival [OF assms(1-3)] by blast
  have c: "rx_callbacks (y_link_rx s1)" using assms(1) 1(2) by (simp add: sys_inv_def)
  obtain k2 s' out where 2: "run_opt (sys_step b) (on_decoded_frame s1 f) (replicate k2 LinkRx) = Some (s', out)"
    "uart_bytes out = frame_bytes (ack_frame (f_seq f))" "y_link_tx s' = y_link_tx s1" "y_telem s' = y_telem s1"
    "y_node s' = (case (if rx_last (y_link_rx s1) = Some (f_seq f) then None else on_app_deliver f) of
       None \<Rightarrow> y_node s1 | Some ev \<Rightarrow> gov_node_post_event (y_node s1) ev (y_clock s1))"
    using dispatch_acks [OF c assms(5), of f] assms(4) by blast
  have "run_opt (sys_step b) s (Uart (frame_bytes f) # replicate (k1 + k2) LinkRx) = Some (s', out)"
    using run_opt_append [OF 1(1) 2(1)] by (simp add: replicate_add)
  with 2(2-) show ?thesis unfolding 1(2-) by blast
qed

text \<open>The acknowledgement of the frame in flight frees the sender.\<close>

lemma ack_arrives:
  assumes "sys_inv b api s" and "listening s" and "tx_state (y_link_tx s) = GOV_TX_WAIT_ACK"
  shows "\<exists>k s'. run_opt (sys_step b) s (Uart (frame_bytes (ack_frame (tx_cur_seq (y_link_tx s)))) # replicate k LinkRx) =
    Some (s', []) \<and> tx_state (y_link_tx s') = GOV_TX_IDLE"
proof -
  let ?f = "ack_frame (tx_cur_seq (y_link_tx s))"
  obtain k s1 where 1: "run_opt (sys_step b) s (Uart (frame_bytes ?f) # replicate k LinkRx) = Some (on_decoded_frame s1 ?f, [])"
    "y_link_tx s1 = y_link_tx s"
    using arrival [OF assms(1,2) deliverable_ack] by blast
  have "\<exists>s'. run_opt (sys_step b) (on_decoded_frame s1 ?f) (replicate 3 LinkRx) = Some (s', []) \<and> tx_state (y_link_tx s') = GOV_TX_IDLE"
    using assms(3) 1(2) by (simp add: numeral_3_eq_3 sys_step_simps on_decoded_frame_def ack_frame_def link_rx_step_def)
  then obtain s' where "run_opt (sys_step b) (on_decoded_frame s1 ?f) (replicate 3 LinkRx) = Some (s', [])"
    "tx_state (y_link_tx s') = GOV_TX_IDLE" by blast
  with run_opt_append [OF 1(1)] show ?thesis
    by (intro exI [of _ "k + 3"] exI [of _ s']) (simp add: replicate_add)
qed

text \<open>
  An iteration of the telemetry thread up to the first byte of its frame, and any stretch of the
  bytes that follow.
\<close>

definition telem_frame :: "gov_tx \<Rightarrow> gov_telem_record \<Rightarrow> gov_frame" where
  "telem_frame tx rec = Frame GOV_TYPE_DATA (tx_next_seq tx) (telem_bytes rec)"

lemma telem_frame_ok: "deliverable (telem_frame tx rec)"
  using telem.length_enc
  by (simp add: telem_frame_def deliverable_def frame_ok_def known_def is_known_type_def GOV_MAX_PAYLOAD_def GOV_TELEM_DATA_LEN_def)

lemma telemetry_begins:
  assumes "sys_inv b api s" and "HAVE_LINK_UART b" and "y_telem s = M_Fill" and "tx_state (y_link_tx s) = GOV_TX_IDLE"
  shows "\<exists>rec k r tx. gov_node_fill_telemetry (y_node s) = Some rec \<and>
    run_opt (sys_step b) s (replicate k Telemetry) = Some (s\<lparr> y_ring := r, y_link_tx := tx,
      y_telem := M_Send rec (S_Bytes 0 (length (frame_bytes (telem_frame (y_link_tx s) rec)))) \<rparr>, []) \<and>
    take (length (frame_bytes (telem_frame (y_link_tx s) rec))) (tx_frame tx) = frame_bytes (telem_frame (y_link_tx s) rec) \<and>
    length (frame_bytes (telem_frame (y_link_tx s) rec)) \<le> length (tx_frame tx) \<and> tx_state tx = GOV_TX_WAIT_ACK \<and>
    tx_cur_seq tx = tx_next_seq (y_link_tx s)"
proof -
  have n: "node_ok (y_node s)" and m: "tx_mem (y_link_tx s)" and r: "ring_inv (y_ring s)" "ring_list (y_ring s) = []"
    using assms(1,2) by (auto simp: sys_inv_def ring_idle_def sender_ok_def)
  obtain rec where rec: "gov_node_fill_telemetry (y_node s) = Some rec" using fill_defined [OF n] by blast
  have l: "length (telem_bytes rec) \<le> GOV_MAX_PAYLOAD" using telem.length_enc by (simp add: GOV_TELEM_DATA_LEN_def GOV_MAX_PAYLOAD_def)
  let ?s1 = "s\<lparr> y_telem := M_Push rec \<rparr>"
  let ?pc = "S_State GOV_TYPE_DATA (Some (telem_bytes rec)) (of_nat (length (telem_bytes rec))) (y_clock s)"
  obtain r2 where 2: "telemetry_push b ?s1 rec = ?s1\<lparr> y_ring := r2, y_telem := M_Send rec ?pc \<rparr>"
    using telemetry_push_eq [of ?s1 b rec] r assms(2) by auto
  let ?s2 = "s\<lparr> y_ring := r2 \<rparr>"
  have 12: "run_opt (sys_step b) s (replicate 2 Telemetry) = Some (?s2\<lparr> y_link_tx := y_link_tx s, y_telem := M_Send rec ?pc \<rparr>, [])"
    using rec assms(3) 2 by (simp add: numeral_2_eq_2 sys_step_simps telemetry_step_def locked_fill_telemetry_def)
  let ?n = "length (frame_bytes (telem_frame (y_link_tx s) rec))"
  obtain tx where tx: "exec send_step 9 (y_link_tx s) ?pc = Some (tx, S_Bytes 0 ?n, [])"
    "take ?n (tx_frame tx) = frame_bytes (telem_frame (y_link_tx s) rec)" "?n \<le> length (tx_frame tx)"
    "tx_state tx = GOV_TX_WAIT_ACK" "tx_cur_seq tx = tx_next_seq (y_link_tx s)"
    using send_start [OF m assms(4) l, of GOV_TYPE_DATA "y_clock s"] unfolding telem_frame_def by blast
  obtain j where "run_opt (sys_step b) (?s2\<lparr> y_link_tx := y_link_tx s, y_telem := M_Send rec ?pc \<rparr>) (replicate j Telemetry) =
      Some (?s2\<lparr> y_link_tx := tx, y_telem := M_Send rec (S_Bytes 0 ?n) \<rparr>, [])"
    using send_moves [OF tx(1), where b = b and s = ?s2 and rec = rec] by auto
  from replicate_run [OF 12 this] rec tx(2-) show ?thesis
    by (intro exI [of _ rec] exI [of _ "2 + j"] exI [of _ r2] exI [of _ tx]) simp
qed

lemma telemetry_continues:
  assumes "HAVE_LINK_UART b" and "y_telem s = M_Send rec (S_Bytes i (length w))" and "i + k \<le> length w"
    and "length w \<le> length (tx_frame (y_link_tx s))" and "take (length w) (tx_frame (y_link_tx s)) = w"
  shows "\<exists>j out. run_opt (sys_step b) s (replicate j Telemetry) = Some (s\<lparr> y_telem := M_Send rec (S_Bytes (i + k) (length w)) \<rparr>, out) \<and>
    uart_bytes out = take k (drop i w)"
proof -
  let ?o = "map (Pair w) [i..<i + k]"
  have e: "s\<lparr> y_link_tx := y_link_tx s, y_telem := M_Send rec (S_Bytes i (length w)) \<rparr> = s"
    "s\<lparr> y_link_tx := y_link_tx s, y_telem := M_Send rec (S_Bytes (i + k) (length w)) \<rparr> =
     s\<lparr> y_telem := M_Send rec (S_Bytes (i + k) (length w)) \<rparr>"
    using assms(2) by simp_all
  obtain j where "run_opt (sys_step b) s (replicate j Telemetry) =
      Some (s\<lparr> y_telem := M_Send rec (S_Bytes (i + k) (length w)) \<rparr>, concat (map (link_wire_out b Telem_Thread) ?o))"
    using send_moves [OF bytes_exec [OF assms(3,4)], where b = b and s = s and rec = rec] unfolding e assms(5) by blast
  moreover have "map byte_of ?o = take k (drop i w)"
    using assms(3) by (intro nth_equalityI) (simp_all add: byte_of_def add.commute)
  ultimately show ?thesis using uart_bytes_writes [OF assms(1), of Telem_Thread ?o] by auto
qed

section \<open>A frame cut by another\<close>

lemma hunt_through: "d_state d = GOV_DEC_HUNT_SOF \<Longrightarrow> GOV_SOF \<notin> set bs \<Longrightarrow> run gov_decoder_push d bs = (d, [])"
  by (induction bs) (auto simp: run_Cons gov_decoder_push_def)

lemma start_twice: "d_state d = GOV_DEC_HUNT_SOF \<Longrightarrow> run gov_decoder_push d (GOV_SOF # GOV_SOF # bs) = run gov_decoder_push d (GOV_SOF # bs)"
  by (simp add: run_Cons gov_decoder_push_def start_frame_def gov_defs)

lemma cut_stream:
  assumes "dec_ready d" and "deliverable a" and "GOV_SOF \<notin> set r"
  shows "snd (run gov_decoder_push d (GOV_SOF # frame_bytes a @ r)) = [a]"
proof -
  obtain u where u: "frame_bytes a = GOV_SOF # u" by (simp add: frame_bytes_def)
  have h: "d_state d = GOV_DEC_HUNT_SOF" using assms(1) by (simp add: dec_ready_def)
  have f: "snd (run gov_decoder_push d (frame_bytes a)) = [a]" "dec_ready (fst (run gov_decoder_push d (frame_bytes a)))"
    using link.feed_enc [OF assms(1,2)] by simp_all
  have "run gov_decoder_push d (GOV_SOF # frame_bytes a @ r) = run gov_decoder_push d (frame_bytes a @ r)"
    using start_twice [OF h, of "u @ r"] by (simp add: u)
  then show ?thesis
    using f hunt_through [OF _ assms(3), of "fst (run gov_decoder_push d (frame_bytes a))"]
    by (simp add: snd_run_append dec_ready_def)
qed

section \<open>The system is a sequence of calls on its node\<close>

definition applied :: "sys_out list \<Rightarrow> f32 list" where
  "applied out = concat (map (\<lambda>x. case x of Applied u \<Rightarrow> [u] | _ \<Rightarrow> []) out)"

lemma applied_simps [simp]: "applied [] = []" "applied (xs @ ys) = applied xs @ applied ys" "applied (Applied u # xs) = u # applied xs"
  by (simp_all add: applied_def)

lemma applied_writes [simp]: "applied (concat (map (link_wire_out b th) xs)) = []" "applied (link_wire_out b th x) = []"
  by (induction xs) (auto simp: link_wire_out_def applied_def)

text \<open>What the threads call: measurements of the sensor's range, operator commands, the driver's flags.\<close>

fun system_call :: "node_call \<Rightarrow> bool" where
  "system_call (NoteSensor sf h) = bits_in sf GOV_FAULT_SENSOR_ANY_DRIVER"
| "system_call (ControlStep m) = f32_in m 0 100"
| "system_call (PostEvent ev) = (ev = GOV_EV_OPERATOR_STOP \<or> ev = GOV_EV_OPERATOR_CLEAR)"
| "system_call (NoteLink h) = True"
| "system_call (NoteTiming h) = True"
| "system_call SelftestOk = False"

lemma system_call_ok: "system_call c \<Longrightarrow> call_ok c"
  by (cases c) (auto intro: percent_mag)

definition node_move :: "'b sys \<Rightarrow> 'b sys \<Rightarrow> sys_out list \<Rightarrow> bool" where
  "node_move s s' out \<longleftrightarrow>
     (\<exists>cs. node_calls (y_node s) cs = Some (y_node s', applied out) \<and> (\<forall>e \<in> set cs. system_call (fst e)))"

lemma stutter: "y_node s' = y_node s \<Longrightarrow> applied out = [] \<Longrightarrow> node_move s s' out"
  unfolding node_move_def by (intro exI [of _ "[]"]) (simp add: node_calls_def)

lemma one_call:
  "node_step (y_node s) c t = Some (y_node s', applied out) \<Longrightarrow> system_call c \<Longrightarrow> node_move s s' out"
  unfolding node_move_def by (intro exI [of _ "[(c, t)]"]) (simp add: node_calls_def)

lemma control_move:
  assumes "sys_inv b api s" and "control_step b s = Some (s', out)"
  shows "node_move s s' out"
proof (cases "y_control s")
  case (C_Step t)
  then show ?thesis
    using assms one_call [of s "ControlStep (y_measurement s)" t s' out]
    by (auto simp: control_step_def locked_control_step_def sys_inv_def)
qed (use assms in \<open>auto intro!: stutter simp: control_step_def Let_def case_prod_beta applied_def split: if_splits\<close>)

lemma rx_poll_node: "rx_poll s = Some s' \<Longrightarrow> y_node s' = y_node s"
  by (auto simp: rx_poll_def Let_def split: option.splits prod.splits if_splits)

lemma rx_receive_node: "y_node (rx_receive b s) = y_node s"
proof -
  have "y_node (on_decoded_frame t f) = y_node t" for t :: "'a sys" and f
    using decoded_frame_ok [of t f b] by auto
  then show ?thesis by (auto simp: rx_receive_def Let_def split: list.splits prod.splits)
qed

lemma link_rx_move:
  assumes "sys_inv b api s" and "link_rx_step b s = Some (s', out)"
  shows "node_move s s' out"
proof (cases "y_rx s")
  case (X_Post ev t ws)
  then show ?thesis
    using assms one_call [of s "PostEvent ev" t s' out]
    by (auto simp: link_rx_step_def locked_post_event_def sys_inv_def)
next
  case (X_Note sf ok t)
  then show ?thesis
    using assms one_call [of s "NoteSensor sf ok" t s' out]
    by (auto simp: link_rx_step_def locked_note_sensor_def sys_inv_def)
qed (use assms in \<open>auto intro!: stutter simp: link_rx_step_def Let_def case_prod_beta rx_receive_node rx_poll_node
      split: if_splits list.splits\<close>)

lemma link_tx_move:
  assumes "link_tx_step b s = Some (s', out)"
  shows "node_move s s' out"
proof (cases "y_tx s")
  case (T_Note ok t)
  then show ?thesis
    using assms one_call [of s "NoteLink ok" t s' out] by (auto simp: link_tx_step_def locked_note_link_def)
next
  case (T_Poll pc)
  show ?thesis
  proof (cases "\<exists>st. pc = P_Done st")
    case True
    then show ?thesis using assms T_Poll by (auto intro!: stutter simp: link_tx_step_def)
  next
    case False
    then show ?thesis using assms poll_pc_step [OF T_Poll, of b] by (auto intro!: stutter)
  qed
qed (use assms in \<open>auto intro!: stutter simp: link_tx_step_def Let_def case_prod_beta split: if_splits\<close>)

lemma telemetry_push_node: "y_node (telemetry_push b s rec) = y_node s"
  by (simp add: telemetry_push_def Let_def case_prod_beta)

lemma telemetry_move:
  assumes "telemetry_step b s = Some (s', out)"
  shows "node_move s s' out"
proof (cases "y_telem s")
  case (M_Send rec pc)
  show ?thesis
  proof (cases "\<exists>st. pc = S_Done st")
    case True
    then show ?thesis using assms M_Send by (auto intro!: stutter simp: telemetry_step_def)
  next
    case False
    then show ?thesis using assms send_pc_step [OF M_Send, of b] by (auto intro!: stutter)
  qed
qed (use assms in \<open>auto intro!: stutter simp: telemetry_step_def telemetry_push_node applied_def split: if_splits\<close>)

lemma health_move:
  assumes "health_thread_step b s = Some (s', out)"
  shows "node_move s s' out"
proof (cases "y_hlth s")
  case (H_Note ok t)
  then show ?thesis
    using assms one_call [of s "NoteTiming ok" t s' out] by (auto simp: health_thread_step_def locked_note_timing_def)
qed (use assms in \<open>auto intro!: stutter simp: health_thread_step_def watchdog_feed_def applied_def split: if_splits\<close>)

lemma system_move:
  assumes "sys_inv b api s" and "sys_step b s m = Some (s', out)"
  shows "node_move s s' out"
  using assms(2) control_move [OF assms(1), of s' out] link_rx_move [OF assms(1), of s' out] link_tx_move [of b s s' out]
    telemetry_move [of b s s' out] health_move [of b s s' out]
  by (cases m) (auto intro: stutter simp: sys_step_def control_timer_fn_def link_uart_isr_def split: if_splits)

lemma system_calls:
  assumes "sys_inv b api s" and "run_opt (sys_step b) s ms = Some (s', out)"
  shows "node_move s s' out"
  using assms
proof (induction ms arbitrary: s out)
  case Nil
  then show ?case by (auto intro: stutter)
next
  case (Cons m ms)
  obtain s1 o1 o2 where 1: "sys_step b s m = Some (s1, o1)" "run_opt (sys_step b) s1 ms = Some (s', o2)" "out = o1 @ o2"
    using Cons.prems(2) by (auto split: option.splits)
  have "sys_inv b api s1" using system.step_defined [OF Cons.prems(1), of m] 1(1) by simp
  from Cons.IH [OF this 1(2)] system_move [OF Cons.prems(1) 1(1)] show ?case
    unfolding node_move_def 1(3) node_calls_def using run_opt_append by (fastforce simp: applied_simps)
qed

section \<open>No divergence\<close>

text \<open>The sensor's range keeps the error within the divergence limit for every setpoint from -50 to 150.\<close>

lemma band_within:
  assumes "f32_in sp (- 50) 150" and "f32_in m 0 100"
  shows "in_band sp m"
proof -
  obtain v w where v: "sp = Fin v" "m = Fin w" "\<bar>v - w\<bar> \<le> 150"
    using assms by (cases sp; cases m) (auto simp: f32_in_def abs_le_iff)
  have r: "representable 150" using representable_int [of 150] by simp
  have l: "f32_lit 150 1 = Fin 150" by (simp add: f32_eval)
  from f32_round_in [OF v(3) r] have "f32_sub sp m = Fin (f32_near (v - w))" "\<bar>f32_near (v - w)\<bar> \<le> 150"
    by (simp_all add: v f32_sub_def)
  then show ?thesis
    by (auto simp: in_band_def gov_fabsf_def PID_CFG_def GOV_DIVERGE_LIMIT_def l)
qed

text \<open>Only the divergence event raises the divergence flag.\<close>

lemma diverge_flags [simp]:
  "\<not> raised GOV_FAULT_DIVERGE GOV_FAULT_INIT" "\<not> raised GOV_FAULT_DIVERGE GOV_FAULT_ESCALATED"
  "\<not> raised GOV_FAULT_DIVERGE GOV_FAULT_OPERATOR_STOP" "\<not> raised GOV_FAULT_DIVERGE GOV_FAULT_INTERNAL"
  "\<not> raised GOV_FAULT_DIVERGE GOV_FAULT_WATCHDOG" "\<not> raised GOV_FAULT_DIVERGE GOV_FAULT_LINK"
  "\<not> raised GOV_FAULT_DIVERGE GOV_FAULT_TIMING" "\<not> raised GOV_FAULT_DIVERGE GOV_FAULT_SENSOR_ACTIVE"
  by (simp_all add: raised_def fault_values)

lemma raised_AND: "raised f (a AND b) \<Longrightarrow> raised f a"
  by (rule raised_bits_in [of f "a AND b"]) (simp_all add: bits_in_iff bit_simps)

lemma no_diverge_service:
  assumes "\<not> raised GOV_FAULT_DIVERGE (s_faults s)"
  shows "\<not> raised GOV_FAULT_DIVERGE (s_faults (service_timers s now))"
  using assms by (cases "s_state s") (auto simp: service_timers_def raised_OR dest: raised_AND)

lemma no_diverge_dispatch:
  assumes "\<not> raised GOV_FAULT_DIVERGE (s_faults s)" and "flags_ok s" and "ev \<noteq> GOV_EV_DIVERGE"
  shows "\<not> raised GOV_FAULT_DIVERGE (s_faults (step_in_init s ev now))" "\<not> raised GOV_FAULT_DIVERGE (s_faults (step_in_run s ev now))"
    "\<not> raised GOV_FAULT_DIVERGE (s_faults (step_in_degraded s ev now))"
    "\<not> raised GOV_FAULT_DIVERGE (s_faults (step_in_safe_stop s ev now))"
    "\<not> raised GOV_FAULT_DIVERGE (s_faults (step_in_fault_halt s ev))"
proof -
  have "\<not> raised GOV_FAULT_DIVERGE (s_sticky s)" using assms(1,2) raised_bits_in unfolding flags_ok_def by blast
  with assms(1,3) show "\<not> raised GOV_FAULT_DIVERGE (s_faults (step_in_init s ev now))"
    "\<not> raised GOV_FAULT_DIVERGE (s_faults (step_in_run s ev now))"
    "\<not> raised GOV_FAULT_DIVERGE (s_faults (step_in_degraded s ev now))"
    "\<not> raised GOV_FAULT_DIVERGE (s_faults (step_in_safe_stop s ev now))"
    "\<not> raised GOV_FAULT_DIVERGE (s_faults (step_in_fault_halt s ev))"
    by (cases ev; simp add: step_in_init_def step_in_run_def step_in_degraded_def step_in_safe_stop_def
        step_in_fault_halt_def raised_OR Let_def)+
qed

lemma no_diverge_step:
  assumes "\<not> raised GOV_FAULT_DIVERGE (s_faults s)" and "safety_inv s" and "ev \<noteq> GOV_EV_DIVERGE"
  shows "\<not> raised GOV_FAULT_DIVERGE (s_faults (gov_safety_step s ev now))"
proof -
  let ?s = "s\<lparr>s_now_ms := now\<rparr>"
  have "flags_ok ?s" using assms(2) by (simp add: safety_inv_def flags_ok_now)
  from no_diverge_dispatch [OF _ this assms(3)] assms(1) show ?thesis
    by (auto simp: gov_safety_step_def Let_def raised_OR no_diverge_service split: gov_state.split)
qed

definition undiverged :: "f32 \<Rightarrow> gov_node \<Rightarrow> bool" where
  "undiverged sp n \<longleftrightarrow> node_inv n \<and> n_setpoint n = sp \<and> \<not> raised GOV_FAULT_DIVERGE (s_faults (n_safety n))"

lemma undiverged_faults: "undiverged sp n \<Longrightarrow> \<not> raised GOV_FAULT_DIVERGE (gov_node_faults n)"
proof -
  assume u: "undiverged sp n"
  have "\<not> raised GOV_FAULT_DIVERGE GOV_FAULT_SENSOR_ANY_DRIVER" by (simp add: raised_def fault_values)
  then have "\<not> raised GOV_FAULT_DIVERGE (n_driver_faults n)"
    using u raised_bits_in by (auto simp: undiverged_def node_inv_def shadow_ok_def)
  with u show ?thesis by (simp add: undiverged_def gov_node_faults_def gov_safety_fault_flags_def raised_OR)
qed

lemma setpoint_constant: "node_step n c now = Some (n', us) \<Longrightarrow> n_setpoint n' = n_setpoint n"
  by (cases c)
    (auto simp: note_sensor_keeps(4) gov_node_note_link_def gov_node_note_timing_def gov_node_selftest_ok_def
      post_event_keeps(3) gov_node_control_step_def Let_def case_prod_beta split: option.splits)

text \<open>What a call of the threads does to the state machine.\<close>

lemma note_undiverging:
  assumes "ev \<noteq> GOV_EV_DIVERGE" and "n_safety n0 = n_safety n"
  shows "n_safety (note_cause n0 cause ev h now) = n_safety n \<or>
    (\<exists>e. e \<noteq> GOV_EV_DIVERGE \<and> n_safety (note_cause n0 cause ev h now) = gov_safety_step (n_safety n) e now)"
  using assms by (auto simp: note_cause_def Let_def)

lemma system_call_event:
  assumes "node_inv n" and "system_call c" and "f32_in (n_setpoint n) (- 50) 150" and "node_step n c now = Some (n', us)"
  shows "n_safety n' = n_safety n \<or> (\<exists>ev. ev \<noteq> GOV_EV_DIVERGE \<and> n_safety n' = gov_safety_step (n_safety n) ev now)"
proof (cases c)
  case (ControlStep m)
  then have c: "gov_node_control_step n m now = Some (n', hd us)" and m: "f32_in m 0 100" using assms(2,4) by auto
  have "pd_cfg (n_pid n) = PID_CFG" using assms(1) by (simp add: node_inv_def pid_ok_def)
  with in_band_step [OF band_within [OF assms(3) m], of "n_pid n"] control_fields(1) [OF c]
  have "\<not> gov_pid_diverging (n_pid n')" by simp
  with control_step_ok [OF assms(1) percent_mag [OF m], of now] c show ?thesis by auto
next
  case (NoteSensor sf h)
  let ?n0 = "if \<not> h then n\<lparr> n_driver_faults := n_driver_faults n OR sf \<rparr>
    else if gov_safety_actuation_allowed (n_safety n)
    then n\<lparr> n_driver_faults := n_driver_faults n AND NOT GOV_FAULT_SENSOR_ANY_DRIVER \<rparr> else n"
  have "n' = note_cause ?n0 GOV_CAUSE_SENSOR GOV_EV_SENSOR_FAULT h now"
    using NoteSensor assms(4) by (simp add: gov_node_note_sensor_def del: if_split)
  with note_undiverging [of GOV_EV_SENSOR_FAULT ?n0 n] show ?thesis by (simp del: if_split add: if_distrib [of n_safety])
next
  case (NoteLink h)
  then have "n' = note_cause n GOV_CAUSE_LINK GOV_EV_LINK_FAULT h now" using assms(4) by (simp add: gov_node_note_link_def)
  with note_undiverging [of GOV_EV_LINK_FAULT n n] show ?thesis by simp
next
  case (NoteTiming h)
  then have "n' = note_cause n GOV_CAUSE_TIMING GOV_EV_DEADLINE_MISS h now" using assms(4) by (simp add: gov_node_note_timing_def)
  with note_undiverging [of GOV_EV_DEADLINE_MISS n n] show ?thesis by simp
qed (use assms(2,4) in \<open>auto simp: gov_node_post_event_def\<close>)

interpretation undiverging: partial_machine "\<lambda>n (c, now). node_step n c now"
    "\<lambda>e. system_call (fst e) \<and> f32_in sp (- 50) 150" "undiverged sp" "\<lambda>_. True"
  for sp
proof
  fix n :: gov_node and e :: "node_call \<times> u32"
  assume u: "undiverged sp n" and c: "system_call (fst e) \<and> f32_in sp (- 50) 150"
  have i: "node_inv n" "n_setpoint n = sp" using u by (simp_all add: undiverged_def)
  obtain n' us where n': "node_step n (fst e) (snd e) = Some (n', us)" "node_inv n'"
    using node_step_inv [OF i(1) system_call_ok] c by blast
  have "n_setpoint n' = sp" using setpoint_constant [OF n'(1)] i(2) by simp
  with system_call_event [OF i(1) _ _ n'(1)] c i(2) u no_diverge_step n'(2) have "undiverged sp n'"
    by (auto simp: undiverged_def node_inv_def)
  with n'(1) show "\<exists>s' out. (case e of (c, now) \<Rightarrow> node_step n c now) = Some (s', out) \<and> undiverged sp s' \<and> (\<forall>x \<in> set out. True)"
    by (simp add: case_prod_beta)
qed

text \<open>The node after boot.\<close>

lemma boot_undiverged:
  assumes "sys_inv b (pf_i2c pf) (fst (gov_main b pf dev p t0))" and "HAVE_SENSOR b \<longrightarrow> i2c_ready (pf_i2c pf) dev"
  shows "undiverged (fst (boot_setpoint b pf p)) (y_node (fst (gov_main b pf dev p t0)))"
proof -
  obtain sp p' where sp: "boot_setpoint b pf p = (sp, p')" by fastforce
  obtain s2 where s2: "sensor_setup b pf dev (main_init b pf sp t0) = (s2, True)"
    using assms(2) by (cases "HAVE_SENSOR b") (simp_all add: sensor_setup_eq)
  have n: "n_setpoint (y_node s2) = sp" "\<exists>x. n_safety (y_node s2) = gov_safety_init_sticky x"
    using s2 by (auto simp: sensor_setup_eq main_init_simps gov_node_init_def gov_safety_init_def split: if_splits)
  have "\<not> raised GOV_FAULT_DIVERGE (s_faults (gov_safety_init_sticky x))" for x
    using raised_bits_in [of GOV_FAULT_DIVERGE "x AND GOV_FAULT_WATCHDOG" GOV_FAULT_WATCHDOG]
    by (auto simp: gov_safety_init_sticky_def Let_def bits_in_iff bit_simps)
  then have "safety_inv (n_safety (y_node s2))" "\<not> raised GOV_FAULT_DIVERGE (s_faults (n_safety (y_node s2)))"
    using n(2) by (auto simp: safety_inv_init_sticky)
  then have "\<not> raised GOV_FAULT_DIVERGE (s_faults (gov_safety_step (n_safety (y_node s2)) GOV_EV_SELFTEST_OK (y_clock s2)))"
    by (intro no_diverge_step) simp_all
  with assms(1) n(1) show ?thesis
    by (simp add: gov_main_eq [OF sp s2] undiverged_def sp sys_inv_def node_ok_def gov_node_selftest_ok_def)
qed

section \<open>The operator's stop\<close>

lemma operator_stop_stops: "stopped (gov_node_post_event n GOV_EV_OPERATOR_STOP now)"
  unfolding stopped_iff gov_node_post_event_def
  by (cases "s_state (n_safety n)") (auto simp: dispatch_defs Let_def)

end
