(* ===== verification/Gov_Watch.thy ===== *)
theory Gov_Watch
  imports Gov_System
begin

text \<open>
  Time in the application: a thread that stops is noticed by the watchdog, and an expiry of the
  control timer leads to an output, under every schedule.
\<close>

section \<open>A silent subsystem\<close>

text \<open>The milliseconds by which a schedule advances the clock, and the subsystem that a thread reports.\<close>

fun elapsed :: "move list \<Rightarrow> nat" where
  "elapsed [] = 0"
| "elapsed (Clock d # ms) = unat d + elapsed ms"
| "elapsed (_ # ms) = elapsed ms"

fun reports :: "move \<Rightarrow> nat \<Rightarrow> bool" where
  "reports Control i = (i = 0)"
| "reports LinkRx i = (i = 1)"
| "reports Health i = (i = 2)"
| "reports _ i = False"

text \<open>
  The last report is more than 150 ms old and stays so for another \<open>k\<close> milliseconds without
  wrapping around; no decision stamped before is pending.
\<close>

definition overage :: "gov_health \<Rightarrow> nat \<Rightarrow> u32 \<Rightarrow> nat \<Rightarrow> bool" where
  "overage h i t k \<longleftrightarrow> (h_seen h ! i \<longrightarrow> 150 < unat (t - h_last_seen h ! i) \<and> unat (t - h_last_seen h ! i) + k < 2 ^ 32)"

definition silent :: "nat \<Rightarrow> nat \<Rightarrow> 'b sys \<Rightarrow> bool" where
  "silent i k s \<longleftrightarrow> overage (y_health s) i (y_clock s) k \<and> (\<forall>t. y_hlth s = H_Feed t \<longrightarrow> overage (y_health s) i t 0)"

section \<open>What is followed through a schedule\<close>

text \<open>What each thread does to the clock, the health record and the health thread.\<close>

definition health_moves :: "nat \<Rightarrow> 'b sys \<Rightarrow> 'b sys \<Rightarrow> bool" where
  "health_moves j s s' \<longleftrightarrow> y_clock s' = y_clock s \<and> y_hlth s' = y_hlth s \<and>
     (y_health s' = y_health s \<or> (\<exists>met. y_health s' = gov_health_note_deadline (y_health s) met) \<or>
      (\<exists>t. y_health s' = gov_health_note_alive (y_health s) (of_nat j) t))"

definition no_feed :: "sys_out list \<Rightarrow> bool" where
  "no_feed out \<longleftrightarrow> WdtFeed \<notin> set out"

text \<open>How many of its own steps the control thread is away from the next output, given a pending tick.\<close>

fun to_output :: "control_pc \<Rightarrow> nat" where
  "to_output C_Stepped = 6"
| "to_output C_Alive = 5"
| "to_output (C_Note t) = 4"
| "to_output C_Start = 4"
| "to_output C_Wait = 3"
| "to_output C_Sampled = 2"
| "to_output (C_Step t) = 1"

definition pending_tick :: "'b sys \<Rightarrow> bool" where
  "pending_tick s \<longleftrightarrow> y_tick_sem s \<or> y_control s = C_Sampled \<or> (\<exists>t. y_control s = C_Step t)"

definition applies :: "sys_out list \<Rightarrow> bool" where
  "applies out \<longleftrightarrow> list_ex (\<lambda>x. case x of Applied u \<Rightarrow> True | _ \<Rightarrow> False) out"

text \<open>No other move delays the control thread.\<close>

definition control_kept :: "'b sys \<Rightarrow> 'b sys \<Rightarrow> bool" where
  "control_kept s s' \<longleftrightarrow> y_control s' = y_control s \<and> (y_tick_sem s \<longrightarrow> y_tick_sem s')"

section \<open>The watchdog\<close>

lemma overage_later:
  assumes "overage h i t (unat d + k)"
  shows "overage h i (t + d) k"
proof (cases "h_seen h ! i")
  case True
  have "unat (t + d - h_last_seen h ! i) = unat (t - h_last_seen h ! i) + unat d"
    using assms True unat_add_lem [of "t - h_last_seen h ! i" d]
    by (simp add: overage_def diff_add_eq)
  with assms True show ?thesis by (simp add: overage_def)
qed (simp add: overage_def)

lemma overage_no_feed:
  assumes "overage h i t k" and "i < 3"
  shows "\<not> gov_health_feed_watchdog h t (3 * GOV_HEALTH_PERIOD_MS)"
proof -
  have "unat (of_nat i :: u32) = i" using assms(2) by (simp add: unsigned_of_nat take_bit_eq_mod)
  then have "\<not> gov_health_subsys_alive h (of_nat i) t (3 * GOV_HEALTH_PERIOD_MS)"
    using assms by (auto simp: gov_health_subsys_alive_def overage_def GOV_HEALTH_PERIOD_MS_def word_le_nat_alt)
  then show ?thesis
    using assms(2) by (auto simp: gov_health_feed_watchdog_def gov_health_all_alive_def list_all_iff GOV_HEALTH_SUBSYS_COUNT_def)
qed

lemma overage_other:
  "overage (gov_health_note_deadline h met) i t k = overage h i t k"
  "unat sys \<noteq> i \<Longrightarrow> overage (gov_health_note_alive h sys u) i t k = overage h i t k"
  by (simp_all add: overage_def gov_health_note_deadline_def gov_health_note_alive_def)

lemma overage_less: "overage h i t (j + k) \<Longrightarrow> overage h i t k"
  by (auto simp: overage_def)

lemma no_feed_simps [simp]:
  "no_feed []" "no_feed (x # xs) \<longleftrightarrow> x \<noteq> WdtFeed \<and> no_feed xs" "no_feed (xs @ ys) \<longleftrightarrow> no_feed xs \<and> no_feed ys"
  "no_feed (link_wire_out b th wb)" "no_feed (concat (map (link_wire_out b th) ws))"
  by (auto simp: no_feed_def link_wire_out_def split: if_splits)

lemma control_moves: "control_step b s = Some (s', out) \<Longrightarrow> health_moves 0 s s' \<and> no_feed out"
  by (auto simp: control_step_def health_moves_def locked_control_step_def Let_def GOV_HS_CONTROL_def
      split: control_pc.splits if_splits prod.splits option.splits)

lemma rx_receive_moves: "health_moves j s (rx_receive b s)"
  by (simp add: rx_receive_def on_decoded_frame_def health_moves_def Let_def split: list.split prod.split option.split)

lemma rx_poll_moves: "rx_poll s = Some s' \<Longrightarrow> health_moves j s s'"
  by (auto simp: rx_poll_def health_moves_def Let_def split: option.splits prod.splits)

lemma link_rx_moves: "link_rx_step b s = Some (s', out) \<Longrightarrow> health_moves 1 s s' \<and> no_feed out"
  by (cases "y_rx s")
    (auto simp: link_rx_step_def rx_receive_moves locked_post_event_def locked_note_sensor_def Let_def GOV_HS_LINK_def
      intro: rx_poll_moves split: list.splits if_splits prod.splits | simp add: health_moves_def, blast?)+

lemma link_tx_moves: "link_tx_step b s = Some (s', out) \<Longrightarrow> health_moves j s s' \<and> no_feed out"
  by (auto simp: link_tx_step_def health_moves_def locked_note_link_def Let_def
      split: tx_pc.splits poll_pc.splits if_splits prod.splits option.splits)

lemma telemetry_moves: "telemetry_step b s = Some (s', out) \<Longrightarrow> health_moves j s s' \<and> no_feed out"
  by (auto simp: telemetry_step_def telemetry_push_def health_moves_def Let_def
      split: telem_pc.splits send_pc.splits if_splits prod.splits option.splits)

lemma silent_keep:
  assumes "silent i k s" and "health_moves j s s'" and "i \<noteq> j" and "j < 3"
  shows "silent i k s'"
proof -
  have "unat (of_nat j :: u32) = j" using assms(4) by (simp add: unsigned_of_nat take_bit_eq_mod)
  with assms show ?thesis by (auto simp: silent_def health_moves_def overage_other)
qed

lemma health_silent:
  assumes "silent i k s" and "i < 2" and "health_thread_step b s = Some (s', out)"
  shows "silent i k s' \<and> no_feed out"
proof (cases "y_hlth s")
  case (H_Feed t)
  then have "overage (y_health s) i t 0" using assms(1) by (simp add: silent_def)
  then have "\<not> gov_health_feed_watchdog (y_health s) t (3 * GOV_HEALTH_PERIOD_MS)" by (rule overage_no_feed) (use assms(2) in linarith)
  then show ?thesis using assms(1,3) H_Feed by (auto simp: health_thread_step_def silent_def)
next
  case H_FeedStamp
  then show ?thesis using assms(1,3) overage_less [of _ i _ k 0] by (auto simp: health_thread_step_def silent_def)
qed (use assms in \<open>auto simp: health_thread_step_def silent_def overage_other locked_note_timing_def GOV_HS_SENSOR_def\<close>)

lemma silent_step:
  assumes "silent i (elapsed [m] + k) s" and "i < 2" and "\<not> reports m i" and "sys_step b s m = Some (s', out)"
  shows "silent i k s' \<and> no_feed out"
proof (cases m)
  case Control
  with assms control_moves [of b s s' out] silent_keep [of i k s 0 s'] show ?thesis by (simp add: sys_step_simps)
next
  case LinkRx
  with assms link_rx_moves [of b s s' out] silent_keep [of i k s 1 s'] show ?thesis by (simp add: sys_step_simps)
next
  case LinkTx
  with assms link_tx_moves [of b s s' out 2] silent_keep [of i k s 2 s'] show ?thesis by (simp add: sys_step_simps)
next
  case Telemetry
  with assms telemetry_moves [of b s s' out 2] silent_keep [of i k s 2 s'] show ?thesis by (simp add: sys_step_simps)
next
  case Health
  with assms health_silent [of i k s b s' out] show ?thesis by (simp add: sys_step_simps)
next
  case Timer
  with assms show ?thesis by (auto simp: sys_step_def control_timer_fn_def silent_def split: if_splits)
next
  case (Clock d)
  with assms overage_later [of "y_health s" i "y_clock s" d k] show ?thesis by (auto simp: sys_step_def silent_def)
next
  case (Uart bs)
  with assms show ?thesis by (auto simp: sys_step_def link_uart_isr_def silent_def split: if_splits)
qed

lemma elapsed_Cons: "elapsed (m # ms) = elapsed [m] + elapsed ms"
  by (cases m) simp_all

lemma silent_run:
  assumes "silent i (elapsed ms) s" and "i < 2" and "list_all (\<lambda>m. \<not> reports m i) ms"
    and "run_opt (sys_step b) s ms = Some (s', out)"
  shows "no_feed out"
  using assms
proof (induction ms arbitrary: s out)
  case Nil
  then show ?case by simp
next
  case (Cons m ms)
  obtain s1 o1 o2 where 1: "sys_step b s m = Some (s1, o1)" "run_opt (sys_step b) s1 ms = Some (s', o2)" "out = o1 @ o2"
    using Cons.prems(4) by (auto split: option.splits)
  have "silent i (elapsed [m] + elapsed ms) s" using Cons.prems(1) by (simp only: elapsed_Cons [of m ms])
  from silent_step [OF this Cons.prems(2) _ 1(1)] Cons.prems(3) have "silent i (elapsed ms) s1" "no_feed o1" by simp_all
  with Cons.IH [OF _ Cons.prems(2) _ 1(2)] Cons.prems(3) 1(3) show ?case by simp
qed

section \<open>The control thread\<close>

lemma applies_append [simp]: "applies (xs @ ys) \<longleftrightarrow> applies xs \<or> applies ys" and applies_Nil [simp]: "\<not> applies []"
  by (simp_all add: applies_def)

lemma control_advances:
  assumes "pending_tick s" and "control_step b s = Some (s', out)"
  shows "applies out \<or> pending_tick s' \<and> Suc (to_output (y_control s')) = to_output (y_control s)"
  using assms by (cases "y_control s")
    (auto simp: control_step_def pending_tick_def applies_def Let_def split: prod.splits if_splits)

lemma rx_keeps_control: "control_kept s (rx_receive b s)" "rx_poll s = Some s' \<Longrightarrow> control_kept s s'"
  by (auto simp: rx_receive_def rx_poll_def on_decoded_frame_def control_kept_def Let_def
      split: list.split prod.splits option.splits)

lemma others_keep_control:
  assumes "m \<noteq> Control" and "sys_step b s m = Some (s', out)"
  shows "control_kept s s'"
proof (cases m)
  case LinkRx
  with assms show ?thesis
    by (cases "y_rx s") (auto simp: sys_step_simps link_rx_step_def rx_keeps_control locked_post_event_def locked_note_sensor_def
        Let_def intro: rx_keeps_control(2) split: list.splits if_splits prod.splits | simp add: control_kept_def)+
next
  case LinkTx
  with assms show ?thesis
    by (auto simp: sys_step_simps link_tx_step_def control_kept_def locked_note_link_def Let_def
        split: tx_pc.splits poll_pc.splits if_splits prod.splits option.splits)
next
  case Telemetry
  with assms show ?thesis
    by (auto simp: sys_step_simps telemetry_step_def telemetry_push_def control_kept_def Let_def
        split: telem_pc.splits send_pc.splits if_splits prod.splits option.splits)
next
  case Health
  with assms show ?thesis
    by (auto simp: sys_step_simps health_thread_step_def control_kept_def locked_note_timing_def split: health_pc.splits)
qed (use assms in \<open>auto simp: sys_step_def control_timer_fn_def link_uart_isr_def control_kept_def\<close>)

lemma control_progresses:
  assumes "pending_tick s" and "to_output (y_control s) \<le> count_list ms Control" and "run_opt (sys_step b) s ms = Some (s', out)"
  shows "applies out"
  using assms
proof (induction ms arbitrary: s out)
  case Nil
  then show ?case by (cases "y_control s") simp_all
next
  case (Cons m ms)
  obtain s1 o1 o2 where 1: "sys_step b s m = Some (s1, o1)" "run_opt (sys_step b) s1 ms = Some (s', o2)" "out = o1 @ o2"
    using Cons.prems(3) by (auto split: option.splits)
  show ?case
  proof (cases "m = Control")
    case True
    with control_advances [OF Cons.prems(1), of b s1 o1] 1(1) consider "applies o1"
      | "pending_tick s1" "Suc (to_output (y_control s1)) = to_output (y_control s)" by (auto simp: sys_step_simps)
    then show ?thesis using Cons.IH [OF _ _ 1(2)] Cons.prems(2) True 1(3) by cases simp_all
  next
    case False
    from others_keep_control [OF this 1(1)] Cons.prems(1) have "pending_tick s1" "y_control s1 = y_control s"
      by (auto simp: control_kept_def pending_tick_def)
    with Cons.IH [OF _ _ 1(2)] Cons.prems(2) False 1(3) show ?thesis by simp
  qed
qed

end
