(* ===== verification/Spec2Isabelle.thy ===== *)
theory Spec2Isabelle
  imports Gov_Fuzz Gov_Duplex Gov_Watch
begin

text \<open>
  Verification of the governor firmware: a control node that samples a sensor over I2C, runs a PID
  loop at 100 Hz, passes the output through a safety state machine, and reports telemetry to a
  ground station over a framed, acknowledged serial link.

  \<^bold>\<open>The program and how its parts interact.\<close> Five threads of \<^verbatim>\<open>src/main.c\<close> share one node. The link
  thread decodes received bytes (\<^verbatim>\<open>lib/proto/frame.c\<close>), hands frames to the deduplicating receiver or
  acknowledgements to the sender (\<^verbatim>\<open>lib/proto/reliable.c\<close>), turns operator commands into events and
  polls the sensor (\<^verbatim>\<open>drivers/sensor.c\<close>), whose samples reach the control thread through a one-slot
  mailbox. The control thread runs one step of the node (\<^verbatim>\<open>app/node_core.c\<close>): controller
  (\<^verbatim>\<open>lib/control/pid.c\<close>), state machine (\<^verbatim>\<open>lib/safety/safety.c\<close>), plant (\<^verbatim>\<open>lib/control/plant.c\<close>). The
  telemetry thread sends a snapshot through the ring (\<^verbatim>\<open>lib/telem/ring.c\<close>) and the payload encoder
  (\<^verbatim>\<open>lib/telem/telem.c\<close>) to the sender; the sender's thread retransmits and reports the health of the
  link; the health thread (\<^verbatim>\<open>lib/telem/health.c\<close>) feeds the watchdog. At boot the setpoint comes from
  two checksummed configuration slots (\<^verbatim>\<open>lib/config/config.c\<close>) kept by the settings adapter
  (\<^verbatim>\<open>app/persist.c\<close>). At the other end of the link the ground station's endpoint
  (\<^verbatim>\<open>host/governor_gs/protocol.py\<close>) queues commands, retransmits, acknowledges and delivers.

  \<^bold>\<open>Theories.\<close> A struct is a record with the fields of the source, an enumeration a datatype, a C
  integer a word of its width, an object pointer an option; each function of the source has a
  definition of the same name, the guards against null pointers one with the suffix \<open>_ptr\<close>.
  A callback (delivery of a frame, bytes for the wire) is an output of the operation that makes it.
    \<^item> \<open>Gov_Prelude\<close>: types, null-pointer combinators, runs of a step function over events, and the
      interfaces \<open>machine\<close> and \<open>partial_machine\<close> (a step that keeps an invariant; a step that may
      be undefined and is defined on the invariant), which the components interpret.
    \<^item> \<open>Gov_Faults\<close>: the fault mask of \<^verbatim>\<open>lib/common/gov_faults.h\<close>.
    \<^item> \<open>Gov_Safety\<close>: state machine, timers and output clamp; the design's transition table T1 to T12
      as an inductive relation. The step implements the table in both directions; the reachable
      states are explained by their flags; SAFE\_STOP and FAULT\_HALT latch; degraded operation is
      bounded; recovery waits out its dwell; a stamp that goes back halts.
    \<^item> \<open>Gov_Crc\<close>, \<open>Gov_Frame\<close>: checksum, encoder, byte-at-a-time decoder. Error detection of the
      checksum by linearity; the decoder against a specification that judges whole frames; round
      trip, buffer bounds, resynchronisation, and what it does not recover from.
    \<^item> \<open>Gov_Fuzz\<close>: the fuzz target \<^verbatim>\<open>fuzz/fuzz_frame.c\<close>, which returns on every input.
    \<^item> \<open>Gov_Reliable\<close>, \<open>Gov_Arq\<close>: sender and receiver, and both together over channels that lose,
      repeat and corrupt: exactly-once delivery, at most once across cleared link faults, progress.
    \<^item> \<open>Gov_Ground\<close>: the ground station's codec, endpoint and capture in Python, with integers without
      bounds and exceptions as values. Its decoder is refined to the same specification as the
      firmware's, so both agree on every stream; its encoder writes the same bytes; its codec is
      another instance of \<open>framing\<close>.
    \<^item> \<open>Gov_Duplex\<close>: the ground station's endpoint and the firmware's link, in both directions at once
      over lossy channels. Each direction is simulated by a link of \<open>Gov_Arq\<close>: commands and telemetry
      arrive in order and at most once, and all of them while no link fault is given up on.
    \<^item> \<open>Gov_Sender\<close>: the operations of the sender as single statements, each byte on the wire one of
      them. Run through, they are the operations; interleaved, what each thread may still rely on.
    \<^item> \<open>Gov_Telem\<close>, \<open>Gov_Ring\<close>, \<open>Gov_Health\<close>: payload codecs, the ring as a bounded queue and its
      single memory accesses interleaved, the watchdog decision as a function of the history.
    \<^item> \<open>Gov_Config\<close>, \<open>Gov_Persist\<close>: slots as bytes with checksum and sequence number, load and save
      over any medium, interrupted writes, and the settings adapter as one such medium.
    \<^item> \<open>Gov_Sensor\<close>: polling with retries, fault detection as a function of the history of reads, the
      mailbox, and the I2C binding \<^verbatim>\<open>drivers/hal_zephyr.c\<close>.
    \<^item> \<open>Gov_Float\<close>, \<open>Gov_Control\<close>: binary32 arithmetic, controller and plant; the divergence report
      against its specification on the whole history.
    \<^item> \<open>Gov_Node\<close>: the coordinator. Every sequence of calls is defined and keeps the invariant,
      outputs are whole percentages within what the state permits, reports of faults are never lost.
    \<^item> \<open>Gov_Runtime\<close>: the node over time. Without a fault it keeps running, a fault that heals leads
      back to RUN, a fault that persists ends in a latched stop.
    \<^item> \<open>Gov_Main\<close>: boot, threads, timer and link interrupt over one shared state, under any schedule.
    \<^item> \<open>Gov_System\<close>: runs of the threads: an iteration of the receiving thread, a frame that arrives, a
      send without interruption; and every schedule as a sequence of calls on the node.
    \<^item> \<open>Gov_Watch\<close>: what holds along every schedule about time: a silent thread starves the watchdog,
      and a tick of the control timer leads to an output.
    \<^item> This theory: the properties of the whole system: every schedule is safe and is a sequence of
      calls on the node, an operator stop given at the ground stops it, telemetry is delivered at
      the ground, the watchdog starves and the control loop advances under every schedule,
      divergence is out of reach, and three ways in which the system fails.

  \<^bold>\<open>Interfaces.\<close> \<open>checksum\<close> (what the configuration and the frames use of the CRC), \<open>framing\<close> (what
  the link uses of the codec), \<open>codec\<close>, \<open>bounded_queue\<close>, \<open>slot_store\<close> (what the configuration needs of
  its medium), \<open>actuation_authority\<close>, \<open>timed_invariant\<close> (what calls with current stamps keep) and the two
  machines are locales, each interpreted on the
  definitions that model the code.

  \<^bold>\<open>Undefined behaviour, loops and bounds.\<close> Where C leaves the behaviour undefined (a conversion of
  a float out of range, a call through a null pointer) an operation of the node and a step of the
  system is \<open>None\<close>, and \<open>run_opt\<close> stops there; so a run that is \<open>Some\<close> met none. The retry loop of the
  sensor counts in eight bits and need not end; it is a partial function, \<open>None\<close> when it does not
  return, and returns for every limit below 255. Everything else is total, and no fuel is used. A
  Python exception is a value returned beside the object as it was left. A
  float is NaN, an infinity or an exact rational; every operation rounds to 24 bits, ties to even;
  the two zeros are one value, which no operation of the code tells apart.

  \<^bold>\<open>Schedules.\<close> A step of a thread ends before its next access to a shared object, time stamps
  are read one step before they are used, and any thread may run next; priorities are ignored, so
  the safety properties hold a fortiori under them. The link sender, which the code does not lock,
  is interleaved statement by statement and the UART byte by byte; calls on the health record, not
  locked either, are taken as atomic; the accesses to the ring, lock-free by design, are
  interleaved in \<open>Gov_Ring\<close>. A property that some
  frame arrives or leaves names the schedule: a number of steps of one thread.

  \<^bold>\<open>Parameters.\<close> The I2C driver, the settings subsystem, watchdog, reset cause and UART of Zephyr
  are fields of \<open>i2c_api\<close>, \<open>settings_api\<close> and \<open>platform\<close>; what a board provides is the record \<open>build\<close>.

  \<^bold>\<open>Not modelled.\<close> Log lines other than the timing trace and the status line of \<^verbatim>\<open>src/main.c\<close>; sleeps
  and priorities; worst-case timing and stack use; the tests; of the ground station the scenario
  runner (a test harness over sockets and the emulator), the plant simulator (a copy in double
  precision, used as a reference in tests) and the JSON dump of captured records; the board and
  emulation files. Calls on the health record are atomic; liveness under the priorities and the
  closed loop of sensor, controller and plant over time are not stated.
\<close>

section \<open>Properties that span components\<close>

text \<open>
  C1. Every schedule: from a boot with a setpoint that fits and, on boards with the sensor, a
  ready I2C controller, whatever order the threads, the timer, the clock and the link interrupt
  run in, whatever bytes arrive and whatever the sensor answers, no step is undefined and every
  poll returns, every output applied to the actuator is a whole number from 0 to 100, every byte
  written to the link is read within the buffer that its thread is writing, which for
  acknowledgements and new frames is one complete frame, the status line names one of the five
  states, and the invariant of the system holds: indices stay within the decoder's buffer, the
  ring, the health record and the byte queue keep their bounds, and the states of node, sender and
  sensor are explained.
\<close>

theorem system_safe:
  assumes "below_2_31 (fst (boot_setpoint b pf p))" and "HAVE_SENSOR b \<longrightarrow> i2c_ready (pf_i2c pf) dev"
  shows "\<exists>s' out. run_opt (sys_step b) (fst (gov_main b pf dev p t0)) ms = Some (s', out) \<and>
    sys_inv b (pf_i2c pf) s' \<and> (\<forall>x \<in> set out. out_ok x)"
proof -
  have "sys_inv b (pf_i2c pf) (fst (gov_main b pf dev p t0))" using gov_main_ok [OF assms(1)] assms(2) by blast
  from system.run_defined [OF this] show ?thesis by simp
qed

text \<open>A board with the sensor and without persistence; its sensor fails every read.\<close>

definition demo_build :: build where
  "demo_build = \<lparr> HAVE_LINK_UART = True, HAVE_WDT = False, HAVE_SENSOR = True, CONFIG_HWINFO = False,
     CONFIG_SETTINGS = False, CONFIG_GOV_TIMING_TRACE = False \<rparr>"

definition demo_i2c :: "bool \<Rightarrow> unit i2c_api" where
  "demo_i2c ready = \<lparr> i2c_ready = (\<lambda>dev. ready), i2c_burst_read = (\<lambda>dev addr reg len. (dev, - 1, [])),
     i2c_burst_write = (\<lambda>dev addr reg buf. (dev, - 1)), i2c_write = (\<lambda>dev buf addr. (dev, - 1)) \<rparr>"

definition demo_settings :: "unit settings_api" where
  "demo_settings = \<lparr> sa_subsys_init = (\<lambda>_. 0), sa_load = (\<lambda>_. 0), sa_entries = (\<lambda>_. []),
     sa_name_steq = (\<lambda>x y. (x = y, None)), sa_save_one = (\<lambda>n key bs. (n, 0)) \<rparr>"

definition demo_platform :: "bool \<Rightarrow> (unit, unit) platform" where
  "demo_platform ready = \<lparr> pf_i2c = demo_i2c ready, pf_sensor_bus = zbus (demo_i2c ready), pf_settings = demo_settings,
     pf_reset_cause = (0, 0), pf_RESET_WATCHDOG = 16, pf_wdt_ready = False, pf_wdt_install = 0, pf_uart_ready = True \<rparr>"

definition demo_persist :: "unit persist" where
  "demo_persist = \<lparr> p_slot = (\<lambda>_. zero_slot), p_present = (\<lambda>_. False), p_nvs = () \<rparr>"

definition demo_boot :: "bool \<Rightarrow> unit sys" where
  "demo_boot ready = fst (gov_main demo_build (demo_platform ready) () demo_persist 5)"

lemma demo_setpoint: "boot_setpoint demo_build (demo_platform ready) demo_persist = (Fin 50, demo_persist)"
proof -
  have "f32_lit 50 1 = Fin 50" by (simp add: f32_eval)
  then show ?thesis by (simp add: boot_setpoint_def demo_build_def)
qed

lemma demo_ready: "i2c_ready (pf_i2c (demo_platform ready)) dev = ready"
  by (simp add: demo_platform_def demo_i2c_def)

theorem system_safe_witness:
  "\<exists>s' out. run_opt (sys_step demo_build) (fst (gov_main demo_build (demo_platform True) () demo_persist 5))
      [LinkRx, LinkRx, Timer, Control, Uart [0x7E], Control, Clock 10, Control, Telemetry, Telemetry, LinkTx, Health] =
        Some (s', out) \<and> (\<forall>x \<in> set out. out_ok x)"
  using system_safe [of demo_build "demo_platform True" demo_persist "()" 5
      "[LinkRx, LinkRx, Timer, Control, Uart [0x7E], Control, Clock 10, Control, Telemetry, Telemetry, LinkTx, Health]"]
  by (auto simp: demo_setpoint demo_ready below_2_31_def)

text \<open>
  C40. When the I2C controller is not ready at boot, the node latches SAFE\_STOP as designed, but
  the threads start all the same, and the first poll of the link thread calls through the bus
  pointer that the failed setup left null.
\<close>

theorem sensor_setup_failure_crashes:
  assumes "HAVE_SENSOR b" and "\<not> i2c_ready (pf_i2c pf) dev"
  shows "gov_node_state (y_node (fst (gov_main b pf dev p t0))) = GOV_ST_SAFE_STOP \<and>
    run_opt (sys_step b) (fst (gov_main b pf dev p t0)) [LinkRx, LinkRx] = None"
proof -
  obtain sp p' where sp: "boot_setpoint b pf p = (sp, p')" by fastforce
  have "sensor_setup b pf dev (main_init b pf sp t0) = (main_init b pf sp t0, False)"
    using assms by (simp add: sensor_setup_eq)
  then obtain s where m: "fst (gov_main b pf dev p t0) = s"
    and s: "y_bus s = None" "y_byteq s = []" "y_rx s = X_Get"
      "y_node s = gov_node_post_event (y_node (main_init b pf sp t0)) GOV_EV_SELFTEST_FAIL t0"
    by (auto simp: gov_main_def sp watchdog_setup_def locked_post_event_def main_init_def Let_def)
  have "gov_node_state (y_node s) = GOV_ST_SAFE_STOP"
    unfolding s(4)
    by (auto simp: main_init_simps gov_node_init_def gov_node_post_event_def gov_node_state_def gov_safety_state_def
        gov_safety_init_def gov_safety_init_sticky_def dispatch_defs Let_def)
  moreover have "run_opt (sys_step b) s [LinkRx, LinkRx] = None"
    using s(1-3) assms(1) by (simp add: sys_step_def link_rx_step_def rx_receive_def rx_next_def rx_poll_def)
  ultimately show ?thesis by (simp add: m)
qed

theorem sensor_setup_failure_crashes_witness:
  "gov_node_state (y_node (demo_boot False)) = GOV_ST_SAFE_STOP \<and>
   run_opt (sys_step demo_build) (demo_boot False) [LinkRx, LinkRx] = None"
  unfolding demo_boot_def
  by (rule sensor_setup_failure_crashes) (simp add: demo_build_def, simp add: demo_ready)

text \<open>
  C39. The time stamp of a report is read before the lock is taken. In RUN, with the link thread
  about to report a sensor fault it stamped at \<open>t\<close> and the control thread about to take its step
  stamped later: if the report comes first the node degrades, as designed; if the control step
  comes first the report is older than the state machine, which takes it for time going backwards
  and latches FAULT\_HALT.
\<close>

theorem stale_report_halts:
  assumes "sys_inv b api s" and "y_rx s = X_Note fl False t" and "y_control s = C_Step t'"
    and "s_now_ms (n_safety (y_node s)) \<le> t" and "t < t'" and "gov_node_state (y_node s) = GOV_ST_RUN"
  shows "\<exists>s1 out1 s2 out2. run_opt (sys_step b) s [LinkRx] = Some (s1, out1) \<and>
    gov_node_state (y_node s1) = GOV_ST_DEGRADED \<and>
    run_opt (sys_step b) s [Control, LinkRx] = Some (s2, out2) \<and>
    gov_node_state (y_node s2) = GOV_ST_FAULT_HALT"
proof -
  have n: "node_ok (y_node s)" and m: "f32_in (y_measurement s) 0 100" using assms(1) by (auto simp: sys_inv_def)
  have "s_now_ms (n_safety (y_node s)) \<le> t'" using assms(4,5) by simp
  from control_now [OF n m this] obtain n' u where
    c: "gov_node_control_step (y_node s) (y_measurement s) t' = Some (n', u)" "s_now_ms (n_safety n') = t'"
    by blast
  have "gov_node_state (gov_node_note_sensor n' fl False t) = GOV_ST_FAULT_HALT"
    by (rule note_sensor_stale) (simp add: c(2) assms(5))
  moreover have "gov_node_state (gov_node_note_sensor (y_node s) fl False t) = GOV_ST_DEGRADED"
    using n assms(4,6) by (intro note_sensor_first) (simp_all add: node_ok_def)
  ultimately show ?thesis
    using assms(2,3) c(1)
    by (simp add: sys_step_def link_rx_step_def control_step_def locked_note_sensor_def locked_control_step_def)
qed

text \<open>The schedule that leads there from a boot with a failing sensor.\<close>

definition demo_moves :: "move list" where
  "demo_moves = [Control, LinkRx, LinkRx, LinkRx, Clock 10, Timer, Control, Control]"

lemma demo_poll:
  "gov_sensor_poll (zbus (demo_i2c True)) (gov_sensor_init SENSOR_CFG) None (Some ()) =
     Some ((gov_sensor_init SENSOR_CFG)\<lparr> sn_flags := GOV_SFLAG_BUS_ERR \<rparr>, None, Some (), GOV_SENSOR_FAULTED)"
  by (simp add: gov_sensor_poll_def read_with_retry_def read_loop.simps [of _ _ 0] zbus_def zbus_read_def demo_i2c_def
      map_status_def on_status_def gov_sensor_health_of_def gov_sensor_init_def Let_def gov_defs)

lemma demo_boot_simps:
  "y_rx (demo_boot True) = X_Get" "y_byteq (demo_boot True) = []" "y_bus (demo_boot True) = Some (zbus (demo_i2c True))"
  "y_sensor (demo_boot True) = gov_sensor_init SENSOR_CFG" "y_dev (demo_boot True) = Some ()"
  "y_clock (demo_boot True) = 5" "y_control (demo_boot True) = C_Start" "y_slot (demo_boot True) = gov_slot_init"
  "y_node (demo_boot True) = gov_node_selftest_ok (gov_node_init zero_node (Fin 50)) 5"
  "y_telem (demo_boot True) = M_Fill" "y_link_tx (demo_boot True) = gov_tx_init True"
  "y_link_rx (demo_boot True) = gov_rx_init True True" "y_decoder (demo_boot True) = gov_decoder_init True" "y_uart_irq (demo_boot True)"
proof -
  have "sensor_setup demo_build (demo_platform True) () (main_init demo_build (demo_platform True) (Fin 50) 5) =
      ((main_init demo_build (demo_platform True) (Fin 50) 5)\<lparr> y_bus := Some (zbus (demo_i2c True)), y_dev := Some (),
         y_sensor := gov_sensor_init SENSOR_CFG \<rparr>, True)"
    by (simp add: sensor_setup_eq demo_ready) (simp add: demo_build_def demo_platform_def)
  note e = gov_main_eq [OF demo_setpoint this, folded demo_boot_def]
  show "y_rx (demo_boot True) = X_Get" "y_byteq (demo_boot True) = []" "y_bus (demo_boot True) = Some (zbus (demo_i2c True))"
    "y_sensor (demo_boot True) = gov_sensor_init SENSOR_CFG" "y_dev (demo_boot True) = Some ()"
    "y_clock (demo_boot True) = 5" "y_control (demo_boot True) = C_Start" "y_slot (demo_boot True) = gov_slot_init"
    "y_node (demo_boot True) = gov_node_selftest_ok (gov_node_init zero_node (Fin 50)) 5"
    "y_telem (demo_boot True) = M_Fill" "y_link_tx (demo_boot True) = gov_tx_init True"
    "y_link_rx (demo_boot True) = gov_rx_init True True" "y_decoder (demo_boot True) = gov_decoder_init True" "y_uart_irq (demo_boot True)"
    unfolding e by (simp_all add: main_init_def was_watchdog_reset_def demo_build_def demo_platform_def)
qed

lemma demo_moves_run:
  "\<exists>s. run_opt (sys_step demo_build) (demo_boot True) demo_moves = Some (s, []) \<and>
    y_rx s = X_Note GOV_SFLAG_BUS_ERR False 5 \<and> y_control s = C_Step 15 \<and> y_node s = y_node (demo_boot True)"
  by (simp add: demo_moves_def sys_step_def link_rx_step_def rx_receive_def rx_next_def rx_poll_def demo_poll control_step_def
      control_timer_fn_def gov_slot_get_def demo_boot_simps gov_sensor_health_of_def gov_sensor_faults_def Let_def)
    (simp add: demo_build_def gov_defs gov_slot_init_def)

lemma demo_inv: "sys_inv demo_build (pf_i2c (demo_platform True)) (demo_boot True)"
  unfolding demo_boot_def by (rule gov_main_ok) (simp_all add: demo_setpoint demo_ready below_2_31_def)

theorem stale_report_halts_witness:
  "\<exists>s out s1 out1 s2 out2. run_opt (sys_step demo_build) (demo_boot True) demo_moves = Some (s, out) \<and>
    run_opt (sys_step demo_build) s [LinkRx] = Some (s1, out1) \<and> gov_node_state (y_node s1) = GOV_ST_DEGRADED \<and>
    run_opt (sys_step demo_build) s [Control, LinkRx] = Some (s2, out2) \<and>
    gov_node_state (y_node s2) = GOV_ST_FAULT_HALT"
proof -
  obtain s where s: "run_opt (sys_step demo_build) (demo_boot True) demo_moves = Some (s, [])"
    "y_rx s = X_Note GOV_SFLAG_BUS_ERR False 5" "y_control s = C_Step 15" "y_node s = y_node (demo_boot True)"
    using demo_moves_run by blast
  from system.run_defined [OF demo_inv, of demo_moves] s(1) have "sys_inv demo_build (pf_i2c (demo_platform True)) s" by simp
  moreover have "s_now_ms (n_safety (y_node s)) = 5" "gov_node_state (y_node s) = GOV_ST_RUN"
    by (simp_all add: s(4) demo_boot_simps gov_node_selftest_ok_def gov_node_init_def gov_node_state_def
        gov_safety_state_def gov_safety_init_def gov_safety_init_sticky_def dispatch_defs Let_def)
  ultimately show ?thesis using stale_report_halts [OF _ s(2,3)] s(1) by fastforce
qed

lemma demo_listening: "listening (demo_boot True)" "HAVE_LINK_UART demo_build" "tx_state (y_link_tx (demo_boot True)) = GOV_TX_IDLE"
  "dec_ready (gov_decoder_init True)"
proof -
  show r: "dec_ready (gov_decoder_init True)" by code_simp
  then show "listening (demo_boot True)" by (simp add: listening_def demo_boot_simps)
  show "HAVE_LINK_UART demo_build" "tx_state (y_link_tx (demo_boot True)) = GOV_TX_IDLE"
    by (simp_all add: demo_build_def demo_boot_simps gov_tx_init_def)
qed

text \<open>One iteration of the telemetry thread and the acknowledgement of what it wrote.\<close>

lemma telemetry_exchange:
  assumes "sys_inv b api s" and "HAVE_LINK_UART b" and "y_telem s = M_Fill"
    and "tx_state (y_link_tx s) = GOV_TX_IDLE" and "listening s"
  shows "\<exists>rec k s' out j s''. gov_node_fill_telemetry (y_node s) = Some rec \<and>
    run_opt (sys_step b) s (replicate k Telemetry) = Some (s', out) \<and>
    uart_bytes out = frame_bytes (telem_frame (y_link_tx s) rec) \<and> tx_state (y_link_tx s') = GOV_TX_WAIT_ACK \<and>
    run_opt (sys_step b) s' (Uart (frame_bytes (ack_frame (tx_next_seq (y_link_tx s)))) # replicate j LinkRx) = Some (s'', []) \<and>
    tx_state (y_link_tx s'') = GOV_TX_IDLE"
proof -
  obtain rec k r tx where 1: "gov_node_fill_telemetry (y_node s) = Some rec"
    "run_opt (sys_step b) s (replicate k Telemetry) = Some (s\<lparr> y_ring := r, y_link_tx := tx,
       y_telem := M_Send rec (S_Bytes 0 (length (frame_bytes (telem_frame (y_link_tx s) rec)))) \<rparr>, [])"
    "take (length (frame_bytes (telem_frame (y_link_tx s) rec))) (tx_frame tx) = frame_bytes (telem_frame (y_link_tx s) rec)"
    "length (frame_bytes (telem_frame (y_link_tx s) rec)) \<le> length (tx_frame tx)" "tx_state tx = GOV_TX_WAIT_ACK"
    "tx_cur_seq tx = tx_next_seq (y_link_tx s)"
    using telemetry_begins [OF assms(1-4)] by blast
  let ?f = "telem_frame (y_link_tx s) rec"
  let ?s1 = "s\<lparr> y_ring := r, y_link_tx := tx, y_telem := M_Send rec (S_Bytes 0 (length (frame_bytes ?f))) \<rparr>"
  let ?s' = "?s1\<lparr> y_telem := M_Send rec (S_Bytes (length (frame_bytes ?f)) (length (frame_bytes ?f))) \<rparr>"
  obtain k2 out where 2: "run_opt (sys_step b) ?s1 (replicate k2 Telemetry) = Some (?s', out)" "uart_bytes out = frame_bytes ?f"
    using telemetry_continues [OF assms(2), of ?s1 rec 0 "frame_bytes ?f" "length (frame_bytes ?f)"] 1(3,4) by auto
  have run: "run_opt (sys_step b) s (replicate (k + k2) Telemetry) = Some (?s', out)" using replicate_run [OF 1(2) 2(1)] by simp
  have "sys_inv b api ?s'" using system.run_defined [OF assms(1), of "replicate (k + k2) Telemetry"] run by simp
  moreover have "listening ?s'" using assms(5) by (simp add: listening_def)
  ultimately obtain j s'' where 3: "run_opt (sys_step b) ?s' (Uart (frame_bytes (ack_frame (f_seq ?f))) # replicate j LinkRx) = Some (s'', [])"
    "tx_state (y_link_tx s'') = GOV_TX_IDLE"
    using ack_arrives [of b api ?s'] 1(5,6) by (auto simp: telem_frame_def simp del: run_opt.simps)
  have "tx_state (y_link_tx ?s') = GOV_TX_WAIT_ACK" using 1(5) by simp
  moreover have "f_seq ?f = tx_next_seq (y_link_tx s)" by (simp add: telem_frame_def)
  ultimately show ?thesis using 1(1) run 2(2) 3 by metis
qed

text \<open>
  The telemetry thread on a board with a link, from any state of the invariant with the sender
  idle: run without interruption, it writes bytes that make a receiver that is between frames
  deliver exactly one DATA frame under the sender's next sequence number, whose payload decodes to
  the snapshot of the node taken at the start of the iteration. When the bytes of the
  acknowledgement of that frame then arrive, the receiving thread makes the sender idle again.
\<close>

theorem telemetry_reaches_ground:
  assumes "sys_inv b api s" and "HAVE_LINK_UART b" and "y_telem s = M_Fill"
    and "tx_state (y_link_tx s) = GOV_TX_IDLE" and "listening s" and "dec_ready d"
  shows "\<exists>rec k s' out f j s''. gov_node_fill_telemetry (y_node s) = Some rec \<and>
    run_opt (sys_step b) s (replicate k Telemetry) = Some (s', out) \<and>
    snd (run gov_decoder_push d (uart_bytes out)) = [f] \<and> f_type f = GOV_TYPE_DATA \<and> f_seq f = tx_next_seq (y_link_tx s) \<and>
    telem_parse (f_payload f) = Some rec \<and> tx_state (y_link_tx s') = GOV_TX_WAIT_ACK \<and>
    run_opt (sys_step b) s' (Uart (frame_bytes (ack_frame (f_seq f))) # replicate j LinkRx) = Some (s'', []) \<and>
    tx_state (y_link_tx s'') = GOV_TX_IDLE"
proof -
  obtain rec k s' out j s'' where r: "gov_node_fill_telemetry (y_node s) = Some rec"
    "run_opt (sys_step b) s (replicate k Telemetry) = Some (s', out)" "uart_bytes out = frame_bytes (telem_frame (y_link_tx s) rec)"
    "tx_state (y_link_tx s') = GOV_TX_WAIT_ACK"
    "run_opt (sys_step b) s' (Uart (frame_bytes (ack_frame (tx_next_seq (y_link_tx s)))) # replicate j LinkRx) = Some (s'', [])"
    "tx_state (y_link_tx s'') = GOV_TX_IDLE"
    using telemetry_exchange [OF assms(1-5)] by blast
  let ?f = "telem_frame (y_link_tx s) rec"
  have "snd (run gov_decoder_push d (uart_bytes out)) = [?f]" using link.feed_enc [OF assms(6) telem_frame_ok] r(3) by simp
  moreover have f: "telem_parse (f_payload ?f) = Some rec" "f_type ?f = GOV_TYPE_DATA" "f_seq ?f = tx_next_seq (y_link_tx s)"
    using telem.dec_enc [of rec "[]"] by (simp_all add: telem_frame_def)
  ultimately show ?thesis using r(1,2,4,6) r(5) [folded f(3)] by blast
qed

theorem telemetry_reaches_ground_witness:
  "\<exists>rec k s' out f. gov_node_fill_telemetry (y_node (demo_boot True)) = Some rec \<and>
    run_opt (sys_step demo_build) (demo_boot True) (replicate k Telemetry) = Some (s', out) \<and>
    snd (run gov_decoder_push (gov_decoder_init True) (uart_bytes out)) = [f] \<and> f_type f = GOV_TYPE_DATA \<and>
    telem_parse (f_payload f) = Some rec"
  using telemetry_reaches_ground [OF demo_inv demo_listening(2) demo_boot_simps(10) demo_listening(3,1,4)] by blast

text \<open>
  An operator stop: in any state of the invariant in which the receiving thread is between
  frames, the bytes of a CMD frame with code 0xE5 that is not a repetition of the last frame, and
  the receiving thread run without interruption, stop the node, whatever state it was in, and put
  exactly the acknowledgement of that frame on the link.
\<close>

theorem estop_stops_node:
  assumes "sys_inv b api s" and "listening s" and "HAVE_LINK_UART b" and "length args < GOV_MAX_PAYLOAD"
    and "rx_last (y_link_rx s) \<noteq> Some q"
  shows "\<exists>k s' out. run_opt (sys_step b) s (Uart (frame_bytes (Frame GOV_TYPE_CMD q (0xE5 # args))) # replicate k LinkRx) =
      Some (s', out) \<and> stopped (y_node s') \<and> uart_bytes out = frame_bytes (ack_frame q)"
proof -
  let ?f = "Frame GOV_TYPE_CMD q (0xE5 # args)"
  have "deliverable ?f" using assms(4) by (simp add: deliverable_def frame_ok_def known_def is_known_type_def)
  then obtain k s' out n where r: "run_opt (sys_step b) s (Uart (frame_bytes ?f) # replicate k LinkRx) = Some (s', out)"
    "uart_bytes out = frame_bytes (ack_frame (f_seq ?f))"
    "y_node s' = (case (if rx_last (y_link_rx s) = Some (f_seq ?f) then None else on_app_deliver ?f) of
       None \<Rightarrow> n | Some ev \<Rightarrow> gov_node_post_event n ev (y_clock s))"
    using command_arrives [OF assms(1,2), of ?f] assms(3) by (auto simp: gov_defs simp del: run_opt.simps)
  have "y_node s' = gov_node_post_event n GOV_EV_OPERATOR_STOP (y_clock s)"
    using r(3) assms(5) by (simp add: on_app_deliver_def)
  then have "stopped (y_node s')" using operator_stop_stops by simp
  with r(1,2) show ?thesis by auto
qed

theorem estop_stops_node_witness:
  "\<exists>k s' out. run_opt (sys_step demo_build) (demo_boot True)
      (Uart (frame_bytes (Frame GOV_TYPE_CMD 3 [0xE5])) # replicate k LinkRx) = Some (s', out) \<and>
    stopped (y_node s') \<and> uart_bytes out = frame_bytes (ack_frame 3)"
  using estop_stops_node [OF demo_inv demo_listening(1,2), of "[]" 3]
  by (simp add: demo_boot_simps gov_rx_init_def rx_last_def GOV_MAX_PAYLOAD_def)


lemma demo_endpoint:
  "e_outstanding (endpoint_init True True) = None" "e_pending (endpoint_init True True) = []"
  "gs_ready (e_decoder (endpoint_init True True))" "e_tx_seq (endpoint_init True True) = uint 0"
  "e_on_deliver (endpoint_init True True)" "e_last_rx_seq (endpoint_init True True) = None"
  by (simp_all add: endpoint_init_def gs_ready_def del: gs_rep.simps)






text \<open>
  C23. Progress of the control loop: when the control timer expires, the schedule that follows
  applies an output to the actuator, a whole number from 0 to 100, as soon as it has given the
  control thread six steps, however the other threads, the interrupts and the clock come between
  them and whatever the thread was doing.
\<close>

theorem tick_applies_output:
  assumes "sys_inv b api s" and "y_timer_on s" and "6 \<le> count_list ms Control"
  shows "\<exists>s' out u. run_opt (sys_step b) s (Timer # ms) = Some (s', out) \<and> Applied u \<in> set out \<and> percent u"
proof -
  obtain s' out where r: "run_opt (sys_step b) s (Timer # ms) = Some (s', out)" "\<forall>x \<in> set out. out_ok x"
    using system.run_defined [OF assms(1), of "Timer # ms"] by blast
  have "to_output (y_control s) \<le> 6" by (cases "y_control s") simp_all
  moreover have "run_opt (sys_step b) (s\<lparr> y_tick_sem := True \<rparr>) ms = Some (s', out)"
    using r(1) assms(2) by (cases "run_opt (sys_step b) (s\<lparr> y_tick_sem := True \<rparr>) ms") (auto simp: sys_step_def control_timer_fn_def)
  ultimately have "applies out"
    using assms(3) control_progresses [of "s\<lparr> y_tick_sem := True \<rparr>" ms b s' out] by (simp add: pending_tick_def)
  then obtain x where x: "x \<in> set out" "case x of Applied u \<Rightarrow> True | _ \<Rightarrow> False" unfolding applies_def list_ex_iff by blast
  have "\<exists>u. x = Applied u" using x(2) by (cases x) simp_all
  then obtain u where "Applied u \<in> set out" using x(1) by blast
  with r show ?thesis by force
qed

theorem tick_applies_output_witness:
  "\<exists>s' out u. run_opt (sys_step demo_build) (demo_boot True)
      ([Control] @ Timer # [Clock 10, Control, Uart [0x7E], Control, LinkRx, Control, Control, Health, Control, Control]) =
        Some (s', out) \<and> Applied u \<in> set out \<and> percent u"
proof -
  let ?ms = "[Clock 10, Control, Uart [0x7E], Control, LinkRx, Control, Control, Health, Control, Control]"
  let ?s = "(demo_boot True)\<lparr> y_last_tick := 5, y_timer_on := True, y_control := C_Wait \<rparr>"
  have 1: "run_opt (sys_step demo_build) (demo_boot True) [Control] = Some (?s, [])"
    by (simp add: sys_step_simps control_step_def demo_boot_simps)
  have "sys_inv demo_build (pf_i2c (demo_platform True)) ?s" using system.run_defined [OF demo_inv, of "[Control]"] 1 by simp
  from tick_applies_output [OF this, of ?ms] obtain s' out u where
    2: "run_opt (sys_step demo_build) ?s (Timer # ?ms) = Some (s', out)" "Applied u \<in> set out" "percent u" by auto
  from run_opt_append [OF 1 2(1)] 2(2,3) show ?thesis by (auto simp del: run_opt.simps)
qed


text \<open>After boot, the rest of the first telemetry frame holds no start byte.\<close>

lemma demo_record:
  assumes "gov_node_fill_telemetry (y_node (demo_boot True)) = Some rec"
  shows "rec = \<lparr> t_tick = 0, t_setpoint = 50, t_measurement = 0, t_output = 0, t_state = 1, t_fault_flags = 0 \<rparr>"
  using assms
  by (simp add: gov_node_fill_telemetry_def demo_boot_simps gov_node_selftest_ok_def gov_node_init_def safety_call_def
      gov_safety_state_def gov_safety_init_def gov_safety_init_sticky_def gov_safety_fault_flags_def dispatch_defs Let_def gov_state_code_def trunc_def GOV_FAULT_NONE_def)

lemma demo_rest:
  "GOV_SOF \<notin> set (tl (frame_bytes (telem_frame (gov_tx_init True)
     \<lparr> t_tick = 0, t_setpoint = 50, t_measurement = 0, t_output = 0, t_state = 1, t_fault_flags = 0 \<rparr>)))"
proof -
  let ?body = "[1, 1, 0, 0, 21, 0, 0, 0, 0, 0, 0, 0, 50, 0, 0, 0, 0, 0, 0, 0, 0, 1, 0, 0, 0, 0] :: u8 list"
  have seq: "tx_next_seq (gov_tx_init True) = 0" by (simp add: gov_tx_init_def)
  have body: "frame_body (Frame GOV_TYPE_DATA 0 (telem_bytes
      \<lparr> t_tick = 0, t_setpoint = 50, t_measurement = 0, t_output = 0, t_state = 1, t_fault_flags = 0 \<rparr>)) = ?body"
    by code_simp
  have "unat (gov_crc16_ccitt GOV_CRC_INIT ?body) = 0xA9EF"
    unfolding unat_gov_crc16 by (simp add: crc_nat_def GOV_CRC_INIT_def)
  also have "0xA9EF = unat (0xA9EF :: u16)" by simp
  finally have crc: "gov_crc16_ccitt GOV_CRC_INIT ?body = 0xA9EF" by (simp only: word_unat_eq_iff)
  show ?thesis unfolding telem_frame_def seq frame_bytes_def body crc by (simp add: crc_bytes_def GOV_SOF_def)
qed


text \<open>
  C5. Refinement: under every schedule from a boot, what the five threads do to the node is a
  sequence of whole calls of the coordinator, with measurements from 0 to 100, operator events and
  flags of the sensor driver only, and the outputs applied to the actuator are exactly the results
  of the control steps among them, in order.
\<close>

theorem system_refines_node:
  assumes "below_2_31 (fst (boot_setpoint b pf p))" and "HAVE_SENSOR b \<longrightarrow> i2c_ready (pf_i2c pf) dev"
  shows "\<exists>s' out cs. run_opt (sys_step b) (fst (gov_main b pf dev p t0)) ms = Some (s', out) \<and>
    node_calls (y_node (fst (gov_main b pf dev p t0))) cs = Some (y_node s', applied out) \<and>
    (\<forall>e \<in> set cs. system_call (fst e))"
proof -
  have i: "sys_inv b (pf_i2c pf) (fst (gov_main b pf dev p t0))" using gov_main_ok [OF assms(1)] assms(2) by blast
  from system.run_defined [OF this] obtain s' out where
    r: "run_opt (sys_step b) (fst (gov_main b pf dev p t0)) ms = Some (s', out)" by blast
  from system_calls [OF i r] r show ?thesis unfolding node_move_def by blast
qed

theorem system_refines_node_witness:
  "\<exists>s' out cs. run_opt (sys_step demo_build) (fst (gov_main demo_build (demo_platform True) () demo_persist 5)) demo_moves = Some (s', out) \<and>
    node_calls (y_node (fst (gov_main demo_build (demo_platform True) () demo_persist 5))) cs = Some (y_node s', applied out) \<and>
    (\<forall>e \<in> set cs. system_call (fst e))"
  by (rule system_refines_node) (simp_all add: demo_setpoint demo_ready below_2_31_def)

text \<open>
  C37. The divergence fault is out of reach: with a setpoint from -50 to 150 the flag is never
  raised, under any schedule and whatever the sensor answers, because measurements are within 0 to
  100 and the limit on the error is 150.
\<close>

theorem divergence_unreachable:
  assumes "f32_in (fst (boot_setpoint b pf p)) (- 50) 150" and "HAVE_SENSOR b \<longrightarrow> i2c_ready (pf_i2c pf) dev"
  shows "\<exists>s' out. run_opt (sys_step b) (fst (gov_main b pf dev p t0)) ms = Some (s', out) \<and>
    \<not> raised GOV_FAULT_DIVERGE (gov_node_faults (y_node s'))"
proof -
  let ?s = "fst (gov_main b pf dev p t0)"
  have i: "sys_inv b (pf_i2c pf) ?s" using gov_main_ok [of b pf p dev t0] assms by (auto simp: f32_in_def below_2_31_def split: f32.splits)
  from system.run_defined [OF this] obtain s' out where r: "run_opt (sys_step b) ?s ms = Some (s', out)" by blast
  from system_calls [OF i r] obtain cs where
    cs: "node_calls (y_node ?s) cs = Some (y_node s', applied out)" "\<forall>e \<in> set cs. system_call (fst e)"
    unfolding node_move_def by blast
  have "undiverged (fst (boot_setpoint b pf p)) (y_node ?s)" using boot_undiverged [OF i] assms(2) by blast
  then have "undiverged (fst (boot_setpoint b pf p)) (y_node s')"
    using undiverging.run_defined [of "fst (boot_setpoint b pf p)" "y_node ?s" cs] cs assms(1) unfolding node_calls_def by auto
  with r undiverged_faults show ?thesis by blast
qed

theorem divergence_unreachable_witness:
  "\<exists>s' out. run_opt (sys_step demo_build) (fst (gov_main demo_build (demo_platform True) () demo_persist 5)) demo_moves = Some (s', out) \<and>
    \<not> raised GOV_FAULT_DIVERGE (gov_node_faults (y_node s'))"
  by (rule divergence_unreachable) (simp_all add: demo_setpoint demo_ready f32_in_def)

end
